(* ===== verification/Br_Prelude.thy ===== *)
theory Br_Prelude
  imports Main "HOL-Library.Word"
begin

text \<open>
  Shared vocabulary of the development: the machine integer types of the C sources, the
  \<open>named_theorems\<close> collections the component proofs draw on, and generic facts on
  lists and words that more than one component uses.
\<close>

unbundle bit_operations_syntax

type_synonym u8 = "8 word"
type_synonym u16 = "16 word"
type_synonym u32 = "32 word"
type_synonym u64 = "64 word"

named_theorems expr_sound \<open>value preservation of the expression rewrites\<close>

end
