(* ===== verification/Kconfig_Data.thy ===== *)
theory Kconfig_Data
  imports Br_Prelude
begin

text \<open>
  The data model of the configuration engine (\<^verbatim>\<open>support/kconfig/expr.h\<close>): tristate values,
  expression trees, properties and symbols. A \<^verbatim>\<open>struct symbol *\<close> is a value of type
  \<open>sym\<close>: the three statically allocated constants and one constructor for every symbol that
  \<^verbatim>\<open>sym_lookup\<close> allocates. A flag word is the set of its one-bit flags.
\<close>

section \<open>Tristate values\<close>

datatype tristate = No | Mod | Yes

fun tri_num :: "tristate \<Rightarrow> nat" where
  "tri_num No = 0"
| "tri_num Mod = 1"
| "tri_num Yes = 2"

lemma tri_num_inj [simp]: "tri_num a = tri_num b \<longleftrightarrow> a = b"
  by (cases a; cases b) auto

instantiation tristate :: linorder
begin

definition less_eq_tristate :: "tristate \<Rightarrow> tristate \<Rightarrow> bool" where
  "less_eq_tristate a b \<longleftrightarrow> tri_num a \<le> tri_num b"

definition less_tristate :: "tristate \<Rightarrow> tristate \<Rightarrow> bool" where
  "less_tristate a b \<longleftrightarrow> tri_num a < tri_num b"

instance
  by standard (auto simp: less_eq_tristate_def less_tristate_def)

end

lemmas tri_order = less_eq_tristate_def less_tristate_def

definition EXPR_OR :: "tristate \<Rightarrow> tristate \<Rightarrow> tristate" where
  "EXPR_OR dep1 dep2 = (if dep1 > dep2 then dep1 else dep2)"

definition EXPR_AND :: "tristate \<Rightarrow> tristate \<Rightarrow> tristate" where
  "EXPR_AND dep1 dep2 = (if dep1 < dep2 then dep1 else dep2)"

fun EXPR_NOT :: "tristate \<Rightarrow> tristate" where
  "EXPR_NOT No = Yes"
| "EXPR_NOT Mod = Mod"
| "EXPR_NOT Yes = No"

text \<open>\<open>EXPR_NOT\<close> is the subtraction \<^verbatim>\<open>2-(dep)\<close> of the macro, on the enumeration's numbers.\<close>

lemma EXPR_NOT_num: "tri_num (EXPR_NOT a) = 2 - tri_num a"
  by (cases a) auto

lemma EXPR_OR_max: "EXPR_OR a b = max a b"
  by (auto simp: EXPR_OR_def max_def)

lemma EXPR_AND_min: "EXPR_AND a b = min a b"
  by (auto simp: EXPR_AND_def min_def)

lemma No_le [simp]: "No \<le> a"
  by (cases a) (auto simp: tri_order)

lemma le_Yes [simp]: "a \<le> Yes"
  by (cases a) (auto simp: tri_order)

lemma tri_consts [simp]:
  "EXPR_OR No a = a" "EXPR_OR a No = a" "EXPR_OR Yes a = Yes" "EXPR_OR a Yes = Yes"
  "EXPR_AND No a = No" "EXPR_AND a No = No" "EXPR_AND Yes a = a" "EXPR_AND a Yes = a"
  by (simp_all add: EXPR_OR_max EXPR_AND_min max_absorb1 max_absorb2 min_absorb1 min_absorb2)

lemma EXPR_AND_eq_No: "EXPR_AND a b = No \<longleftrightarrow> a = No \<or> b = No"
  by (cases a; cases b) (auto simp: EXPR_AND_def tri_order)

lemma EXPR_NOT_NOT [simp]: "EXPR_NOT (EXPR_NOT a) = a"
  by (cases a) auto

lemma EXPR_NOT_OR [simp]: "EXPR_NOT (EXPR_OR a b) = EXPR_AND (EXPR_NOT a) (EXPR_NOT b)"
  by (cases a; cases b) (auto simp: EXPR_OR_def EXPR_AND_def tri_order)

lemma EXPR_NOT_AND [simp]: "EXPR_NOT (EXPR_AND a b) = EXPR_OR (EXPR_NOT a) (EXPR_NOT b)"
  by (cases a; cases b) (auto simp: EXPR_OR_def EXPR_AND_def tri_order)

section \<open>Symbols and expressions\<close>

datatype sym = symbol_yes | symbol_mod | symbol_no | Sym nat

datatype symbol_type =
  S_UNKNOWN | S_BOOLEAN | S_TRISTATE | S_INT | S_HEX | S_STRING | S_OTHER

datatype expr_type =
  E_NONE | E_OR | E_AND | E_NOT | E_EQUAL | E_UNEQUAL | E_LIST | E_SYMBOL | E_RANGE

text \<open>
  One constructor per \<^verbatim>\<open>enum expr_type\<close>, carrying the members of the two unions that the
  code reads for that type. The operands of \<open>Or\<close>, \<open>And\<close> and \<open>Not\<close> are never
  \<^verbatim>\<open>NULL\<close>; a pointer that may be is an \<open>expr option\<close>.
\<close>

datatype expr =
    ENone
  | Or expr expr
  | And expr expr
  | Not expr
  | Equal sym sym
  | Unequal sym sym
  | EList "expr option" "sym option"
  | Symbol sym
  | Range sym sym

fun etype :: "expr \<Rightarrow> expr_type" where
  "etype ENone = E_NONE"
| "etype (Or _ _) = E_OR"
| "etype (And _ _) = E_AND"
| "etype (Not _) = E_NOT"
| "etype (Equal _ _) = E_EQUAL"
| "etype (Unequal _ _) = E_UNEQUAL"
| "etype (EList _ _) = E_LIST"
| "etype (Symbol _) = E_SYMBOL"
| "etype (Range _ _) = E_RANGE"

datatype sym_flag =
    SYMBOL_CONST | SYMBOL_CHECK | SYMBOL_CHOICE | SYMBOL_CHOICEVAL | SYMBOL_VALID
  | SYMBOL_OPTIONAL | SYMBOL_WRITE | SYMBOL_CHANGED | SYMBOL_AUTO | SYMBOL_CHECKED
  | SYMBOL_WARNED | SYMBOL_DEF_USER | SYMBOL_DEF_AUTO | SYMBOL_DEF3 | SYMBOL_DEF4
  | SYMBOL_NEED_SET_CHOICE_VALUES

text \<open>
  The \<^verbatim>\<open>void *val\<close> of a \<^verbatim>\<open>struct symbol_value\<close> is a string, or the selected
  symbol of a choice, or \<^verbatim>\<open>NULL\<close>.
\<close>

datatype sval = V_null | V_str string | V_sym sym

record symbol_value =
  val :: sval
  tri :: tristate

record expr_value =
  vexpr :: "expr option"
  vtri :: tristate

datatype prop_type =
    P_UNKNOWN | P_PROMPT | P_COMMENT | P_MENU | P_DEFAULT | P_CHOICE | P_SELECT | P_RANGE
  | P_ENV | P_SYMBOL

text \<open>
  A property knows the file and line where it was parsed, and the menu entry it belongs to: its address
  and the file and line that it holds.
\<close>

type_synonym position = "string \<times> nat"

type_synonym menu_ref = "nat \<times> position"

record property =
  ptype :: prop_type
  ptext :: "string option"
  pvisible :: expr_value
  pexpr :: "expr option"
  ppos :: position
  pmenu :: "menu_ref option"

record symbol =
  sname :: "string option"
  stype :: symbol_type
  curr :: symbol_value
  def_user :: symbol_value
  def_auto :: symbol_value
  visible :: tristate
  flags :: "sym_flag set"
  props :: "property list"
  dir_dep :: expr_value
  rev_dep :: expr_value

text \<open>
  The state of the engine: the contents of the symbols, the buckets of \<^verbatim>\<open>symbol_hash\<close>,
  the number of the next symbol to be allocated, and the static variables.
\<close>

record kconf =
  symtab :: "sym \<Rightarrow> symbol"
  modules_sym :: sym
  modules_val :: tristate
  symbol_hash :: "nat \<Rightarrow> sym list"
  next_sym :: nat
  sym_change_count :: int
  conf_warnings :: nat
  conf_unsaved :: nat

text \<open>
  The symbol that \<^verbatim>\<open>sym_lookup\<close> allocates (zeroed memory with a name and flags), the
  statically allocated constants, and \<^verbatim>\<open>symbol_empty\<close>.
\<close>

definition no_value :: symbol_value where
  "no_value = \<lparr>val = V_null, tri = No\<rparr>"

definition no_expr :: expr_value where
  "no_expr = \<lparr>vexpr = None, vtri = No\<rparr>"

definition new_symbol :: "string option \<Rightarrow> sym_flag set \<Rightarrow> symbol" where
  "new_symbol nm fl = \<lparr>sname = nm, stype = S_UNKNOWN, curr = no_value, def_user = no_value, def_auto = no_value,
     visible = No, flags = fl, props = [], dir_dep = no_expr, rev_dep = no_expr\<rparr>"

definition const_symbol :: "string \<Rightarrow> tristate \<Rightarrow> symbol" where
  "const_symbol nm t = (new_symbol (Some nm) {SYMBOL_CONST, SYMBOL_VALID})
     \<lparr>curr := \<lparr>val = V_str nm, tri = t\<rparr>\<rparr>"

definition symbol_empty :: symbol where
  "symbol_empty = (new_symbol (Some []) {SYMBOL_VALID})\<lparr>curr := \<lparr>val = V_str [], tri = No\<rparr>\<rparr>"

text \<open>
  A symbol table whose ordinary symbols are given by a function, with modules enabled: the states
  in which concrete inputs are evaluated.
\<close>

definition mk_kconf :: "(nat \<Rightarrow> symbol) \<Rightarrow> kconf" where
  "mk_kconf f = \<lparr>symtab = (\<lambda>s. case s of
       symbol_yes \<Rightarrow> const_symbol ''y'' Yes
     | symbol_mod \<Rightarrow> const_symbol ''m'' Mod
     | symbol_no \<Rightarrow> const_symbol ''n'' No
     | Sym n \<Rightarrow> f n), modules_sym = symbol_yes, modules_val = Yes,
     symbol_hash = (\<lambda>_. []), next_sym = 0, sym_change_count = 0,
     conf_warnings = 0, conf_unsaved = 0\<rparr>"

definition valued_symbol :: "symbol_type \<Rightarrow> tristate \<Rightarrow> symbol" where
  "valued_symbol ty t = (new_symbol (Some ''OPT'') {SYMBOL_VALID})
     \<lparr>stype := ty, curr := \<lparr>val = V_null, tri = t\<rparr>\<rparr>"

lemma mk_kconf_simps [simp]:
  "symtab (mk_kconf f) symbol_yes = const_symbol ''y'' Yes"
  "symtab (mk_kconf f) symbol_mod = const_symbol ''m'' Mod"
  "symtab (mk_kconf f) symbol_no = const_symbol ''n'' No"
  "symtab (mk_kconf f) (Sym n) = f n"
  "modules_sym (mk_kconf f) = symbol_yes" "modules_val (mk_kconf f) = Yes"
  by (simp_all add: mk_kconf_def)

lemma const_symbol_simps [simp]:
  "stype (const_symbol nm t) = S_UNKNOWN" "curr (const_symbol nm t) = \<lparr>val = V_str nm, tri = t\<rparr>"
  "flags (const_symbol nm t) = {SYMBOL_CONST, SYMBOL_VALID}"
  by (simp_all add: const_symbol_def new_symbol_def)

lemma valued_symbol_simps [simp]:
  "stype (valued_symbol ty t) = ty" "curr (valued_symbol ty t) = \<lparr>val = V_null, tri = t\<rparr>"
  "flags (valued_symbol ty t) = {SYMBOL_VALID}"
  by (simp_all add: valued_symbol_def new_symbol_def)

end
