(* ===== verification/Kconfig_Expr.thy ===== *)
theory Kconfig_Expr
  imports Kconfig_Data
begin

text \<open>
  The expression engine of \<^verbatim>\<open>support/kconfig/expr.c\<close>: construction, evaluation, equality up
  to rearrangement, and elimination of constants. A tree is a value of type \<open>expr\<close>, so
  \<^verbatim>\<open>expr_copy\<close> and \<^verbatim>\<open>expr_free\<close> leave no trace in the functions that call them;
  a function that rewrites trees through \<^verbatim>\<open>struct expr **\<close> returns the new trees.
  The static counter \<^verbatim>\<open>trans_count\<close> is passed through explicitly.
\<close>

section \<open>Construction\<close>

definition expr_alloc_symbol :: "sym \<Rightarrow> expr" where
  "expr_alloc_symbol s = Symbol s"

fun expr_alloc_and :: "expr option \<Rightarrow> expr option \<Rightarrow> expr option" where
  "expr_alloc_and None e2 = e2"
| "expr_alloc_and (Some e1) None = Some e1"
| "expr_alloc_and (Some e1) (Some e2) = Some (And e1 e2)"

fun expr_alloc_or :: "expr option \<Rightarrow> expr option \<Rightarrow> expr option" where
  "expr_alloc_or None e2 = e2"
| "expr_alloc_or (Some e1) None = Some e1"
| "expr_alloc_or (Some e1) (Some e2) = Some (Or e1 e2)"

text \<open>
  The \<^verbatim>\<open>E_LIST\<close> case copies \<^verbatim>\<open>right.expr\<close>, although the right member of a list
  cell is a symbol: the symbol's leading hash-chain pointer is read as an expression type, which
  is none of the types that can be copied, so the copy holds \<^verbatim>\<open>NULL\<close> there. An operand
  that cannot be copied makes the whole result \<open>None\<close>.
\<close>

fun expr_copy :: "expr \<Rightarrow> expr option" where
  "expr_copy (Symbol s) = Some (Symbol s)"
| "expr_copy (Not e) = map_option Not (expr_copy e)"
| "expr_copy (Equal a b) = Some (Equal a b)"
| "expr_copy (Unequal a b) = Some (Unequal a b)"
| "expr_copy (And l r) =
     (case (expr_copy l, expr_copy r) of (Some l', Some r') \<Rightarrow> Some (And l' r') | _ \<Rightarrow> None)"
| "expr_copy (Or l r) =
     (case (expr_copy l, expr_copy r) of (Some l', Some r') \<Rightarrow> Some (Or l' r') | _ \<Rightarrow> None)"
| "expr_copy (EList l s) =
     Some (EList (case l of None \<Rightarrow> None | Some e \<Rightarrow> expr_copy e) None)"
| "expr_copy (Range _ _) = None"
| "expr_copy ENone = None"

definition expr_is_yes :: "expr option \<Rightarrow> bool" where
  "expr_is_yes e \<longleftrightarrow> e = None \<or> e = Some (Symbol symbol_yes)"

definition expr_is_no :: "expr option \<Rightarrow> bool" where
  "expr_is_no e \<longleftrightarrow> e = Some (Symbol symbol_no)"

section \<open>Evaluation\<close>

text \<open>
  Evaluation in a state where the symbols the expression mentions have been calculated, that is
  where \<^verbatim>\<open>sym_calc_value\<close> returns at once because \<open>SYMBOL_VALID\<close> is set.
\<close>

definition sym_get_tristate_value :: "kconf \<Rightarrow> sym \<Rightarrow> tristate" where
  "sym_get_tristate_value k s = tri (curr (symtab k s))"

definition sym_get_string_value :: "kconf \<Rightarrow> sym \<Rightarrow> sval" where
  "sym_get_string_value k s =
     (if stype (symtab k s) \<in> {S_BOOLEAN, S_TRISTATE} then
        (case sym_get_tristate_value k s of
           No \<Rightarrow> V_str ''n''
         | Mod \<Rightarrow> (if sym_get_tristate_value k (modules_sym k) = No
                    then V_str ''n'' else V_str ''m'')
         | Yes \<Rightarrow> V_str ''y'')
      else val (curr (symtab k s)))"

primrec expr_calc_value :: "kconf \<Rightarrow> expr \<Rightarrow> tristate" where
  "expr_calc_value k (Symbol s) = tri (curr (symtab k s))"
| "expr_calc_value k (And l r) = EXPR_AND (expr_calc_value k l) (expr_calc_value k r)"
| "expr_calc_value k (Or l r) = EXPR_OR (expr_calc_value k l) (expr_calc_value k r)"
| "expr_calc_value k (Not e) = EXPR_NOT (expr_calc_value k e)"
| "expr_calc_value k (Equal a b) =
     (if sym_get_string_value k a = sym_get_string_value k b then Yes else No)"
| "expr_calc_value k (Unequal a b) =
     (if sym_get_string_value k a = sym_get_string_value k b then No else Yes)"
| "expr_calc_value k (EList l s) = No"
| "expr_calc_value k (Range a b) = No"
| "expr_calc_value k ENone = No"

text \<open>A \<^verbatim>\<open>NULL\<close> expression is \<open>Yes\<close>.\<close>

definition expr_calc_value_null :: "kconf \<Rightarrow> expr option \<Rightarrow> tristate" where
  "expr_calc_value_null k e = (case e of None \<Rightarrow> Yes | Some e' \<Rightarrow> expr_calc_value k e')"

section \<open>Elimination of constants\<close>

fun expr_eliminate_yn :: "expr \<Rightarrow> expr" where
  "expr_eliminate_yn (And l r) =
     (let l' = expr_eliminate_yn l; r' = expr_eliminate_yn r in
      if l' = Symbol symbol_no then Symbol symbol_no
      else if l' = Symbol symbol_yes then r'
      else if r' = Symbol symbol_no then Symbol symbol_no
      else if r' = Symbol symbol_yes then l'
      else And l' r')"
| "expr_eliminate_yn (Or l r) =
     (let l' = expr_eliminate_yn l; r' = expr_eliminate_yn r in
      if l' = Symbol symbol_no then r'
      else if l' = Symbol symbol_yes then Symbol symbol_yes
      else if r' = Symbol symbol_no then l'
      else if r' = Symbol symbol_yes then Symbol symbol_yes
      else Or l' r')"
| "expr_eliminate_yn e = e"

section \<open>Equality up to rearrangement\<close>

text \<open>
  The members of a node that \<^verbatim>\<open>e->left.expr\<close> and \<^verbatim>\<open>e->right.expr\<close> read, and the
  node that \<^verbatim>\<open>expr_alloc_two\<close> builds for the two binary types.
\<close>

fun eleft :: "expr \<Rightarrow> expr" where
  "eleft (And l r) = l"
| "eleft (Or l r) = l"
| "eleft (Not l) = l"
| "eleft _ = ENone"

fun eright :: "expr \<Rightarrow> expr" where
  "eright (And l r) = r"
| "eright (Or l r) = r"
| "eright _ = ENone"

fun expr_alloc_two :: "expr_type \<Rightarrow> expr \<Rightarrow> expr \<Rightarrow> expr" where
  "expr_alloc_two E_OR l r = Or l r"
| "expr_alloc_two E_AND l r = And l r"
| "expr_alloc_two _ l r = ENone"

definition binop :: "expr_type \<Rightarrow> bool" where
  "binop ty \<longleftrightarrow> ty = E_OR \<or> ty = E_AND"

text \<open>The test \<^verbatim>\<open>e1->type == E_SYMBOL && e2->type == E_SYMBOL && e1->left.sym == e2->left.sym\<close>.\<close>

fun same_symbol :: "expr \<Rightarrow> expr \<Rightarrow> bool" where
  "same_symbol (Symbol a) (Symbol b) \<longleftrightarrow> a = b"
| "same_symbol _ _ \<longleftrightarrow> False"

text \<open>The number of nodes, the measure of the recursions.\<close>

fun esize :: "expr \<Rightarrow> nat" where
  "esize (And l r) = Suc (esize l + esize r)"
| "esize (Or l r) = Suc (esize l + esize r)"
| "esize (Not e) = Suc (esize e)"
| "esize _ = 1"

lemma esize_pos [simp]: "0 < esize e"
  by (cases e) auto

lemma binop_cases: "binop ty \<Longrightarrow> (ty = E_OR \<Longrightarrow> P) \<Longrightarrow> (ty = E_AND \<Longrightarrow> P) \<Longrightarrow> P"
  by (auto simp: binop_def)

lemma esize_binop:
  "binop (etype e) \<Longrightarrow> esize e = Suc (esize (eleft e) + esize (eright e))"
  by (cases e) (auto simp: binop_def)

lemma esize_alloc_two [simp]: "binop ty \<Longrightarrow> esize (expr_alloc_two ty l r) = Suc (esize l + esize r)"
  by (auto simp: binop_def)

lemma etype_alloc_two [simp]: "binop ty \<Longrightarrow> etype (expr_alloc_two ty l r) = ty"
  by (auto simp: binop_def)

lemma eleft_alloc_two [simp]: "binop ty \<Longrightarrow> eleft (expr_alloc_two ty l r) = l"
  by (auto simp: binop_def)

lemma eright_alloc_two [simp]: "binop ty \<Longrightarrow> eright (expr_alloc_two ty l r) = r"
  by (auto simp: binop_def)

lemma esize_eliminate_yn: "esize (expr_eliminate_yn e) \<le> esize e"
  by (induction e rule: expr_eliminate_yn.induct) (auto simp: Let_def)

text \<open>
  \<open>expr_eliminate_eq1\<close> is \<^verbatim>\<open>__expr_eliminate_eq\<close>. The three functions call each other:
  equality of two conjunctions cancels the operands they share on copies of both, and operands
  are compared by equality. Cancelling leaves the neutral constant, so the trees never grow,
  which is what makes the recursion end.
\<close>

function (sequential) expr_eliminate_eq1 ::
    "expr_type \<Rightarrow> expr \<Rightarrow> expr \<Rightarrow> nat \<Rightarrow> expr \<times> expr \<times> nat"
  and expr_eliminate_eq :: "expr \<Rightarrow> expr \<Rightarrow> nat \<Rightarrow> expr \<times> expr \<times> nat"
  and expr_eq :: "expr \<Rightarrow> expr \<Rightarrow> bool"
where
  "expr_eliminate_eq1 ty e1 e2 c =
     (if etype e1 = ty \<and> binop ty then
        (case expr_eliminate_eq1 ty (eleft e1) e2 c of (l, e2', c') \<Rightarrow>
         (case expr_eliminate_eq1 ty (eright e1) e2' c' of (r, e2'', c'') \<Rightarrow>
            (expr_alloc_two ty l r, e2'', c'')))
      else if etype e2 = ty \<and> binop ty then
        (case expr_eliminate_eq1 ty e1 (eleft e2) c of (e1', l, c') \<Rightarrow>
         (case expr_eliminate_eq1 ty e1' (eright e2) c' of (e1'', r, c'') \<Rightarrow>
            (e1'', expr_alloc_two ty l r, c'')))
      else if same_symbol e1 e2 \<and> (e1 = Symbol symbol_yes \<or> e1 = Symbol symbol_no)
        then (e1, e2, c)
      else if \<not> expr_eq e1 e2 then (e1, e2, c)
      else if ty = E_OR then (Symbol symbol_no, Symbol symbol_no, Suc c)
      else if ty = E_AND then (Symbol symbol_yes, Symbol symbol_yes, Suc c)
      else (e1, e2, Suc c))"
| "expr_eliminate_eq e1 e2 c =
     (case (if binop (etype e1) then expr_eliminate_eq1 (etype e1) e1 e2 c else (e1, e2, c)) of
        (f1, f2, c') \<Rightarrow>
        (case (if etype f1 \<noteq> etype f2 \<and> binop (etype f2)
               then expr_eliminate_eq1 (etype f2) f1 f2 c' else (f1, f2, c')) of
           (g1, g2, c'') \<Rightarrow> (expr_eliminate_yn g1, expr_eliminate_yn g2, c'')))"
| "expr_eq e1 e2 =
     (if etype e1 \<noteq> etype e2 then False
      else (case etype e1 of
              E_EQUAL \<Rightarrow> e1 = e2
            | E_UNEQUAL \<Rightarrow> e1 = e2
            | E_SYMBOL \<Rightarrow> e1 = e2
            | E_NOT \<Rightarrow> expr_eq (eleft e1) (eleft e2)
            | E_AND \<Rightarrow> (case expr_eliminate_eq e1 e2 0 of (f1, f2, _) \<Rightarrow> same_symbol f1 f2)
            | E_OR \<Rightarrow> (case expr_eliminate_eq e1 e2 0 of (f1, f2, _) \<Rightarrow> same_symbol f1 f2)
            | E_LIST \<Rightarrow> False
            | E_RANGE \<Rightarrow> False
            | E_NONE \<Rightarrow> False))"
  by pat_completeness auto

lemma eliminate_eq1_size_dom:
  assumes "expr_eliminate_eq1_expr_eliminate_eq_expr_eq_dom (Inl (ty, e1, e2, c))"
    and "expr_eliminate_eq1 ty e1 e2 c = (f1, f2, c')"
  shows "esize f1 \<le> esize e1 \<and> esize f2 \<le> esize e2"
  using assms
proof (induction ty e1 e2 c arbitrary: f1 f2 c'
    rule: expr_eliminate_eq1_expr_eliminate_eq_expr_eq.pinduct(1)
      [where Q = "\<lambda>_ _ _. True" and R = "\<lambda>_ _. True"])
  case (1 ty e1 e2 c)
  note def = expr_eliminate_eq1.psimps [OF "1.hyps"(1)]
  show ?case
  proof (cases "etype e1 = ty \<and> binop ty")
    case True
    obtain l e2' d where L: "expr_eliminate_eq1 ty (eleft e1) e2 c = (l, e2', d)"
      by (cases "expr_eliminate_eq1 ty (eleft e1) e2 c") auto
    obtain r e2'' d' where R: "expr_eliminate_eq1 ty (eright e1) e2' d = (r, e2'', d')"
      by (cases "expr_eliminate_eq1 ty (eright e1) e2' d") auto
    have "esize l \<le> esize (eleft e1) \<and> esize e2' \<le> esize e2"
      using "1.IH"(1) [OF True L] .
    moreover have "esize r \<le> esize (eright e1) \<and> esize e2'' \<le> esize e2'"
      using "1.IH"(2) [OF True L [symmetric] refl R] .
    moreover have "f1 = expr_alloc_two ty l r" "f2 = e2''"
      using "1.prems" True L R by (auto simp: def)
    ultimately show ?thesis
      using True by (auto simp: esize_binop)
  next
    case n1: False
    show ?thesis
    proof (cases "etype e2 = ty \<and> binop ty")
      case True
      obtain e1' l d where L: "expr_eliminate_eq1 ty e1 (eleft e2) c = (e1', l, d)"
        by (cases "expr_eliminate_eq1 ty e1 (eleft e2) c") auto
      obtain e1'' r d' where R: "expr_eliminate_eq1 ty e1' (eright e2) d = (e1'', r, d')"
        by (cases "expr_eliminate_eq1 ty e1' (eright e2) d") auto
      have "esize e1' \<le> esize e1 \<and> esize l \<le> esize (eleft e2)"
        using "1.IH"(3) [OF n1 True L] .
      moreover have "esize e1'' \<le> esize e1' \<and> esize r \<le> esize (eright e2)"
        using "1.IH"(4) [OF n1 True L [symmetric] refl R] .
      moreover have "f1 = e1''" "f2 = expr_alloc_two ty l r"
        using "1.prems" n1 True L R by (simp_all add: def split: if_splits)
      ultimately show ?thesis
        using True by (auto simp: esize_binop)
    next
      case False
      then show ?thesis
        using "1.prems" n1 unfolding def
        by (auto split: if_splits simp: Suc_le_eq)
    qed
  qed
qed simp_all

termination expr_eliminate_eq1
proof (relation "measure (case_sum
    (\<lambda>(ty, e1, e2, c). 4 * (esize e1 + esize e2)
       + (if binop ty \<and> (etype e1 = ty \<or> etype e2 = ty) then 0 else 3))
    (case_sum (\<lambda>(e1, e2, c). 4 * (esize e1 + esize e2) + 1)
              (\<lambda>(e1, e2). 4 * (esize e1 + esize e2) + 2)))", goal_cases)
  case (3 ty e1 e2 c x y xa ya)
  then have "esize xa \<le> esize e2"
    using eliminate_eq1_size_dom [of ty "eleft e1" e2 c x xa ya] by simp
  with 3 show ?case by (auto simp: esize_binop)
next
  case (5 ty e1 e2 c x y xa ya)
  then have "esize x \<le> esize e1"
    using eliminate_eq1_size_dom [of ty e1 "eleft e2" c x xa ya] by simp
  with 5 show ?case by (auto simp: esize_binop)
next
  case (8 e1 e2 c x y xa ya)
  then have "esize x \<le> esize e1 \<and> esize xa \<le> esize e2"
    using eliminate_eq1_size_dom [of "etype e1" e1 e2 c x xa ya] by (auto split: if_splits)
  with 8(3) show ?case by simp
next
  case (11 e1 e2)
  then show ?case by (cases e1; cases e2) auto
qed (auto simp: esize_binop binop_def)


declare expr_eliminate_eq1.simps [simp del] expr_eliminate_eq.simps [simp del]
  expr_eq.simps [simp del]

section \<open>Value preservation\<close>

text \<open>The contents of the three static symbols.\<close>

definition kconf_consts :: "kconf \<Rightarrow> bool" where
  "kconf_consts k \<longleftrightarrow>
     (\<forall>(s, n, t) \<in> {(symbol_yes, ''y'', Yes), (symbol_mod, ''m'', Mod), (symbol_no, ''n'', No)}.
        stype (symtab k s) = S_UNKNOWN \<and> curr (symtab k s) = \<lparr>val = V_str n, tri = t\<rparr>
        \<and> SYMBOL_CONST \<in> flags (symtab k s))"

lemma kconf_constsD:
  assumes "kconf_consts k"
  shows "tri (curr (symtab k symbol_yes)) = Yes"
    and "tri (curr (symtab k symbol_mod)) = Mod"
    and "tri (curr (symtab k symbol_no)) = No"
    and "sym_get_string_value k symbol_yes = V_str ''y''"
    and "sym_get_string_value k symbol_mod = V_str ''m''"
    and "sym_get_string_value k symbol_no = V_str ''n''"
  using assms by (auto simp: kconf_consts_def sym_get_string_value_def)

lemma eliminate_yn_value:
  "kconf_consts k \<Longrightarrow> expr_calc_value k (expr_eliminate_yn e) = expr_calc_value k e"
proof (induction e rule: expr_eliminate_yn.induct)
  case (1 l r)
  then have l: "expr_calc_value k l = expr_calc_value k (expr_eliminate_yn l)"
    and r: "expr_calc_value k r = expr_calc_value k (expr_eliminate_yn r)" by simp_all
  show ?case
    using kconf_constsD [OF "1.prems"] by (auto simp: Let_def l r)
next
  case (2 l r)
  then have l: "expr_calc_value k l = expr_calc_value k (expr_eliminate_yn l)"
    and r: "expr_calc_value k r = expr_calc_value k (expr_eliminate_yn r)" by simp_all
  show ?case
    using kconf_constsD [OF "2.prems"] by (auto simp: Let_def l r)
qed simp_all

text \<open>The operation of a binary node and its neutral constant.\<close>

definition tri_op :: "expr_type \<Rightarrow> tristate \<Rightarrow> tristate \<Rightarrow> tristate" where
  "tri_op ty = (if ty = E_AND then EXPR_AND else EXPR_OR)"

definition neutral :: "expr_type \<Rightarrow> sym" where
  "neutral ty = (if ty = E_AND then symbol_yes else symbol_no)"

lemma tri_op_assoc: "tri_op ty (tri_op ty a b) c = tri_op ty a (tri_op ty b c)"
  by (simp add: tri_op_def EXPR_OR_max EXPR_AND_min max.assoc min.assoc)

lemma tri_op_commute: "tri_op ty a b = tri_op ty b a"
  by (simp add: tri_op_def EXPR_OR_max EXPR_AND_min max.commute min.commute)

lemma tri_op_left_commute: "tri_op ty a (tri_op ty b c) = tri_op ty b (tri_op ty a c)"
  by (simp add: tri_op_def EXPR_OR_max EXPR_AND_min max.left_commute min.left_commute)

lemmas tri_op_ac = tri_op_assoc tri_op_commute tri_op_left_commute

lemma tri_op_idem [simp]: "tri_op ty a a = a" "tri_op ty a (tri_op ty a b) = tri_op ty a b"
  by (simp_all add: tri_op_def EXPR_OR_max EXPR_AND_min flip: max.assoc min.assoc)

lemma calc_alloc_two [simp]:
  "binop ty \<Longrightarrow> expr_calc_value k (expr_alloc_two ty l r)
     = tri_op ty (expr_calc_value k l) (expr_calc_value k r)"
  by (auto simp: binop_def tri_op_def)

lemma calc_binop:
  "binop (etype e) \<Longrightarrow> expr_calc_value k e
     = tri_op (etype e) (expr_calc_value k (eleft e)) (expr_calc_value k (eright e))"
  by (cases e) (auto simp: binop_def tri_op_def)

lemma calc_neutral:
  "kconf_consts k \<Longrightarrow> tri_op ty (expr_calc_value k (Symbol (neutral ty))) a = a"
  by (simp add: tri_op_def neutral_def kconf_constsD)

text \<open>
  Two expressions share a common part \<open>c\<close> that has been cancelled from both: the contract of
  cancelling equal operands.
\<close>

definition cancels :: "kconf \<Rightarrow> expr_type \<Rightarrow> expr \<Rightarrow> expr \<Rightarrow> expr \<Rightarrow> expr \<Rightarrow> bool" where
  "cancels k ty e1 e2 f1 f2 \<longleftrightarrow>
     (\<exists>c. expr_calc_value k e1 = tri_op ty (expr_calc_value k f1) c
        \<and> expr_calc_value k e2 = tri_op ty (expr_calc_value k f2) c)"

lemma cancels_refl: "kconf_consts k \<Longrightarrow> cancels k ty e1 e2 e1 e2"
  unfolding cancels_def
  by (rule exI [of _ "expr_calc_value k (Symbol (neutral ty))"])
     (metis calc_neutral tri_op_commute)

lemma cancels_neutral:
  assumes "kconf_consts k" and "expr_calc_value k e1 = expr_calc_value k e2"
  shows "cancels k ty e1 e2 (Symbol (neutral ty)) (Symbol (neutral ty))"
  unfolding cancels_def using assms
  by (intro exI [of _ "expr_calc_value k e1"]) (metis calc_neutral)

lemma cancels_left:
  assumes "binop (etype e1)" "ty = etype e1"
    and "cancels k ty (eleft e1) e2 l f2" and "cancels k ty (eright e1) f2 r g2"
  shows "cancels k ty e1 e2 (expr_alloc_two ty l r) g2"
proof -
  obtain c d where "expr_calc_value k (eleft e1) = tri_op ty (expr_calc_value k l) c"
    "expr_calc_value k e2 = tri_op ty (expr_calc_value k f2) c"
    "expr_calc_value k (eright e1) = tri_op ty (expr_calc_value k r) d"
    "expr_calc_value k f2 = tri_op ty (expr_calc_value k g2) d"
    using assms(3,4) by (auto simp: cancels_def)
  then show ?thesis
    using assms(1,2) unfolding cancels_def calc_binop [OF assms(1)]
    by (intro exI [of _ "tri_op ty c d"]) (simp add: tri_op_ac)
qed

lemma cancels_sym: "cancels k ty e1 e2 f1 f2 \<Longrightarrow> cancels k ty e2 e1 f2 f1"
  by (auto simp: cancels_def)

text \<open>The four ways a call of \<open>expr_eliminate_eq1\<close> on a binary type can go.\<close>

lemma eliminate_eq1_cases:
  assumes "expr_eliminate_eq1 ty e1 e2 c = (f1, f2, c')" and "binop ty"
  obtains
    (left) l m d r where "etype e1 = ty" "expr_eliminate_eq1 ty (eleft e1) e2 c = (l, m, d)"
      "expr_eliminate_eq1 ty (eright e1) m d = (r, f2, c')" "f1 = expr_alloc_two ty l r"
  | (right) l m d r where "etype e1 \<noteq> ty" "etype e2 = ty"
      "expr_eliminate_eq1 ty e1 (eleft e2) c = (m, l, d)"
      "expr_eliminate_eq1 ty m (eright e2) d = (f1, r, c')" "f2 = expr_alloc_two ty l r"
  | (keep) "etype e1 \<noteq> ty" "etype e2 \<noteq> ty" "f1 = e1" "f2 = e2" "c' = c"
  | (cancel) "etype e1 \<noteq> ty" "etype e2 \<noteq> ty" "expr_eq e1 e2"
      "\<not> (same_symbol e1 e2 \<and> (e1 = Symbol symbol_yes \<or> e1 = Symbol symbol_no))"
      "f1 = Symbol (neutral ty)" "f2 = Symbol (neutral ty)" "c' = Suc c"
proof (cases "etype e1 = ty")
  case True
  obtain l m d where L: "expr_eliminate_eq1 ty (eleft e1) e2 c = (l, m, d)"
    by (cases "expr_eliminate_eq1 ty (eleft e1) e2 c") auto
  obtain r n d' where R: "expr_eliminate_eq1 ty (eright e1) m d = (r, n, d')"
    by (cases "expr_eliminate_eq1 ty (eright e1) m d") auto
  from assms True L R show ?thesis
    by (auto simp: expr_eliminate_eq1.simps [of ty e1] intro: left)
next
  case n1: False
  show ?thesis
  proof (cases "etype e2 = ty")
    case True
    obtain m l d where L: "expr_eliminate_eq1 ty e1 (eleft e2) c = (m, l, d)"
      by (cases "expr_eliminate_eq1 ty e1 (eleft e2) c") auto
    obtain n r d' where R: "expr_eliminate_eq1 ty m (eright e2) d = (n, r, d')"
      by (cases "expr_eliminate_eq1 ty m (eright e2) d") auto
    from assms n1 True L R show ?thesis
      by (intro right) (auto simp: expr_eliminate_eq1.simps [of ty e1 e2])
  next
    case False
    with n1 assms keep cancel show ?thesis
      by (auto simp: expr_eliminate_eq1.simps [of ty e1 e2] binop_def neutral_def split: if_splits)
  qed
qed

lemma eliminate_eq1_etype:
  assumes "expr_eliminate_eq1 ty e1 e2 c = (f1, f2, c')" and "binop ty"
  shows "(etype e1 = ty \<longrightarrow> etype f1 = ty) \<and> (etype e2 = ty \<longrightarrow> etype f2 = ty)"
  using assms
proof (induction ty e1 e2 c arbitrary: f1 f2 c'
    rule: expr_eliminate_eq1_expr_eliminate_eq_expr_eq.induct(1)
      [where Q = "\<lambda>_ _ _. True" and R = "\<lambda>_ _. True"])
  case (1 ty e1 e2 c)
  from "1.prems" show ?case
  proof (cases rule: eliminate_eq1_cases)
    case (left l m d r)
    with "1.prems"(2) have b: "etype e1 = ty \<and> binop ty" by simp
    show ?thesis
      using "1.IH"(1) [OF b left(2)] "1.IH"(2) [OF b left(2) [symmetric] refl left(3)] b left(4)
      by simp
  next
    case (right l m d r)
    with "1.prems"(2) show ?thesis by simp
  qed simp_all
qed (rule TrueI)+

text \<open>
  Cancelling is sound, and so is equality: expressions that \<open>expr_eq\<close> identifies have the same
  value in every configuration.
\<close>

lemma cancel_and_eq_sound:
  assumes k: "kconf_consts k"
  shows "binop ty \<Longrightarrow> expr_eliminate_eq1 ty e1 e2 c = (f1, f2, c') \<Longrightarrow> cancels k ty e1 e2 f1 f2"
    and "etype g1 = etype g2 \<Longrightarrow> binop (etype g1) \<Longrightarrow> expr_eliminate_eq g1 g2 c = (h1, h2, c') \<Longrightarrow>
           cancels k (etype g1) g1 g2 h1 h2"
    and "expr_eq i1 i2 \<Longrightarrow> expr_calc_value k i1 = expr_calc_value k i2"
proof (induction ty e1 e2 c and g1 g2 c and i1 i2 arbitrary: f1 f2 c' and h1 h2 c'
    rule: expr_eliminate_eq1_expr_eliminate_eq_expr_eq.induct)
  case (1 ty e1 e2 c)
  from "1.prems"(2,1) show ?case
  proof (cases rule: eliminate_eq1_cases)
    case (left l m d r)
    with "1.prems"(1) have b: "etype e1 = ty \<and> binop ty" by simp
    from b left(2) have "cancels k ty (eleft e1) e2 l m" by (intro "1.IH"(1)) simp_all
    moreover from b left(2,3) have "cancels k ty (eright e1) m r f2"
      by (intro "1.IH"(2) [OF b left(2) [symmetric] refl]) simp_all
    ultimately show ?thesis
      using b left(4) by (simp add: cancels_left)
  next
    case (right l m d r)
    with "1.prems"(1) have a: "\<not> (etype e1 = ty \<and> binop ty)" and b: "etype e2 = ty \<and> binop ty"
      by simp_all
    from b right(3) have "cancels k ty e1 (eleft e2) m l" by (intro "1.IH"(3) [OF a b]) simp_all
    moreover from b right(3,4) have "cancels k ty m (eright e2) f1 r"
      by (intro "1.IH"(4) [OF a b right(3) [symmetric] refl]) simp_all
    ultimately show ?thesis
      unfolding right(5) using b by (intro cancels_sym [OF cancels_left]) (auto intro: cancels_sym)
  next
    case keep
    then show ?thesis by (simp add: cancels_refl [OF k])
  next
    case cancel
    with "1.IH"(5) have "expr_calc_value k e1 = expr_calc_value k e2" by simp
    with cancel show ?thesis by (simp add: cancels_neutral [OF k])
  qed
next
  case (2 e1 e2 c)
  obtain p1 p2 d where E: "expr_eliminate_eq1 (etype e1) e1 e2 c = (p1, p2, d)"
    by (cases "expr_eliminate_eq1 (etype e1) e1 e2 c") auto
  have "cancels k (etype e1) e1 e2 p1 p2"
    using "2.IH"(1) "2.prems" E by blast
  moreover have "etype p1 = etype p2"
    using eliminate_eq1_etype [OF E] "2.prems" by simp
  then have "h1 = expr_eliminate_yn p1" "h2 = expr_eliminate_yn p2"
    using "2.prems" E by (auto simp: expr_eliminate_eq.simps)
  ultimately show ?case
    by (simp add: cancels_def eliminate_yn_value [OF k])
next
  case (3 i1 i2)
  show ?case
  proof (cases "binop (etype i1)")
    case True
    obtain p1 p2 d where E: "expr_eliminate_eq i1 i2 0 = (p1, p2, d)"
      by (cases "expr_eliminate_eq i1 i2 0") auto
    have ty: "etype i1 = etype i2" and "same_symbol p1 p2"
      using "3.prems" True E unfolding expr_eq.simps [of i1 i2]
      by (auto simp: binop_def split: if_splits)
    then have "expr_calc_value k p1 = expr_calc_value k p2"
      by (cases p1; cases p2) auto
    moreover have "cancels k (etype i1) i1 i2 p1 p2"
      using True by (rule binop_cases) (use "3.IH"(1,2) [OF _ _ ty True E] ty in simp_all)
    ultimately show ?thesis by (auto simp: cancels_def)
  next
    case False
    then show ?thesis
      using "3.prems" "3.IH"(3) unfolding expr_eq.simps [of i1 i2]
      by (cases i1; cases i2) (simp_all add: binop_def)
  qed
qed

lemmas eliminate_eq1_cancels = cancel_and_eq_sound(1)
lemmas expr_eq_value = cancel_and_eq_sound(3)

section \<open>What equality and cancellation mean\<close>

lemma mk_kconf_consts: "kconf_consts (mk_kconf f)"
  by (simp add: kconf_consts_def)

lemma cancels_le_trans:
  assumes "cancels k ty e1 e2 f1 f2" and "binop ty" and "expr_calc_value k f1 \<le> expr_calc_value k f2"
  shows "expr_calc_value k e1 \<le> expr_calc_value k e2"
proof -
  from assms(1) obtain c where c: "expr_calc_value k e1 = tri_op ty (expr_calc_value k f1) c"
    "expr_calc_value k e2 = tri_op ty (expr_calc_value k f2) c" by (auto simp: cancels_def)
  show ?thesis
    unfolding c tri_op_def using assms(3)
    by (auto simp: EXPR_AND_min EXPR_OR_max min.coboundedI1 max.coboundedI1)
qed

lemma eliminate_eq_le:
  assumes k: "kconf_consts k" and eq: "expr_eliminate_eq e1 e2 c = (h1, h2, c')"
    and le: "expr_calc_value k h1 \<le> expr_calc_value k h2"
  shows "expr_calc_value k e1 \<le> expr_calc_value k e2"
proof -
  let ?s1 = "if binop (etype e1) then expr_eliminate_eq1 (etype e1) e1 e2 c else (e1, e2, c)"
  obtain f1 f2 d where s1: "?s1 = (f1, f2, d)" by (cases ?s1)
  let ?s2 = "if etype f1 \<noteq> etype f2 \<and> binop (etype f2)
      then expr_eliminate_eq1 (etype f2) f1 f2 d else (f1, f2, d)"
  obtain g1 g2 d' where s2: "?s2 = (g1, g2, d')" by (cases ?s2)
  have "h1 = expr_eliminate_yn g1" "h2 = expr_eliminate_yn g2"
    using eq s1 s2 by (simp_all add: expr_eliminate_eq.simps [of e1 e2 c])
  with le have "expr_calc_value k g1 \<le> expr_calc_value k g2" by (simp add: eliminate_yn_value [OF k])
  then have "expr_calc_value k f1 \<le> expr_calc_value k f2"
    using s2 cancels_le_trans [OF eliminate_eq1_cancels [OF k], of "etype f2" f1 f2]
    by (auto split: if_splits)
  then show ?thesis
    using s1 cancels_le_trans [OF eliminate_eq1_cancels [OF k], of "etype e1" e1 e2]
    by (auto split: if_splits)
qed

text \<open>
  C7. Two expressions that \<^verbatim>\<open>expr_eq\<close> takes for equal, up to the order, nesting and
  repetition of the operands of \<^verbatim>\<open>&&\<close> and \<^verbatim>\<open>||\<close>, have the same value in every
  state.
\<close>

theorem expr_eq_same_value:
  assumes "kconf_consts k" and "expr_eq e1 e2"
  shows "expr_calc_value k e1 = expr_calc_value k e2"
  using assms by (rule expr_eq_value)

definition swapped :: "nat \<Rightarrow> nat \<Rightarrow> expr" where
  "swapped a b = And (Symbol (Sym a)) (Or (Not (Symbol (Sym b))) (Symbol (Sym a)))"

definition swapped' :: "nat \<Rightarrow> nat \<Rightarrow> expr" where
  "swapped' a b = And (Or (Symbol (Sym a)) (Not (Symbol (Sym b)))) (Symbol (Sym a))"

theorem expr_eq_same_value_witness:
  "kconf_consts (mk_kconf (\<lambda>_. valued_symbol S_TRISTATE Mod)) \<and> expr_eq (swapped 0 1) (swapped' 0 1)
   \<and> expr_calc_value (mk_kconf (\<lambda>_. valued_symbol S_TRISTATE Mod)) (swapped 0 1)
     = expr_calc_value (mk_kconf (\<lambda>_. valued_symbol S_TRISTATE Mod)) (swapped' 0 1)"
proof -
  have "expr_eq (swapped 0 1) (swapped' 0 1)" by code_simp
  with expr_eq_same_value [OF mk_kconf_consts this] mk_kconf_consts show ?thesis by blast
qed

text \<open>
  C10. If cancelling the operands two expressions share (\<^verbatim>\<open>expr_eliminate_eq\<close>) leaves a pair
  in which the first is at most the second, for instance \<^verbatim>\<open>y\<close> as the second, then the
  first expression is at most the second one: it implies it.
\<close>

theorem eliminate_eq_implies:
  assumes "kconf_consts k" and "expr_eliminate_eq e1 e2 c = (h1, h2, c')"
    and "expr_calc_value k h1 \<le> expr_calc_value k h2"
  shows "expr_calc_value k e1 \<le> expr_calc_value k e2"
  using assms by (rule eliminate_eq_le)

theorem eliminate_eq_implies_witness:
  "expr_calc_value (mk_kconf (\<lambda>_. valued_symbol S_TRISTATE Mod)) (And (Symbol (Sym 0)) (Symbol (Sym 1)))
   \<le> expr_calc_value (mk_kconf (\<lambda>_. valued_symbol S_TRISTATE Mod)) (Symbol (Sym 1))"
proof -
  have "expr_eliminate_eq (And (Symbol (Sym 0)) (Symbol (Sym 1))) (Symbol (Sym 1)) 0
      = (Symbol (Sym 0), Symbol symbol_yes, 1)"
    by code_simp
  then show ?thesis
    by (rule eliminate_eq_implies [OF mk_kconf_consts]) simp
qed

end
