(* ===== verification/Kconfig_Simplify.thy ===== *)
theory Kconfig_Simplify
  imports Kconfig_Expr
begin

text \<open>
  The rewrites of \<^verbatim>\<open>support/kconfig/expr.c\<close> that put dependency expressions into normal
  form: \<^verbatim>\<open>expr_trans_bool\<close>, the joining rules for two operands, negation normal form
  (\<^verbatim>\<open>expr_transform\<close>), extraction of common operands and translation of comparisons,
  each with the statement of what it preserves.
\<close>

section \<open>Boolean context\<close>

fun expr_trans_bool :: "kconf \<Rightarrow> expr \<Rightarrow> expr" where
  "expr_trans_bool k (And l r) = And (expr_trans_bool k l) (expr_trans_bool k r)"
| "expr_trans_bool k (Or l r) = Or (expr_trans_bool k l) (expr_trans_bool k r)"
| "expr_trans_bool k (Not e) = Not (expr_trans_bool k e)"
| "expr_trans_bool k (Unequal a b) =
     (if stype (symtab k a) = S_TRISTATE \<and> b = symbol_no then Symbol a else Unequal a b)"
| "expr_trans_bool k e = e"

section \<open>Joining two operands\<close>

text \<open>
  The symbol two operands have in common, by the guards that \<^verbatim>\<open>expr_join_or\<close> and
  \<^verbatim>\<open>expr_join_and\<close> share: \<open>e1\<close> may negate a comparison, \<open>e2\<close> only a symbol.
\<close>

fun join_sym1 :: "expr \<Rightarrow> sym option" where
  "join_sym1 (Not (Equal a b)) = Some a"
| "join_sym1 (Not (Unequal a b)) = Some a"
| "join_sym1 (Not (Symbol a)) = Some a"
| "join_sym1 (Equal a b) = Some a"
| "join_sym1 (Unequal a b) = Some a"
| "join_sym1 (Symbol a) = Some a"
| "join_sym1 _ = None"

fun join_sym2 :: "expr \<Rightarrow> sym option" where
  "join_sym2 (Not (Symbol a)) = Some a"
| "join_sym2 (Equal a b) = Some a"
| "join_sym2 (Unequal a b) = Some a"
| "join_sym2 (Symbol a) = Some a"
| "join_sym2 _ = None"

definition join_common :: "kconf \<Rightarrow> expr \<Rightarrow> expr \<Rightarrow> sym option" where
  "join_common k e1 e2 =
     (case (join_sym1 e1, join_sym2 e2) of
        (Some s1, Some s2) \<Rightarrow>
          (if s1 \<noteq> s2 then None
           else if stype (symtab k s1) \<noteq> S_BOOLEAN \<and> stype (symtab k s1) \<noteq> S_TRISTATE then None
           else Some s1)
      | _ \<Rightarrow> None)"

text \<open>The two operands in either order.\<close>

definition both_ways :: "expr \<Rightarrow> expr \<Rightarrow> expr \<Rightarrow> expr \<Rightarrow> bool" where
  "both_ways e1 e2 a b \<longleftrightarrow> e1 = a \<and> e2 = b \<or> e1 = b \<and> e2 = a"

definition expr_join_or :: "kconf \<Rightarrow> expr \<Rightarrow> expr \<Rightarrow> expr option" where
  "expr_join_or k e1 e2 =
     (if expr_eq e1 e2 then Some e1
      else case join_common k e1 e2 of None \<Rightarrow> None | Some s \<Rightarrow>
        (if stype (symtab k s) = S_TRISTATE
            \<and> both_ways e1 e2 (Equal s symbol_yes) (Equal s symbol_mod)
           then Some (Unequal s symbol_no)
         else if stype (symtab k s) = S_TRISTATE
            \<and> both_ways e1 e2 (Equal s symbol_yes) (Equal s symbol_no)
           then Some (Unequal s symbol_mod)
         else if stype (symtab k s) = S_TRISTATE
            \<and> both_ways e1 e2 (Equal s symbol_mod) (Equal s symbol_no)
           then Some (Unequal s symbol_yes)
         else if stype (symtab k s) = S_BOOLEAN
            \<and> both_ways e1 e2 (Not (Symbol s)) (Symbol s)
           then Some (Symbol symbol_yes)
         else None))"

definition is_const :: "kconf \<Rightarrow> sym \<Rightarrow> bool" where
  "is_const k s \<longleftrightarrow> SYMBOL_CONST \<in> flags (symtab k s)"

definition expr_join_and :: "kconf \<Rightarrow> expr \<Rightarrow> expr \<Rightarrow> expr option" where
  "expr_join_and k e1 e2 =
     (if expr_eq e1 e2 then Some e1
      else case join_common k e1 e2 of None \<Rightarrow> None | Some s \<Rightarrow>
        (if both_ways e1 e2 (Symbol s) (Equal s symbol_yes) then Some (Equal s symbol_yes)
         else if both_ways e1 e2 (Symbol s) (Unequal s symbol_no) then Some (Symbol s)
         else if both_ways e1 e2 (Symbol s) (Unequal s symbol_mod) then Some (Equal s symbol_yes)
         else if stype (symtab k s) = S_TRISTATE then
           (case (e1, e2) of
              (Equal _ b, Unequal _ c) \<Rightarrow>
                (if is_const k c \<and> is_const k b
                 then Some (if b \<noteq> c then Equal s b else Symbol symbol_no) else None)
            | (Unequal _ c, Equal _ b) \<Rightarrow>
                (if is_const k c \<and> is_const k b
                 then Some (if b \<noteq> c then Equal s b else Symbol symbol_no) else None)
            | (Unequal _ b, Unequal _ c) \<Rightarrow>
                (if {b, c} = {symbol_yes, symbol_no} then Some (Equal s symbol_mod)
                 else if {b, c} = {symbol_yes, symbol_mod} then Some (Equal s symbol_no)
                 else if {b, c} = {symbol_mod, symbol_no} then Some (Equal s symbol_yes)
                 else None)
            | _ \<Rightarrow> None)
         else None))"

section \<open>Negation normal form\<close>

text \<open>
  \<open>expr_transform\<close> of a negation first transforms the operand and then looks at the shape of
  the result; pushing the negation inward calls it again. The weight below bounds the result by
  the argument and makes every call smaller.
\<close>

fun eweight :: "expr \<Rightarrow> nat" where
  "eweight (And l r) = Suc (eweight l + eweight r)"
| "eweight (Or l r) = Suc (eweight l + eweight r)"
| "eweight (Not e) = 2 * eweight e"
| "eweight (Equal _ _) = 2"
| "eweight (Unequal _ _) = 2"
| "eweight _ = 1"

lemma eweight_pos [simp]: "0 < eweight e"
  by (induction e rule: eweight.induct) auto

function (sequential) expr_transform :: "kconf \<Rightarrow> expr \<Rightarrow> expr" where
  "expr_transform k (Equal a b) =
     (if stype (symtab k a) \<noteq> S_BOOLEAN then Equal a b
      else if b = symbol_no then Not (Symbol a)
      else if b = symbol_mod then Symbol symbol_no
      else if b = symbol_yes then Symbol a
      else Equal a b)"
| "expr_transform k (Unequal a b) =
     (if stype (symtab k a) \<noteq> S_BOOLEAN then Unequal a b
      else if b = symbol_no then Symbol a
      else if b = symbol_mod then Symbol symbol_yes
      else if b = symbol_yes then Not (Symbol a)
      else Unequal a b)"
| "expr_transform k (Or l r) = Or (expr_transform k l) (expr_transform k r)"
| "expr_transform k (And l r) = And (expr_transform k l) (expr_transform k r)"
| "expr_transform k (Not e) =
     (case expr_transform k e of
        Not x \<Rightarrow> expr_transform k x
      | Equal a b \<Rightarrow> Unequal a b
      | Unequal a b \<Rightarrow> Equal a b
      | Or a b \<Rightarrow> expr_transform k (And (Not a) (Not b))
      | And a b \<Rightarrow> expr_transform k (Or (Not a) (Not b))
      | Symbol s \<Rightarrow>
          (if s = symbol_yes then Symbol symbol_no
           else if s = symbol_mod then Symbol symbol_mod
           else if s = symbol_no then Symbol symbol_yes
           else Not (Symbol s))
      | x \<Rightarrow> Not x)"
| "expr_transform k e = e"
  by pat_completeness auto

lemma transform_weight_dom:
  "expr_transform_dom (k, e) \<Longrightarrow> eweight (expr_transform k e) \<le> eweight e"
proof (induction k e rule: expr_transform.pinduct)
  case (5 k e)
  then show ?case
    by (cases "expr_transform k e") (auto simp: expr_transform.psimps)
qed (auto simp: expr_transform.psimps)

lemma eweight_double: "2 * eweight x \<le> eweight e \<Longrightarrow> eweight x < 2 * eweight e"
  using eweight_pos [of e] by linarith

termination expr_transform
  by (relation "measure (\<lambda>(k, e). eweight e)")
     (auto dest!: transform_weight_dom intro: eweight_double)

section \<open>Configurations the rewrites are meant for\<close>

text \<open>
  What symbol calculation establishes: a boolean symbol is never \<open>Mod\<close>, no symbol is
  \<open>Mod\<close> while modules are off, and two constant symbols with the same string are the same
  symbol (\<^verbatim>\<open>sym_lookup\<close> returns the existing one).
\<close>

definition kconf_ok :: "kconf \<Rightarrow> bool" where
  "kconf_ok k \<longleftrightarrow> kconf_consts k
     \<and> (\<forall>s. stype (symtab k s) = S_BOOLEAN \<longrightarrow> tri (curr (symtab k s)) \<noteq> Mod)
     \<and> (\<forall>s. stype (symtab k s) = S_TRISTATE \<longrightarrow> tri (curr (symtab k s)) = Mod \<longrightarrow>
            tri (curr (symtab k (modules_sym k))) \<noteq> No)
     \<and> (\<forall>a b. is_const k a \<longrightarrow> is_const k b \<longrightarrow>
            sym_get_string_value k a = sym_get_string_value k b \<longrightarrow> a = b)"

lemma kconf_ok_consts: "kconf_ok k \<Longrightarrow> kconf_consts k"
  by (simp add: kconf_ok_def)

lemma mk_kconf_ok:
  "(\<And>n. SYMBOL_CONST \<notin> flags (f n)) \<Longrightarrow> (\<And>n. stype (f n) = S_BOOLEAN \<Longrightarrow> tri (curr (f n)) \<noteq> Mod) \<Longrightarrow>
     kconf_ok (mk_kconf f)"
  by (auto simp: kconf_ok_def kconf_consts_def is_const_def sym_get_string_value_def mk_kconf_def
      split: sym.splits)

text \<open>The string value of a boolean or tristate symbol spells its tristate value.\<close>

definition tri_str :: "tristate \<Rightarrow> string" where
  "tri_str t = (case t of No \<Rightarrow> ''n'' | Mod \<Rightarrow> ''m'' | Yes \<Rightarrow> ''y'')"

lemma string_value_tri:
  assumes "kconf_ok k" and "stype (symtab k s) \<in> {S_BOOLEAN, S_TRISTATE}"
  shows "sym_get_string_value k s = V_str (tri_str (tri (curr (symtab k s))))"
  using assms
  by (cases "tri (curr (symtab k s))")
     (auto simp: kconf_ok_def sym_get_string_value_def sym_get_tristate_value_def tri_str_def)

lemma tri_str_eq [simp]:
  "tri_str t = ''n'' \<longleftrightarrow> t = No" "tri_str t = ''m'' \<longleftrightarrow> t = Mod" "tri_str t = ''y'' \<longleftrightarrow> t = Yes"
  by (cases t; simp add: tri_str_def)+

lemma compare_const_value:
  assumes "kconf_ok k" and "stype (symtab k s) \<in> {S_BOOLEAN, S_TRISTATE}"
  shows "expr_calc_value k (Equal s symbol_yes) = (if tri (curr (symtab k s)) = Yes then Yes else No)"
    and "expr_calc_value k (Equal s symbol_mod) = (if tri (curr (symtab k s)) = Mod then Yes else No)"
    and "expr_calc_value k (Equal s symbol_no) = (if tri (curr (symtab k s)) = No then Yes else No)"
    and "expr_calc_value k (Unequal s symbol_yes) = (if tri (curr (symtab k s)) = Yes then No else Yes)"
    and "expr_calc_value k (Unequal s symbol_mod) = (if tri (curr (symtab k s)) = Mod then No else Yes)"
    and "expr_calc_value k (Unequal s symbol_no) = (if tri (curr (symtab k s)) = No then No else Yes)"
  using assms by (auto simp: string_value_tri kconf_constsD [OF kconf_ok_consts])

lemma join_commonD:
  "join_common k e1 e2 = Some s \<Longrightarrow>
     stype (symtab k s) \<in> {S_BOOLEAN, S_TRISTATE} \<and> join_sym1 e1 = Some s \<and> join_sym2 e2 = Some s"
  by (auto simp: join_common_def split: option.splits if_splits)

lemma both_ways_or:
  "both_ways e1 e2 a b \<Longrightarrow> EXPR_OR (expr_calc_value k a) (expr_calc_value k b) = v \<Longrightarrow>
     EXPR_OR (expr_calc_value k e1) (expr_calc_value k e2) = v"
  by (auto simp: both_ways_def EXPR_OR_max max.commute)

lemma both_ways_and:
  "both_ways e1 e2 a b \<Longrightarrow> EXPR_AND (expr_calc_value k a) (expr_calc_value k b) = v \<Longrightarrow>
     EXPR_AND (expr_calc_value k e1) (expr_calc_value k e2) = v"
  by (auto simp: both_ways_def EXPR_AND_min min.commute)

lemma join_or_value:
  assumes k: "kconf_ok k" and j: "expr_join_or k e1 e2 = Some t"
  shows "expr_calc_value k t = EXPR_OR (expr_calc_value k e1) (expr_calc_value k e2)"
proof (cases "expr_eq e1 e2")
  case True
  with j expr_eq_value [OF kconf_ok_consts [OF k] True] show ?thesis
    by (simp add: expr_join_or_def EXPR_OR_max)
next
  case False
  with j obtain s where s: "join_common k e1 e2 = Some s"
    by (auto simp: expr_join_or_def split: option.splits)
  note ty = join_commonD [OF s, THEN conjunct1]
  note v = compare_const_value [OF k ty]
  have nb: "stype (symtab k s) = S_BOOLEAN \<Longrightarrow> tri (curr (symtab k s)) \<noteq> Mod"
    using k by (simp add: kconf_ok_def)
  show ?thesis
    using j False s nb v kconf_constsD [OF kconf_ok_consts [OF k]]
    by (cases "tri (curr (symtab k s))")
       (auto simp: expr_join_or_def simp del: expr_calc_value.simps(5,6) split: if_splits
         intro!: both_ways_or [symmetric])
qed

lemma const_compare_value:
  assumes k: "kconf_ok k" and "is_const k b" "is_const k c"
  shows "EXPR_AND (expr_calc_value k (Equal s b)) (expr_calc_value k (Unequal s c))
    = (if b \<noteq> c then expr_calc_value k (Equal s b) else No)"
  using assms by (auto simp: kconf_ok_def)

lemma join_and_value:
  assumes k: "kconf_ok k" and j: "expr_join_and k e1 e2 = Some t"
  shows "expr_calc_value k t = EXPR_AND (expr_calc_value k e1) (expr_calc_value k e2)"
proof (cases "expr_eq e1 e2")
  case True
  with j expr_eq_value [OF kconf_ok_consts [OF k] True] show ?thesis
    by (simp add: expr_join_and_def EXPR_AND_min)
next
  case False
  with j obtain s where s: "join_common k e1 e2 = Some s"
    by (auto simp: expr_join_and_def split: option.splits)
  note ty = join_commonD [OF s, THEN conjunct1]
  note sy = join_commonD [OF s, THEN conjunct2]
  note v = compare_const_value [OF k ty]
  note c = kconf_constsD [OF kconf_ok_consts [OF k]]
  consider (eqne) b d where "e1 = Equal s b" "e2 = Unequal s d"
    | (neeq) b d where "e1 = Unequal s d" "e2 = Equal s b"
    | (nene) b d where "e1 = Unequal s b" "e2 = Unequal s d"
    | (other) "\<not> (etype e1 \<in> {E_EQUAL, E_UNEQUAL} \<and> etype e2 \<in> {E_EQUAL, E_UNEQUAL})
        \<or> etype e1 = E_EQUAL \<and> etype e2 = E_EQUAL"
    using sy by (cases e1; cases e2) auto
  then show ?thesis
  proof cases
    case eqne
    with j False s const_compare_value [OF k, of b d s] c show ?thesis
      by (auto simp: expr_join_and_def both_ways_def split: if_splits)
  next
    case neeq
    with j False s const_compare_value [OF k, of b d s] c show ?thesis
      by (auto simp: expr_join_and_def both_ways_def EXPR_AND_min min.commute split: if_splits)
  next
    case nene
    with j False s v show ?thesis
      by (cases "tri (curr (symtab k s))")
         (auto simp: expr_join_and_def both_ways_def doubleton_eq_iff
           simp del: expr_calc_value.simps(5,6) split: if_splits)
  next
    case other
    with j False s v show ?thesis
      by (cases "tri (curr (symtab k s))")
         (auto simp: expr_join_and_def simp del: expr_calc_value.simps(5,6)
           split: if_splits expr.splits intro!: both_ways_and [symmetric])
  qed
qed

lemma transform_value:
  "kconf_ok k \<Longrightarrow> expr_calc_value k (expr_transform k e) = expr_calc_value k e"
proof (induction k e rule: expr_transform.induct)
  case (1 k a b)
  then show ?case
    using compare_const_value [of k a] kconf_constsD [OF kconf_ok_consts, of k]
    by (cases "tri (curr (symtab k a))") (auto simp: kconf_ok_def simp del: expr_calc_value.simps(5,6))
next
  case (2 k a b)
  then show ?case
    using compare_const_value [of k a] kconf_constsD [OF kconf_ok_consts, of k]
    by (cases "tri (curr (symtab k a))") (auto simp: kconf_ok_def simp del: expr_calc_value.simps(5,6))
next
  case (5 k e)
  have e: "expr_calc_value k e = expr_calc_value k (expr_transform k e)"
    using 5 by simp
  show ?case
    using 5 kconf_constsD [OF kconf_ok_consts, of k]
    by (cases "expr_transform k e") (auto simp: e)
qed simp_all

text \<open>
  Dependency expressions use the six logical node types only; in negation normal form a negation
  stands on a symbol that is not one of the constants.
\<close>

fun dep_expr :: "expr \<Rightarrow> bool" where
  "dep_expr (And l r) \<longleftrightarrow> dep_expr l \<and> dep_expr r"
| "dep_expr (Or l r) \<longleftrightarrow> dep_expr l \<and> dep_expr r"
| "dep_expr (Not e) \<longleftrightarrow> dep_expr e"
| "dep_expr e \<longleftrightarrow> etype e \<in> {E_EQUAL, E_UNEQUAL, E_SYMBOL}"

fun nnf :: "expr \<Rightarrow> bool" where
  "nnf (And l r) \<longleftrightarrow> nnf l \<and> nnf r"
| "nnf (Or l r) \<longleftrightarrow> nnf l \<and> nnf r"
| "nnf (Not (Symbol s)) \<longleftrightarrow> s \<notin> {symbol_yes, symbol_mod, symbol_no}"
| "nnf (Not e) \<longleftrightarrow> False"
| "nnf e \<longleftrightarrow> etype e \<in> {E_EQUAL, E_UNEQUAL, E_SYMBOL}"

text \<open>Comparisons of constants with a constant do not occur: a boolean symbol is not a constant.\<close>

definition consts_untyped :: "kconf \<Rightarrow> bool" where
  "consts_untyped k \<longleftrightarrow>
     (\<forall>s \<in> {symbol_yes, symbol_mod, symbol_no}. stype (symtab k s) = S_UNKNOWN)"

lemma kconf_consts_untyped: "kconf_consts k \<Longrightarrow> consts_untyped k"
  by (auto simp: kconf_consts_def consts_untyped_def)

lemma nnf_dep_expr: "nnf e \<Longrightarrow> dep_expr e"
  by (induction e rule: nnf.induct) auto

lemma transform_nnf_aux:
  "consts_untyped k \<Longrightarrow> dep_expr e \<Longrightarrow> nnf (expr_transform k e)"
proof (induction k e rule: expr_transform.induct)
  case (5 k e)
  then have n: "nnf (expr_transform k e)" by simp
  show ?case
  proof (cases "expr_transform k e")
    case (Not x)
    with n have "dep_expr x" by (cases x) auto
    with 5 Not show ?thesis by simp
  next
    case (Or a b)
    with n have "dep_expr a \<and> dep_expr b" by (simp add: nnf_dep_expr)
    with 5 Or show ?thesis by simp
  next
    case (And a b)
    with n have "dep_expr a \<and> dep_expr b" by (simp add: nnf_dep_expr)
    with 5 And show ?thesis by simp
  qed (use n in auto)
qed (auto simp: consts_untyped_def)

section \<open>Extracting the operands two expressions share\<close>

text \<open>
  \<open>expr_extract_eq\<close> moves every operand found in both trees into the accumulator
  \<^verbatim>\<open>*ep\<close> and leaves the neutral constant in its two places.
\<close>

function (sequential) expr_extract_eq ::
    "expr_type \<Rightarrow> expr option \<Rightarrow> expr \<Rightarrow> expr \<Rightarrow> expr option \<times> expr \<times> expr"
where
  "expr_extract_eq ty ep e1 e2 =
     (if etype e1 = ty \<and> binop ty then
        (case expr_extract_eq ty ep (eleft e1) e2 of (ep', l, e2') \<Rightarrow>
         (case expr_extract_eq ty ep' (eright e1) e2' of (ep'', r, e2'') \<Rightarrow>
            (ep'', expr_alloc_two ty l r, e2'')))
      else if etype e2 = ty \<and> binop ty then
        (case expr_extract_eq ty ep e1 (eleft e2) of (ep', e1', l) \<Rightarrow>
         (case expr_extract_eq ty ep' e1' (eright e2) of (ep'', e1'', r) \<Rightarrow>
            (ep'', e1'', expr_alloc_two ty l r)))
      else if expr_eq e1 e2 then
        (let acc = (case ep of None \<Rightarrow> Some e1 | Some p \<Rightarrow> Some (expr_alloc_two ty p e1)) in
         if ty = E_AND then (acc, Symbol symbol_yes, Symbol symbol_yes)
         else if ty = E_OR then (acc, Symbol symbol_no, Symbol symbol_no)
         else (acc, e1, e2))
      else (ep, e1, e2))"
  by pat_completeness auto

lemma extract_eq_size_dom:
  assumes "expr_extract_eq_dom (ty, ep, e1, e2)" and "expr_extract_eq ty ep e1 e2 = (ep', f1, f2)"
  shows "esize f1 \<le> esize e1 \<and> esize f2 \<le> esize e2"
  using assms
proof (induction ty ep e1 e2 arbitrary: ep' f1 f2 rule: expr_extract_eq.pinduct)
  case (1 ty ep e1 e2)
  note def = expr_extract_eq.psimps [OF "1.hyps"]
  show ?case
  proof (cases "etype e1 = ty \<and> binop ty")
    case True
    obtain q l m where L: "expr_extract_eq ty ep (eleft e1) e2 = (q, l, m)"
      by (cases "expr_extract_eq ty ep (eleft e1) e2") auto
    obtain q' r n where R: "expr_extract_eq ty q (eright e1) m = (q', r, n)"
      by (cases "expr_extract_eq ty q (eright e1) m") auto
    have "f1 = expr_alloc_two ty l r" "f2 = n"
      using "1.prems" True L R by (auto simp: def)
    then show ?thesis
      using "1.IH"(1) [OF True L] "1.IH"(2) [OF True L [symmetric] refl R] True
      by (auto simp: esize_binop)
  next
    case False
    show ?thesis
    proof (cases "etype e2 = ty \<and> binop ty")
      case True
      obtain q m l where L: "expr_extract_eq ty ep e1 (eleft e2) = (q, m, l)"
        by (cases "expr_extract_eq ty ep e1 (eleft e2)") auto
      obtain q' n r where R: "expr_extract_eq ty q m (eright e2) = (q', n, r)"
        by (cases "expr_extract_eq ty q m (eright e2)") auto
      have "f1 = n" "f2 = expr_alloc_two ty l r"
        using "1.prems" False True L R by (auto simp: def)
      then show ?thesis
        using "1.IH"(3) [OF False True L] "1.IH"(4) [OF False True L [symmetric] refl R] True
        by (auto simp: esize_binop)
    next
      case n2: False
      from "1.prems" show ?thesis
        unfolding def using False n2 by (auto simp: Let_def Suc_le_eq split: if_splits)
    qed
  qed
qed

termination expr_extract_eq
proof (relation "measure (\<lambda>(ty, ep, e1, e2). esize e1 + esize e2)", goal_cases)
  case (3 ty ep e1 e2 x y xa ya)
  then have "esize ya \<le> esize e2"
    using extract_eq_size_dom [of ty ep "eleft e1" e2 x xa ya] by simp
  with 3 show ?case by (auto simp: esize_binop)
next
  case (5 ty ep e1 e2 x y xa ya)
  then have "esize xa \<le> esize e1"
    using extract_eq_size_dom [of ty ep e1 "eleft e2" x xa ya] by simp
  with 5 show ?case by (auto simp: esize_binop)
qed (auto simp: esize_binop)

declare expr_extract_eq.simps [simp del]

lemma extract_eq_cases:
  assumes "expr_extract_eq ty ep e1 e2 = (ep', f1, f2)" and "binop ty"
  obtains
    (left) q l m r where "etype e1 = ty" "expr_extract_eq ty ep (eleft e1) e2 = (q, l, m)"
      "expr_extract_eq ty q (eright e1) m = (ep', r, f2)" "f1 = expr_alloc_two ty l r"
  | (right) q l m r where "etype e1 \<noteq> ty" "etype e2 = ty"
      "expr_extract_eq ty ep e1 (eleft e2) = (q, m, l)"
      "expr_extract_eq ty q m (eright e2) = (ep', f1, r)" "f2 = expr_alloc_two ty l r"
  | (keep) "etype e1 \<noteq> ty" "etype e2 \<noteq> ty" "f1 = e1" "f2 = e2" "ep' = ep"
  | (share) "etype e1 \<noteq> ty" "etype e2 \<noteq> ty" "expr_eq e1 e2"
      "f1 = Symbol (neutral ty)" "f2 = Symbol (neutral ty)"
      "ep' = (case ep of None \<Rightarrow> Some e1 | Some p \<Rightarrow> Some (expr_alloc_two ty p e1))"
proof (cases "etype e1 = ty")
  case True
  obtain q l m where L: "expr_extract_eq ty ep (eleft e1) e2 = (q, l, m)"
    by (cases "expr_extract_eq ty ep (eleft e1) e2") auto
  obtain q' r n where R: "expr_extract_eq ty q (eright e1) m = (q', r, n)"
    by (cases "expr_extract_eq ty q (eright e1) m") auto
  from assms True L R show ?thesis
    by (auto simp: expr_extract_eq.simps [of ty ep e1] intro: left)
next
  case n1: False
  show ?thesis
  proof (cases "etype e2 = ty")
    case True
    obtain q m l where L: "expr_extract_eq ty ep e1 (eleft e2) = (q, m, l)"
      by (cases "expr_extract_eq ty ep e1 (eleft e2)") auto
    obtain q' n r where R: "expr_extract_eq ty q m (eright e2) = (q', n, r)"
      by (cases "expr_extract_eq ty q m (eright e2)") auto
    from assms n1 True L R show ?thesis
      by (intro right) (auto simp: expr_extract_eq.simps [of ty ep e1 e2])
  next
    case False
    with n1 assms keep share show ?thesis
      by (auto simp: expr_extract_eq.simps [of ty ep e1 e2] binop_def neutral_def Let_def
          split: if_splits)
  qed
qed

text \<open>
  Extraction is lossless: accumulator and remainder together always have the value of
  accumulator and original.
\<close>

definition acc_value :: "kconf \<Rightarrow> expr_type \<Rightarrow> expr option \<Rightarrow> tristate" where
  "acc_value k ty ep =
     (case ep of None \<Rightarrow> expr_calc_value k (Symbol (neutral ty)) | Some p \<Rightarrow> expr_calc_value k p)"

lemma tri_op_exchange:
  assumes "tri_op ty q l = tri_op ty p a" and "tri_op ty p' r = tri_op ty q b"
  shows "tri_op ty p' (tri_op ty l r) = tri_op ty p (tri_op ty a b)"
proof -
  have "tri_op ty p' (tri_op ty l r) = tri_op ty l (tri_op ty q b)"
    by (simp only: tri_op_left_commute [of ty p' l r] assms(2))
  also have "\<dots> = tri_op ty b (tri_op ty q l)" by (simp only: tri_op_ac)
  also have "\<dots> = tri_op ty b (tri_op ty p a)" by (simp only: assms(1))
  also have "\<dots> = tri_op ty p (tri_op ty a b)" by (simp only: tri_op_ac)
  finally show ?thesis .
qed

lemma extract_eq_value:
  assumes k: "kconf_consts k"
    and "expr_extract_eq ty ep e1 e2 = (ep', f1, f2)" and "binop ty"
  shows "tri_op ty (acc_value k ty ep') (expr_calc_value k f1)
           = tri_op ty (acc_value k ty ep) (expr_calc_value k e1)
       \<and> tri_op ty (acc_value k ty ep') (expr_calc_value k f2)
           = tri_op ty (acc_value k ty ep) (expr_calc_value k e2)"
  using assms(2,3)
proof (induction ty ep e1 e2 arbitrary: ep' f1 f2 rule: expr_extract_eq.induct)
  case (1 ty ep e1 e2)
  from "1.prems" show ?case
  proof (cases rule: extract_eq_cases)
    case (left q l m r)
    with "1.prems"(2) have b: "etype e1 = ty \<and> binop ty" by simp
    note L = "1.IH"(1) [OF b left(2) conjunct2 [OF b]]
    note R = "1.IH"(2) [OF b left(2) [symmetric] refl left(3) conjunct2 [OF b]]
    have "tri_op ty (acc_value k ty ep') (expr_calc_value k f2)
        = tri_op ty (acc_value k ty ep) (expr_calc_value k e2)"
      using L R by simp
    moreover have "tri_op ty (acc_value k ty ep') (tri_op ty (expr_calc_value k l) (expr_calc_value k r))
        = tri_op ty (acc_value k ty ep)
            (tri_op ty (expr_calc_value k (eleft e1)) (expr_calc_value k (eright e1)))"
      using L R by (blast intro: tri_op_exchange)
    ultimately show ?thesis
      using b left(4) calc_binop [of e1 k] by simp
  next
    case (right q l m r)
    with "1.prems"(2) have a: "\<not> (etype e1 = ty \<and> binop ty)" and b: "etype e2 = ty \<and> binop ty"
      by simp_all
    note L = "1.IH"(3) [OF a b right(3) conjunct2 [OF b]]
    note R = "1.IH"(4) [OF a b right(3) [symmetric] refl right(4) conjunct2 [OF b]]
    have "tri_op ty (acc_value k ty ep') (expr_calc_value k f1)
        = tri_op ty (acc_value k ty ep) (expr_calc_value k e1)"
      using L R by simp
    moreover have "tri_op ty (acc_value k ty ep') (tri_op ty (expr_calc_value k l) (expr_calc_value k r))
        = tri_op ty (acc_value k ty ep)
            (tri_op ty (expr_calc_value k (eleft e2)) (expr_calc_value k (eright e2)))"
      using L R by (blast intro: tri_op_exchange)
    ultimately show ?thesis
      using b right(5) calc_binop [of e2 k] by simp
  next
    case share
    then have "expr_calc_value k e2 = expr_calc_value k e1"
      by (simp add: expr_eq_value [OF k])
    moreover have "tri_op ty a (expr_calc_value k (Symbol (neutral ty))) = a" for a
      by (metis calc_neutral [OF k] tri_op_commute)
    moreover have "acc_value k ty ep' = tri_op ty (acc_value k ty ep) (expr_calc_value k e1)"
      using share(6) "1.prems"(2) by (cases ep) 
        (simp_all add: acc_value_def calc_neutral [OF k] del: expr_calc_value.simps)
    ultimately show ?thesis using share(4,5) by simp
  qed simp_all
qed

lemma extract_eq_cancels:
  assumes "kconf_consts k" "binop ty" "expr_extract_eq ty None e1 e2 = (ep', f1, f2)"
  shows "cancels k ty e1 e2 f1 f2"
proof -
  have "tri_op ty (acc_value k ty None) a = a" for a
    by (simp add: acc_value_def calc_neutral [OF assms(1)] del: expr_calc_value.simps)
  with extract_eq_value [OF assms(1,3,2)] show ?thesis
    unfolding cancels_def by (metis tri_op_commute)
qed

definition expr_extract_eq_and :: "expr \<Rightarrow> expr \<Rightarrow> expr option \<times> expr \<times> expr" where
  "expr_extract_eq_and e1 e2 =
     (case expr_extract_eq E_AND None e1 e2 of (tmp, f1, f2) \<Rightarrow>
        if tmp \<noteq> None then (tmp, expr_eliminate_yn f1, expr_eliminate_yn f2) else (tmp, f1, f2))"

definition expr_extract_eq_or :: "expr \<Rightarrow> expr \<Rightarrow> expr option \<times> expr \<times> expr" where
  "expr_extract_eq_or e1 e2 =
     (case expr_extract_eq E_OR None e1 e2 of (tmp, f1, f2) \<Rightarrow>
        if tmp \<noteq> None then (tmp, expr_eliminate_yn f1, expr_eliminate_yn f2) else (tmp, f1, f2))"

lemma extract_eq_and_cancels:
  "kconf_consts k \<Longrightarrow> expr_extract_eq_and e1 e2 = (tmp, f1, f2) \<Longrightarrow> cancels k E_AND e1 e2 f1 f2"
  using extract_eq_cancels [of k E_AND e1 e2]
  by (force simp: expr_extract_eq_and_def binop_def cancels_def eliminate_yn_value
      split: prod.splits if_splits)

lemma extract_eq_or_cancels:
  "kconf_consts k \<Longrightarrow> expr_extract_eq_or e1 e2 = (tmp, f1, f2) \<Longrightarrow> cancels k E_OR e1 e2 f1 f2"
  using extract_eq_cancels [of k E_OR e1 e2]
  by (force simp: expr_extract_eq_or_def binop_def cancels_def eliminate_yn_value
      split: prod.splits if_splits)

section \<open>Properties\<close>

text \<open>
  C5. \<^verbatim>\<open>expr_transform\<close> preserves the value of an expression in every consistent state, and
  brings a dependency expression into negation normal form: a negation remains only in front of
  a symbol that is no constant.
\<close>

theorem transform_preserves:
  assumes "kconf_ok k"
  shows "expr_calc_value k (expr_transform k e) = expr_calc_value k e
     \<and> (dep_expr e \<longrightarrow> nnf (expr_transform k e))"
  using assms transform_nnf_aux [OF kconf_consts_untyped] by (auto simp: transform_value kconf_ok_def)

definition transform_example :: expr where
  "transform_example = Not (And (Equal (Sym 0) symbol_yes) (Or (Symbol (Sym 0)) (Not (Symbol (Sym 1)))))"

theorem transform_preserves_witness:
  "nnf (expr_transform (mk_kconf (\<lambda>_. valued_symbol S_BOOLEAN Yes)) transform_example)
   \<and> expr_calc_value (mk_kconf (\<lambda>_. valued_symbol S_BOOLEAN Yes))
       (expr_transform (mk_kconf (\<lambda>_. valued_symbol S_BOOLEAN Yes)) transform_example) = No"
proof -
  have "kconf_ok (mk_kconf (\<lambda>_. valued_symbol S_BOOLEAN Yes))" by (rule mk_kconf_ok) simp_all
  moreover have "dep_expr transform_example" by (simp add: transform_example_def)
  moreover have "expr_calc_value (mk_kconf (\<lambda>_. valued_symbol S_BOOLEAN Yes)) transform_example = No"
    by code_simp
  ultimately show ?thesis using transform_preserves by metis
qed

text \<open>
  C11. Extracting the operands common to two expressions (\<^verbatim>\<open>expr_extract_eq\<close>) loses nothing:
  joined with the extracted part again, each remainder has the value of its expression.
\<close>

theorem extract_eq_lossless:
  assumes "kconf_consts k" and "binop ty" and "expr_extract_eq ty None e1 e2 = (common, f1, f2)"
  shows "tri_op ty (acc_value k ty common) (expr_calc_value k f1) = expr_calc_value k e1
     \<and> tri_op ty (acc_value k ty common) (expr_calc_value k f2) = expr_calc_value k e2"
  using extract_eq_value [OF assms(1,3,2)] assms(2) kconf_constsD [OF assms(1)]
  by (auto simp: acc_value_def tri_op_def neutral_def binop_def)

theorem extract_eq_lossless_witness:
  "expr_extract_eq E_AND None (And (Symbol (Sym 0)) (Symbol (Sym 1))) (And (Symbol (Sym 2)) (Symbol (Sym 0)))
     = (Some (Symbol (Sym 0)), And (Symbol symbol_yes) (Symbol (Sym 1)), And (Symbol (Sym 2)) (Symbol symbol_yes))
   \<and> tri_op E_AND (acc_value (mk_kconf (\<lambda>_. valued_symbol S_TRISTATE Mod)) E_AND (Some (Symbol (Sym 0))))
       (expr_calc_value (mk_kconf (\<lambda>_. valued_symbol S_TRISTATE Mod)) (And (Symbol symbol_yes) (Symbol (Sym 1))))
     = Mod"
proof -
  have *: "expr_extract_eq E_AND None (And (Symbol (Sym 0)) (Symbol (Sym 1))) (And (Symbol (Sym 2)) (Symbol (Sym 0)))
     = (Some (Symbol (Sym 0)), And (Symbol symbol_yes) (Symbol (Sym 1)), And (Symbol (Sym 2)) (Symbol symbol_yes))"
    by code_simp
  have "expr_calc_value (mk_kconf (\<lambda>_. valued_symbol S_TRISTATE Mod)) (And (Symbol (Sym 0)) (Symbol (Sym 1))) = Mod"
    by code_simp
  with * extract_eq_lossless [OF mk_kconf_consts [of "\<lambda>_. valued_symbol S_TRISTATE Mod"] _ *]
  show ?thesis by (simp add: binop_def)
qed

end
