(* ===== verification/Kconfig_Dups.thy ===== *)
theory Kconfig_Dups
  imports Kconfig_Simplify
begin

text \<open>
  Removal of duplicate operands, \<^verbatim>\<open>expr_eliminate_dups\<close> of \<^verbatim>\<open>support/kconfig/expr.c\<close>.
  Its passes walk over pairs of operands of one chain of equal binary nodes through two
  \<^verbatim>\<open>struct expr **\<close> arguments that point into the same tree, so a slot of the tree is
  modelled as a path from the root of the chain, reading and writing through the slot as
  \<open>get_at\<close> and \<open>put_at\<close>, and equality of the two pointers as equality of the paths.
  A loop or recursion that might not return has the value \<open>None\<close>; that none of them does
  is proved below.
\<close>

section \<open>Slots of a tree\<close>

datatype dir = DL | DR

type_synonym slot = "dir list"

fun child :: "dir \<Rightarrow> expr \<Rightarrow> expr" where
  "child DL e = eleft e"
| "child DR e = eright e"

fun get_at :: "expr \<Rightarrow> slot \<Rightarrow> expr" where
  "get_at e [] = e"
| "get_at e (d # p) = get_at (child d e) p"

fun put_at :: "expr \<Rightarrow> slot \<Rightarrow> expr \<Rightarrow> expr" where
  "put_at e [] x = x"
| "put_at e (DL # p) x = expr_alloc_two (etype e) (put_at (eleft e) p x) (eright e)"
| "put_at e (DR # p) x = expr_alloc_two (etype e) (eleft e) (put_at (eright e) p x)"

section \<open>The two passes and the loop\<close>

definition expr_join :: "kconf \<Rightarrow> expr_type \<Rightarrow> expr \<Rightarrow> expr \<Rightarrow> expr option" where
  "expr_join k ty e1 e2 =
     (if ty = E_OR then expr_join_or k e1 e2
      else if ty = E_AND then expr_join_and k e1 e2 else None)"

partial_function (option) expr_eliminate_dups1 ::
    "kconf \<Rightarrow> expr_type \<Rightarrow> slot \<Rightarrow> slot \<Rightarrow> expr \<Rightarrow> nat \<Rightarrow> (expr \<times> nat) option"
where
  "expr_eliminate_dups1 k ty p1 p2 e c =
     (if etype (get_at e p1) = ty then
        Option.bind (expr_eliminate_dups1 k ty (p1 @ [DL]) p2 e c) (\<lambda>(e', c').
          expr_eliminate_dups1 k ty (p1 @ [DR]) p2 e' c')
      else if etype (get_at e p2) = ty then
        Option.bind (expr_eliminate_dups1 k ty p1 (p2 @ [DL]) e c) (\<lambda>(e', c').
          expr_eliminate_dups1 k ty p1 (p2 @ [DR]) e' c')
      else if p1 = p2 then Some (e, c)
      else
        Option.bind
          (if binop (etype (get_at e p1)) then
             Option.bind
               (expr_eliminate_dups1 k (etype (get_at e p1)) [] [] (get_at e p1) c)
               (\<lambda>(t, c'). Some (put_at e p1 t, c'))
           else Some (e, c))
          (\<lambda>(e', c').
             case expr_join k ty (get_at e' p1) (get_at e' p2) of
               None \<Rightarrow> Some (e', c')
             | Some tmp \<Rightarrow>
                 Some (put_at (put_at e' p1 (Symbol (neutral ty))) p2 tmp, Suc c')))"

text \<open>
  The rewrite of the second pass, on the operand \<open>e1\<close> and the expression \<open>e2\<close>:
  \<open>(FOO || BAR) && (!FOO && !BAR)\<close> to \<open>n\<close> and
  \<open>(FOO && BAR) || (!FOO || !BAR)\<close> to \<open>y\<close>.
\<close>

definition dups2_absorbs :: "kconf \<Rightarrow> expr \<Rightarrow> expr \<Rightarrow> sym option" where
  "dups2_absorbs k e1 e2 =
     (if etype e1 = E_OR then
        (case expr_extract_eq_and (expr_transform k (Not e1)) e2 of (_, tmp1, _) \<Rightarrow>
           if expr_is_yes (Some tmp1) then Some symbol_no else None)
      else if etype e1 = E_AND then
        (case expr_extract_eq_or (expr_transform k (Not e1)) e2 of (_, tmp1, _) \<Rightarrow>
           if expr_is_no (Some tmp1) then Some symbol_yes else None)
      else None)"

partial_function (option) expr_eliminate_dups2 ::
    "kconf \<Rightarrow> expr_type \<Rightarrow> slot \<Rightarrow> slot \<Rightarrow> expr \<Rightarrow> nat \<Rightarrow> (expr \<times> nat) option"
where
  "expr_eliminate_dups2 k ty p1 p2 e c =
     (if etype (get_at e p1) = ty then
        Option.bind (expr_eliminate_dups2 k ty (p1 @ [DL]) p2 e c) (\<lambda>(e', c').
          expr_eliminate_dups2 k ty (p1 @ [DR]) p2 e' c')
      else
        Option.bind
          (if etype (get_at e p2) = ty then
             Option.bind (expr_eliminate_dups2 k ty p1 (p2 @ [DL]) e c) (\<lambda>(e', c').
               expr_eliminate_dups2 k ty p1 (p2 @ [DR]) e' c')
           else Some (e, c))
          (\<lambda>(e', c').
             if p1 = p2 then Some (e', c')
             else if binop (etype (get_at e' p1)) then
               Option.bind
                 (expr_eliminate_dups2 k (etype (get_at e' p1)) [] [] (get_at e' p1) c')
                 (\<lambda>(t, d).
                    case dups2_absorbs k t (get_at (put_at e' p1 t) p2) of
                      None \<Rightarrow> Some (put_at e' p1 t, d)
                    | Some s \<Rightarrow> Some (put_at e' p1 (Symbol s), Suc d))
             else Some (e', c')))"

partial_function (option) expr_eliminate_dups :: "kconf \<Rightarrow> expr \<Rightarrow> expr option" where
  "expr_eliminate_dups k e =
     Option.bind
       (if binop (etype e) then
          Option.bind (expr_eliminate_dups1 k (etype e) [] [] e 0) (\<lambda>(e', c').
            expr_eliminate_dups2 k (etype e') [] [] e' c')
        else Some (e, 0))
       (\<lambda>(e', c'). if c' = 0 then Some e' else expr_eliminate_dups k (expr_eliminate_yn e'))"

section \<open>Chains\<close>

text \<open>\<open>on_chain ty e p\<close>: all nodes above the slot \<open>p\<close> have the binary type \<open>ty\<close>.\<close>

fun on_chain :: "expr_type \<Rightarrow> expr \<Rightarrow> slot \<Rightarrow> bool" where
  "on_chain ty e [] \<longleftrightarrow> True"
| "on_chain ty e (d # p) \<longleftrightarrow> etype e = ty \<and> on_chain ty (child d e) p"

text \<open>Two trees with the same nodes of type \<open>ty\<close> at the top.\<close>

inductive same_chain :: "expr_type \<Rightarrow> expr \<Rightarrow> expr \<Rightarrow> bool" for ty where
  leaf: "etype e \<noteq> ty \<Longrightarrow> etype e' \<noteq> ty \<Longrightarrow> same_chain ty e e'"
| node: "etype e = ty \<Longrightarrow> etype e' = ty \<Longrightarrow> same_chain ty (eleft e) (eleft e') \<Longrightarrow>
    same_chain ty (eright e) (eright e') \<Longrightarrow> same_chain ty e e'"

text \<open>The number of nodes of a chain, its operands included.\<close>

fun csize :: "expr_type \<Rightarrow> expr \<Rightarrow> nat" where
  "csize ty (And l r) = (if ty = E_AND then Suc (csize ty l + csize ty r) else 1)"
| "csize ty (Or l r) = (if ty = E_OR then Suc (csize ty l + csize ty r) else 1)"
| "csize ty _ = 1"

text \<open>
  The number of alternations of conjunction and disjunction below a chain, and what an operand
  contributes to it.
\<close>

fun alternation :: "expr \<Rightarrow> nat" where
  "alternation (And l r) =
     max (if etype l = E_AND then alternation l else Suc (alternation l))
         (if etype r = E_AND then alternation r else Suc (alternation r))"
| "alternation (Or l r) =
     max (if etype l = E_OR then alternation l else Suc (alternation l))
         (if etype r = E_OR then alternation r else Suc (alternation r))"
| "alternation _ = 0"

definition cost :: "expr_type \<Rightarrow> expr \<Rightarrow> nat" where
  "cost ty e = (if etype e = ty then alternation e else Suc (alternation e))"

text \<open>A binary node with a constant operand, which \<open>expr_eliminate_yn\<close> removes.\<close>

definition yn :: "expr \<Rightarrow> bool" where
  "yn e \<longleftrightarrow> e = Symbol symbol_yes \<or> e = Symbol symbol_no"

fun has_redex :: "expr \<Rightarrow> bool" where
  "has_redex (And l r) \<longleftrightarrow> yn l \<or> yn r \<or> has_redex l \<or> has_redex r"
| "has_redex (Or l r) \<longleftrightarrow> yn l \<or> yn r \<or> has_redex l \<or> has_redex r"
| "has_redex _ \<longleftrightarrow> False"

section \<open>Facts on slots and chains\<close>

lemma alloc_two_id: "binop (etype e) \<Longrightarrow> expr_alloc_two (etype e) (eleft e) (eright e) = e"
  by (cases e) (auto simp: binop_def)

lemma slot_induct [consumes 1, case_names Nil L R]:
  assumes "on_chain ty e p"
    and "\<And>e. P e []"
    and "\<And>e p. etype e = ty \<Longrightarrow> on_chain ty (eleft e) p \<Longrightarrow> P (eleft e) p \<Longrightarrow> P e (DL # p)"
    and "\<And>e p. etype e = ty \<Longrightarrow> on_chain ty (eright e) p \<Longrightarrow> P (eright e) p \<Longrightarrow> P e (DR # p)"
  shows "P e p"
  using assms(1)
proof (induction p arbitrary: e)
  case (Cons d p)
  then show ?case by (cases d) (auto intro: assms(3,4))
qed (rule assms(2))

text \<open>The two binary node types share the facts below.\<close>

locale binary_chain =
  fixes ty :: expr_type
  assumes b: "binop ty"
begin

lemma put_get: "on_chain ty e p \<Longrightarrow> put_at e p (get_at e p) = e"
  by (induction e p rule: slot_induct) (use b in \<open>auto simp: alloc_two_id\<close>)

lemma get_put: "on_chain ty e p \<Longrightarrow> get_at (put_at e p x) p = x"
  by (induction e p rule: slot_induct) (use b in auto)

lemma on_chain_snoc: "on_chain ty e p \<Longrightarrow> etype (get_at e p) = ty \<Longrightarrow> on_chain ty e (p @ [d])"
  by (induction e p rule: slot_induct) auto

lemma get_snoc: "get_at e (p @ [d]) = child d (get_at e p)"
  by (induction p arbitrary: e) auto

lemma put_value:
  assumes "kconf_consts k" and "on_chain ty e p"
  shows "expr_calc_value k (put_at e p x)
    = tri_op ty (expr_calc_value k x) (expr_calc_value k (put_at e p (Symbol (neutral ty))))"
  using assms(2)
proof (induction e p rule: slot_induct)
  case (Nil e)
  show ?case by (simp only: put_at.simps tri_op_commute [of ty "expr_calc_value k x"]
      calc_neutral [OF assms(1)])
next
  case (L e p)
  then show ?case using b by (simp add: tri_op_ac)
next
  case (R e p)
  then show ?case using b by (simp add: tri_op_ac)
qed

lemma esize_put:
  "on_chain ty e p \<Longrightarrow> esize (put_at e p x) + esize (get_at e p) = esize e + esize x"
  by (induction e p rule: slot_induct) (use b in \<open>auto simp: esize_binop\<close>)

lemma cost_binop: "etype e = ty \<Longrightarrow> cost ty e = max (cost ty (eleft e)) (cost ty (eright e))"
  using b by (cases e) (auto simp: cost_def binop_def)

lemma cost_put: "on_chain ty e p \<Longrightarrow> cost ty e \<le> n \<Longrightarrow> cost ty x \<le> n \<Longrightarrow> cost ty (put_at e p x) \<le> n"
  by (induction e p rule: slot_induct)
     (use b in \<open>auto simp: cost_binop cost_binop [of "expr_alloc_two _ _ _"]\<close>)

lemma cost_get: "on_chain ty e p \<Longrightarrow> cost ty (get_at e p) \<le> cost ty e"
  by (induction e p rule: slot_induct) (auto simp: cost_binop)

lemma same_chain_refl: "same_chain ty e e"
proof (induction "esize e" arbitrary: e rule: less_induct)
  case less
  show ?case
  proof (cases "etype e = ty")
    case True
    with b less [of "eleft e"] less [of "eright e"] show ?thesis
      by - (rule same_chain.node, auto simp: esize_binop)
  qed (rule same_chain.leaf)
qed

lemma same_chain_trans: "same_chain ty e f \<Longrightarrow> same_chain ty f g \<Longrightarrow> same_chain ty e g"
proof (induction arbitrary: g rule: same_chain.induct)
  case (leaf e e')
  then show ?case by (auto elim: same_chain.cases intro: same_chain.leaf)
next
  case (node e e')
  from node.prems node.hyps(2) have "etype g = ty" "same_chain ty (eleft e') (eleft g)"
    "same_chain ty (eright e') (eright g)"
    by (auto elim: same_chain.cases)
  with node show ?case by (auto intro: same_chain.node)
qed

lemma same_chain_etype: "same_chain ty e f \<Longrightarrow> etype e = ty \<longleftrightarrow> etype f = ty"
  by (auto elim: same_chain.cases)

lemma same_chain_get:
  "on_chain ty e p \<Longrightarrow> same_chain ty e f \<Longrightarrow> on_chain ty f p \<and> same_chain ty (get_at e p) (get_at f p)"
proof (induction e p arbitrary: f rule: slot_induct)
  case (L e p)
  from L.prems L.hyps(1) have "etype f = ty" "same_chain ty (eleft e) (eleft f)"
    by (auto elim: same_chain.cases)
  with L show ?case by auto
next
  case (R e p)
  from R.prems R.hyps(1) have "etype f = ty" "same_chain ty (eright e) (eright f)"
    by (auto elim: same_chain.cases)
  with R show ?case by auto
qed simp

lemma same_chain_put:
  "on_chain ty e p \<Longrightarrow> etype (get_at e p) \<noteq> ty \<Longrightarrow> etype x \<noteq> ty \<Longrightarrow> same_chain ty e (put_at e p x)"
proof (induction e p rule: slot_induct)
  case (Nil e)
  then show ?case by (auto intro: same_chain.leaf)
next
  case (L e p)
  then show ?case using b same_chain_refl by - (rule same_chain.node, auto)
next
  case (R e p)
  then show ?case using b same_chain_refl by - (rule same_chain.node, auto)
qed

lemma csize_binop: "etype e = ty \<Longrightarrow> csize ty e = Suc (csize ty (eleft e) + csize ty (eright e))"
  using b by (cases e) (auto simp: binop_def)

lemma csize_leaf: "etype e \<noteq> ty \<Longrightarrow> csize ty e = 1"
  by (cases e) auto

lemma same_chain_csize: "same_chain ty e f \<Longrightarrow> csize ty e = csize ty f"
  by (induction rule: same_chain.induct) (auto simp: csize_leaf csize_binop)

lemma redex_binop:
  "etype e = ty \<Longrightarrow> has_redex e \<longleftrightarrow>
     yn (eleft e) \<or> yn (eright e) \<or> has_redex (eleft e) \<or> has_redex (eright e)"
  using b by (cases e) (auto simp: binop_def)

lemma redex_put: "on_chain ty e p \<Longrightarrow> has_redex x \<Longrightarrow> has_redex (put_at e p x)"
  by (induction e p rule: slot_induct) (use b in \<open>auto simp: redex_binop [of "expr_alloc_two _ _ _"]\<close>)

lemma redex_put_yn: "on_chain ty e p \<Longrightarrow> p \<noteq> [] \<Longrightarrow> yn x \<Longrightarrow> has_redex (put_at e p x)"
proof (induction e p rule: slot_induct)
  case (L e p)
  then show ?case using b by (cases p) (auto simp: redex_binop [of "expr_alloc_two _ _ _"])
next
  case (R e p)
  then show ?case using b by (cases p) (auto simp: redex_binop [of "expr_alloc_two _ _ _"])
qed simp

end

interpretation and_chain: binary_chain E_AND
  by unfold_locales (simp add: binop_def)

interpretation or_chain: binary_chain E_OR
  by unfold_locales (simp add: binop_def)

text \<open>Two different operands of a chain do not overlap.\<close>

lemma operands_disjoint:
  assumes "binop ty" "on_chain ty e p" "etype (get_at e p) \<noteq> ty"
    "on_chain ty e q" "etype (get_at e q) \<noteq> ty" "p \<noteq> q"
  shows "get_at (put_at e p x) q = get_at e q"
    and "put_at (put_at e p x) q y = put_at (put_at e q y) p x"
proof -
  have "get_at (put_at e p x) q = get_at e q
      \<and> put_at (put_at e p x) q y = put_at (put_at e q y) p x"
    using assms(2-)
  proof (induction e p arbitrary: q rule: slot_induct)
    case (Nil e)
    then show ?case by (cases q) auto
  next
    case (L e p)
    then obtain d q' where "q = d # q'" by (cases q) auto
    with L assms(1) show ?case by (cases d) auto
  next
    case (R e p)
    then obtain d q' where "q = d # q'" by (cases q) auto
    with R assms(1) show ?case by (cases d) auto
  qed
  then show "get_at (put_at e p x) q = get_at e q"
    and "put_at (put_at e p x) q y = put_at (put_at e q y) p x" by simp_all
qed

text \<open>Constant elimination shrinks a tree that has something to eliminate.\<close>

lemma eliminate_yn_shrinks: "has_redex e \<Longrightarrow> esize (expr_eliminate_yn e) < esize e"
proof (induction e rule: expr_eliminate_yn.induct)
  case (1 l r)
  then show ?case
    using esize_eliminate_yn [of l] esize_eliminate_yn [of r] by (auto simp: Let_def yn_def)
next
  case (2 l r)
  then show ?case
    using esize_eliminate_yn [of l] esize_eliminate_yn [of r] by (auto simp: Let_def yn_def)
qed auto

section \<open>What a pass keeps\<close>

text \<open>Every symbol used as an operand is \<open>No\<close> or \<open>Yes\<close>.\<close>

fun two_valued :: "kconf \<Rightarrow> expr \<Rightarrow> bool" where
  "two_valued k (And l r) \<longleftrightarrow> two_valued k l \<and> two_valued k r"
| "two_valued k (Or l r) \<longleftrightarrow> two_valued k l \<and> two_valued k r"
| "two_valued k (Not e) \<longleftrightarrow> two_valued k e"
| "two_valued k (Symbol s) \<longleftrightarrow> tri (curr (symtab k s)) \<noteq> Mod"
| "two_valued k _ \<longleftrightarrow> True"

lemma two_valued_calc: "two_valued k e \<Longrightarrow> expr_calc_value k e \<noteq> Mod"
proof (induction e)
  case (Not e)
  then show ?case by (cases "expr_calc_value k e") auto
qed (auto simp: EXPR_AND_def EXPR_OR_def)

text \<open>
  The relation between a tree and counter before and after a pass over the chain of type
  \<open>ty\<close>: the chain itself stays, neither its nesting nor its size grows, the counter says
  whether anything changed, and a change leaves a constant operand behind. The value is kept, for
  the second pass (\<open>Q\<close>) in the absence of \<open>Mod\<close>.
\<close>

definition pass_ok :: "bool \<Rightarrow> kconf \<Rightarrow> expr_type \<Rightarrow> expr \<Rightarrow> nat \<Rightarrow> expr \<Rightarrow> nat \<Rightarrow> bool" where
  "pass_ok Q k ty e c e' c' \<longleftrightarrow>
     same_chain ty e e' \<and> cost ty e' \<le> cost ty e \<and> esize e' \<le> esize e \<and> c \<le> c'
     \<and> (c' = c \<longrightarrow> e' = e) \<and> (c < c' \<longrightarrow> has_redex e')
     \<and> (kconf_ok k \<longrightarrow> two_valued k e \<longrightarrow> two_valued k e')
     \<and> (kconf_ok k \<longrightarrow> (Q \<longrightarrow> two_valued k e) \<longrightarrow> expr_calc_value k e' = expr_calc_value k e)"

context binary_chain
begin

lemma pass_ok_refl: "pass_ok Q k ty e c e c"
  by (simp add: pass_ok_def same_chain_refl)

lemma pass_ok_trans:
  "pass_ok Q k ty e c f d \<Longrightarrow> pass_ok Q k ty f d g h \<Longrightarrow> pass_ok Q k ty e c g h"
  using same_chain_trans [of e f g]
  by (cases "d = c"; cases "h = d") (auto simp: pass_ok_def)

lemma two_valued_binop:
  "etype e = ty \<Longrightarrow> two_valued k e \<longleftrightarrow> two_valued k (eleft e) \<and> two_valued k (eright e)"
  using b by (cases e) (auto simp: binop_def)

lemma two_valued_put:
  "on_chain ty e p \<Longrightarrow> two_valued k e \<Longrightarrow> two_valued k x \<Longrightarrow> two_valued k (put_at e p x)"
  by (induction e p rule: slot_induct)
     (use b in \<open>auto simp: two_valued_binop two_valued_binop [of "expr_alloc_two _ _ _"]\<close>)

lemma two_valued_get: "on_chain ty e p \<Longrightarrow> two_valued k e \<Longrightarrow> two_valued k (get_at e p)"
  by (induction e p rule: slot_induct) (auto simp: two_valued_binop)

lemma put_value_eq:
  assumes "kconf_consts k" "on_chain ty e p"
    "expr_calc_value k x = expr_calc_value k (get_at e p)"
  shows "expr_calc_value k (put_at e p x) = expr_calc_value k e"
  using put_value [OF assms(1,2), of x] put_value [OF assms(1,2), of "get_at e p"] assms(3)
  by (simp add: put_get [OF assms(2)])

text \<open>A pass over an operand that is a chain of the other type.\<close>

lemma pass_ok_inner:
  assumes p: "on_chain ty e p" and ty': "etype (get_at e p) \<noteq> ty" "binop (etype (get_at e p))"
    and i: "pass_ok Q k (etype (get_at e p)) (get_at e p) c t c'"
  shows "pass_ok Q k ty e c (put_at e p t) c'"
proof -
  have sc: "etype t = etype (get_at e p)"
    using i binary_chain.same_chain_etype [OF binary_chain.intro [OF ty'(2)]]
    by (auto simp: pass_ok_def)
  have "cost ty t \<le> cost ty (get_at e p)"
    using i sc ty' by (auto simp: pass_ok_def cost_def)
  then have "cost ty (put_at e p t) \<le> cost ty e"
    using cost_get [OF p] by (intro cost_put [OF p]) auto
  moreover have "same_chain ty e (put_at e p t)"
    using same_chain_put [OF p ty'(1)] sc ty' by simp
  ultimately show ?thesis
    using i esize_put [OF p, of t] put_get [OF p] redex_put [OF p]
      two_valued_put [OF p] two_valued_get [OF p] put_value_eq [OF _ p]
    by (auto simp: pass_ok_def kconf_ok_consts)
qed

lemma get_pass_ok:
  assumes "pass_ok Q k ty e c e' c'" "on_chain ty e p"
  shows "on_chain ty e' p" and "etype (get_at e' p) = ty \<longleftrightarrow> etype (get_at e p) = ty"
    and "csize ty (get_at e' p) = csize ty (get_at e p)"
  using assms same_chain_get [OF assms(2)] same_chain_etype same_chain_csize
  by (fastforce simp: pass_ok_def)+

end

section \<open>The first pass\<close>

lemma join_value:
  "kconf_ok k \<Longrightarrow> expr_join k ty e1 e2 = Some t \<Longrightarrow> binop ty \<Longrightarrow>
     expr_calc_value k t = tri_op ty (expr_calc_value k e1) (expr_calc_value k e2)"
  by (auto simp: expr_join_def tri_op_def binop_def join_or_value join_and_value split: if_splits)

lemma both_ways_symbol:
  "both_ways e1 e2 (Symbol s) x \<Longrightarrow> Symbol s = e1 \<or> Symbol s = e2"
  by (auto simp: both_ways_def)

lemma join_result:
  assumes "expr_join k ty e1 e2 = Some t"
  shows "t = e1 \<or> t = e2 \<or> etype t \<in> {E_EQUAL, E_UNEQUAL} \<or> t = Symbol symbol_yes
    \<or> t = Symbol symbol_no"
  using assms both_ways_symbol [of e1 e2]
  by (auto simp: expr_join_def expr_join_or_def expr_join_and_def
      split: if_splits option.splits expr.splits)

lemma join_shape:
  assumes "expr_join k ty e1 e2 = Some t"
  shows "t = e1 \<or> (\<not> binop (etype t) \<and> esize t = 1 \<and> alternation t = 0)"
proof -
  have "t = e1 \<or> (\<exists>a b. t = Equal a b) \<or> (\<exists>a b. t = Unequal a b) \<or> (\<exists>s. t = Symbol s)"
    using assms
    by (auto simp: expr_join_def expr_join_or_def expr_join_and_def
        split: if_splits option.splits expr.splits)
  then show ?thesis by (auto simp: binop_def)
qed

lemma join_two_valued:
  assumes "kconf_ok k" "expr_join k ty e1 e2 = Some t" "two_valued k e1" "two_valued k e2"
  shows "two_valued k t"
proof -
  have "etype t \<in> {E_EQUAL, E_UNEQUAL} \<Longrightarrow> two_valued k t" by (cases t) auto
  with assms join_result [OF assms(2)] show ?thesis
    by (auto simp: kconf_constsD [OF kconf_ok_consts])
qed

context binary_chain
begin

lemma pass_ok_join:
  assumes p: "on_chain ty e p" "etype (get_at e p) \<noteq> ty"
    and q: "on_chain ty e q" "etype (get_at e q) \<noteq> ty" and ne: "p \<noteq> q"
    and j: "expr_join k ty (get_at e p) (get_at e q) = Some tmp"
  shows "pass_ok Q k ty e c (put_at (put_at e p (Symbol (neutral ty))) q tmp) (Suc c)"
proof -
  let ?N = "Symbol (neutral ty)"
  let ?f = "put_at e p ?N" and ?g = "put_at (put_at e p ?N) q tmp"
  have tN: "etype ?N \<noteq> ty" and tmp: "etype tmp \<noteq> ty"
    using b p(2) join_shape [OF j] by (auto simp: binop_def)
  have sf: "same_chain ty e ?f" using same_chain_put [OF p tN] .
  have qf: "on_chain ty ?f q" "get_at ?f q = get_at e q"
    using same_chain_get [OF q(1) sf] operands_disjoint [OF b p q ne] by auto
  have sg: "same_chain ty ?f ?g" using same_chain_put [OF qf(1)] qf(2) q(2) tmp by simp
  have comm: "?g = put_at (put_at e q tmp) p ?N" using operands_disjoint [OF b p q ne] by simp
  have pq: "on_chain ty (put_at e q tmp) p"
    using same_chain_get [OF p(1) same_chain_put [OF q tmp]] by simp
  have ne0: "p \<noteq> []" using ne p q by (cases p; cases q) auto
  have "has_redex ?g"
    unfolding comm by (rule redex_put_yn [OF pq ne0]) (auto simp: yn_def neutral_def)
  moreover have "cost ty ?g \<le> cost ty e"
  proof (rule cost_put [OF qf(1)])
    have "cost ty ?N \<le> cost ty (get_at e p)" using p(2) tN by (simp add: cost_def)
    then show "cost ty ?f \<le> cost ty e"
      using cost_get [OF p(1)] by (intro cost_put [OF p(1)]) auto
    have "cost ty tmp \<le> cost ty (get_at e p)"
      using join_shape [OF j] p(2) tmp by (auto simp: cost_def)
    then show "cost ty tmp \<le> cost ty e" using cost_get [OF p(1)] by simp
  qed
  moreover have "esize tmp \<le> esize (get_at e p)"
    using join_shape [OF j] by (auto simp: Suc_le_eq)
  then have "esize ?g \<le> esize e"
    using esize_put [OF p(1), of ?N] esize_put [OF qf(1), of tmp, unfolded qf(2)]
      esize_pos [of "get_at e q"] esize.simps(8) [of "neutral ty"] by linarith
  moreover have "two_valued k ?g" if "kconf_ok k" "two_valued k e"
    using that qf p q j kconf_constsD [OF kconf_ok_consts [OF that(1)]]
    by (intro two_valued_put two_valued_get join_two_valued [OF _ j]) (auto simp: neutral_def)
  moreover have "expr_calc_value k ?g = expr_calc_value k e" if ok: "kconf_ok k"
  proof -
    note kc = kconf_ok_consts [OF ok]
    have "expr_calc_value k ?g
        = tri_op ty (expr_calc_value k tmp) (expr_calc_value k (put_at ?f q ?N))"
      by (rule put_value [OF kc qf(1)])
    also have "\<dots> = tri_op ty (expr_calc_value k (get_at e p))
        (tri_op ty (expr_calc_value k (get_at e q)) (expr_calc_value k (put_at ?f q ?N)))"
      by (simp only: join_value [OF ok j b] tri_op_assoc)
    also have "tri_op ty (expr_calc_value k (get_at e q)) (expr_calc_value k (put_at ?f q ?N))
        = expr_calc_value k ?f"
      using put_value [OF kc qf(1), of "get_at ?f q"] put_get [OF qf(1)] qf(2) by simp
    also have "tri_op ty (expr_calc_value k (get_at e p)) (expr_calc_value k ?f)
        = expr_calc_value k e"
      using put_value [OF kc p(1), of "get_at e p"] put_get [OF p(1)] by simp
    finally show ?thesis .
  qed
  ultimately show ?thesis
    using same_chain_trans [OF sf sg] by (simp add: pass_ok_def)
qed

text \<open>Walking into both operands of a node of the chain.\<close>

lemma pass_ok_walk:
  assumes p: "on_chain ty e p" "etype (get_at e p) = ty" and q: "on_chain ty e q"
    and "on_chain ty e (p @ [DL]) \<Longrightarrow> pass_ok Q k ty e c e1 c1"
    and "on_chain ty e1 (p @ [DR]) \<Longrightarrow> on_chain ty e1 q \<Longrightarrow> pass_ok Q k ty e1 c1 e2 c2"
  shows "pass_ok Q k ty e c e2 c2"
proof -
  have l: "pass_ok Q k ty e c e1 c1" using assms(4) on_chain_snoc [OF p] by simp
  have "on_chain ty e1 (p @ [DR])"
    using get_pass_ok [OF l p(1)] p(2) by (simp add: on_chain_snoc)
  with get_pass_ok(1) [OF l q] assms(5) have "pass_ok Q k ty e1 c1 e2 c2" by simp
  with l show ?thesis by (rule pass_ok_trans)
qed

text \<open>The work of the first pass on two operands: the inner pass, then joining.\<close>

lemma pass_ok_operands1:
  assumes p1: "on_chain ty e p1" "etype (get_at e p1) \<noteq> ty"
    and p2: "on_chain ty e p2" "etype (get_at e p2) \<noteq> ty" and ne: "p1 \<noteq> p2"
    and P: "pass_ok False k ty e c e1 c1"
    and j: "(case expr_join k ty (get_at e1 p1) (get_at e1 p2) of
        None \<Rightarrow> Some (e1, c1)
      | Some tmp \<Rightarrow> Some (put_at (put_at e1 p1 (Symbol (neutral ty))) p2 tmp, Suc c1)) = Some r"
  shows "pass_ok False k ty e c (fst r) (snd r)"
proof (cases "expr_join k ty (get_at e1 p1) (get_at e1 p2)")
  case None
  with j P show ?thesis by auto
next
  case (Some tmp)
  have "pass_ok False k ty e1 c1 (put_at (put_at e1 p1 (Symbol (neutral ty))) p2 tmp) (Suc c1)"
    using get_pass_ok [OF P p1(1)] get_pass_ok [OF P p2(1)] p1 p2 ne Some
    by (intro pass_ok_join) auto
  with j Some pass_ok_trans [OF P] show ?thesis by auto
qed

end

lemma dups1_pass_ok:
  assumes "expr_eliminate_dups1 k ty p1 p2 e c = Some (e', c')"
    and "binop ty" "on_chain ty e p1" "on_chain ty e p2"
  shows "pass_ok False k ty e c e' c'"
proof -
  let ?P = "\<lambda>k ty p1 p2 e c r. binop ty \<longrightarrow> on_chain ty e p1 \<longrightarrow> on_chain ty e p2 \<longrightarrow>
    pass_ok False k ty e c (fst r) (snd r)"
  have "?P k ty p1 p2 e c (e', c')"
  proof (rule expr_eliminate_dups1.raw_induct [where P = ?P, OF _ assms(1)], intro impI,
      goal_cases)
    case (1 f k ty p1 p2 e c r)
    note IH = 1(1) and r = 1(2) and b = 1(3) and p1 = 1(4) and p2 = 1(5)
    note bc = binary_chain.intro [OF b]
    show ?case
    proof (cases "etype (get_at e p1) = ty \<or> etype (get_at e p2) = ty")
      case True
      then consider (a) "etype (get_at e p1) = ty"
        | (b) "etype (get_at e p1) \<noteq> ty" "etype (get_at e p2) = ty" by blast
      then show ?thesis
      proof cases
        case a
        with r obtain e1 c1 where L: "f k ty (p1 @ [DL]) p2 e c = Some (e1, c1)"
          and R: "f k ty (p1 @ [DR]) p2 e1 c1 = Some r"
          by (auto simp: bind_eq_Some_conv)
        have "on_chain ty e (p1 @ [DL]) \<Longrightarrow> pass_ok False k ty e c e1 c1"
          using IH [OF L] b p2 by simp
        moreover have "on_chain ty e1 (p1 @ [DR]) \<Longrightarrow> on_chain ty e1 p2 \<Longrightarrow>
            pass_ok False k ty e1 c1 (fst r) (snd r)"
          using IH [OF R] b by simp
        ultimately show ?thesis
          by (rule binary_chain.pass_ok_walk [OF bc p1 a p2])
      next
        case b2: b
        with r obtain e1 c1 where L: "f k ty p1 (p2 @ [DL]) e c = Some (e1, c1)"
          and R: "f k ty p1 (p2 @ [DR]) e1 c1 = Some r"
          by (auto simp: bind_eq_Some_conv)
        have "on_chain ty e (p2 @ [DL]) \<Longrightarrow> pass_ok False k ty e c e1 c1"
          using IH [OF L] b p1 by simp
        moreover have "on_chain ty e1 (p2 @ [DR]) \<Longrightarrow> on_chain ty e1 p1 \<Longrightarrow>
            pass_ok False k ty e1 c1 (fst r) (snd r)"
          using IH [OF R] b by simp
        ultimately show ?thesis
          by (rule binary_chain.pass_ok_walk [OF bc p2 b2(2) p1])
      qed
    next
      case n: False
      show ?thesis
      proof (cases "p1 = p2")
        case True
        with r n binary_chain.pass_ok_refl [OF bc] show ?thesis by auto
      next
        case ne: False
        with r n obtain e1 c1 where i: "(if binop (etype (get_at e p1)) then
             Option.bind (f k (etype (get_at e p1)) [] [] (get_at e p1) c)
               (\<lambda>(t, c'). Some (put_at e p1 t, c'))
           else Some (e, c)) = Some (e1, c1)"
          and j: "(case expr_join k ty (get_at e1 p1) (get_at e1 p2) of
               None \<Rightarrow> Some (e1, c1)
             | Some tmp \<Rightarrow>
                 Some (put_at (put_at e1 p1 (Symbol (neutral ty))) p2 tmp, Suc c1)) = Some r"
          by (auto simp: bind_eq_Some_conv)
        have P: "pass_ok False k ty e c e1 c1"
        proof (cases "binop (etype (get_at e p1))")
          case True
          with i obtain t where t: "f k (etype (get_at e p1)) [] [] (get_at e p1) c = Some (t, c1)"
            and e1: "e1 = put_at e p1 t"
            by (auto simp: bind_eq_Some_conv)
          show ?thesis
            unfolding e1 using n True IH [OF t] by (intro binary_chain.pass_ok_inner [OF bc p1]) auto
        next
          case False
          with i show ?thesis by (simp add: binary_chain.pass_ok_refl [OF bc])
        qed
        from n ne show ?thesis
          by (intro binary_chain.pass_ok_operands1 [OF bc p1 _ p2 _ _ P j]) auto
      qed
    qed
  qed
  with assms show ?thesis by simp
qed

text \<open>
  Both passes return: a walk inside a chain shortens the two parts still to be visited, which a
  pass leaves alone, and the pass over an operand meets fewer alternations.
\<close>

lemma csize_child:
  assumes "binop ty" "etype (get_at e p) = ty"
  shows "csize ty (get_at e (p @ [d])) < csize ty (get_at e p)"
  using assms binary_chain.csize_binop [OF binary_chain.intro [OF assms(1)], of "get_at e p"]
    binary_chain.get_snoc [OF binary_chain.intro [OF assms(1)], of e p d]
  by (cases d) auto

lemma cost_operand:
  assumes "binop ty" "on_chain ty e p" "etype (get_at e p) \<noteq> ty"
  shows "cost (etype (get_at e p)) (get_at e p) < cost ty e"
  using binary_chain.cost_get [OF binary_chain.intro [OF assms(1)] assms(2)] assms(3)
  by (simp add: cost_def)

text \<open>What the second of two consecutive calls finds.\<close>

lemma after_pass:
  assumes "binop ty" "pass_ok Q k ty e c e1 c1" "on_chain ty e p" "etype (get_at e p) = ty"
    "on_chain ty e q"
  shows "on_chain ty e1 (p @ [DR])" "on_chain ty e1 q" "cost ty e1 \<le> cost ty e"
    "csize ty (get_at e1 (p @ [DR])) + csize ty (get_at e1 q)
      < csize ty (get_at e p) + csize ty (get_at e q)"
proof -
  note bc = binary_chain.intro [OF assms(1)]
  note P = binary_chain.get_pass_ok [OF bc assms(2,3)]
  note Q = binary_chain.get_pass_ok [OF bc assms(2,5)]
  show "on_chain ty e1 (p @ [DR])"
    using P assms(4) by (simp add: binary_chain.on_chain_snoc [OF bc])
  show "on_chain ty e1 q" by (rule Q(1))
  show "cost ty e1 \<le> cost ty e" using assms(2) by (simp add: pass_ok_def)
  show "csize ty (get_at e1 (p @ [DR])) + csize ty (get_at e1 q)
      < csize ty (get_at e p) + csize ty (get_at e q)"
    using csize_child [OF assms(1), of e1 p DR] P Q assms(4) by simp
qed

lemma dups1_returns:
  assumes "binop ty" "on_chain ty e p1" "on_chain ty e p2"
  shows "\<exists>e' c'. expr_eliminate_dups1 k ty p1 p2 e c = Some (e', c')"
  using assms
proof (induction "cost ty e" arbitrary: ty p1 p2 e c rule: less_induct)
  case outer: less
  define n where "n = cost ty e"
  have "cost ty e \<le> n" by (simp add: n_def)
  with outer.prems show ?case
  proof (induction "csize ty (get_at e p1) + csize ty (get_at e p2)" arbitrary: p1 p2 e c
      rule: less_induct)
    case (less p1 p2 e c)
    note b = less.prems(1) and p1 = less.prems(2) and p2 = less.prems(3)
    note bc = binary_chain.intro [OF b]
    note def = expr_eliminate_dups1.simps [of k ty p1 p2 e c]
    consider (left) "etype (get_at e p1) = ty"
      | (right) "etype (get_at e p1) \<noteq> ty" "etype (get_at e p2) = ty"
      | (op) "etype (get_at e p1) \<noteq> ty" "etype (get_at e p2) \<noteq> ty" by blast
    then show ?case
    proof cases
      case left
      have l: "on_chain ty e (p1 @ [DL])" using binary_chain.on_chain_snoc [OF bc p1 left] .
      obtain e1 c1 where L: "expr_eliminate_dups1 k ty (p1 @ [DL]) p2 e c = Some (e1, c1)"
        using less.hyps [OF _ b l p2 less.prems(4), of c] csize_child [OF b left, of DL] by auto
      note P = after_pass [OF b dups1_pass_ok [OF L b l p2] p1 left p2]
      obtain e2 c2 where "expr_eliminate_dups1 k ty (p1 @ [DR]) p2 e1 c1 = Some (e2, c2)"
        using less.hyps [OF P(4) b P(1,2), of c1] P(3) less.prems(4) by auto
      with L left show ?thesis by (simp add: def)
    next
      case right
      have l: "on_chain ty e (p2 @ [DL])" using binary_chain.on_chain_snoc [OF bc p2 right(2)] .
      obtain e1 c1 where L: "expr_eliminate_dups1 k ty p1 (p2 @ [DL]) e c = Some (e1, c1)"
        using less.hyps [OF _ b p1 l less.prems(4), of c] csize_child [OF b right(2), of DL] by auto
      note P = after_pass [OF b dups1_pass_ok [OF L b p1 l] p2 right(2) p1]
      obtain e2 c2 where "expr_eliminate_dups1 k ty p1 (p2 @ [DR]) e1 c1 = Some (e2, c2)"
        using less.hyps [OF _ b P(2,1), of c1] P(3,4) less.prems(4) by (auto simp: add.commute)
      with L right show ?thesis by (simp add: def)
    next
      case op
      have "\<exists>t d. expr_eliminate_dups1 k (etype (get_at e p1)) [] [] (get_at e p1) c = Some (t, d)"
        if "binop (etype (get_at e p1))"
        using outer.hyps [OF _ that] cost_operand [OF b p1 op(1)] less.prems(4) by (simp add: n_def)
      with op show ?thesis
        by (auto simp: def split: option.splits)
    qed
  qed
qed

section \<open>The second pass\<close>

lemma absorbs_value:
  assumes ok: "kconf_ok k" and a: "dups2_absorbs k e1 e2 = Some s"
  shows "etype e1 = E_OR \<and> s = symbol_no
        \<and> expr_calc_value k e2 \<le> EXPR_NOT (expr_calc_value k e1)
      \<or> etype e1 = E_AND \<and> s = symbol_yes
        \<and> EXPR_NOT (expr_calc_value k e1) \<le> expr_calc_value k e2"
proof -
  note kc = kconf_ok_consts [OF ok] and t = transform_value [OF ok, of "Not e1"]
  consider (disj) tmp f2 where "etype e1 = E_OR" "s = symbol_no"
      "expr_extract_eq_and (expr_transform k (Not e1)) e2 = (tmp, Symbol symbol_yes, f2)"
    | (conj) tmp f2 where "etype e1 = E_AND" "s = symbol_yes"
      "expr_extract_eq_or (expr_transform k (Not e1)) e2 = (tmp, Symbol symbol_no, f2)"
    using a by (auto simp: dups2_absorbs_def expr_is_yes_def expr_is_no_def
        split: if_splits prod.splits)
  then show ?thesis
  proof cases
    case disj
    then show ?thesis
      using extract_eq_and_cancels [OF kc disj(3)] t kconf_constsD [OF kc]
      by (auto simp: cancels_def tri_op_def EXPR_AND_min)
  next
    case conj
    then show ?thesis
      using extract_eq_or_cancels [OF kc conj(3)] t kconf_constsD [OF kc]
      by (auto simp: cancels_def tri_op_def EXPR_OR_max)
  qed
qed

lemma and_chain_le: "on_chain E_AND e p \<Longrightarrow> expr_calc_value k e \<le> expr_calc_value k (get_at e p)"
  by (induction e p rule: slot_induct)
     (auto simp: calc_binop binop_def tri_op_def EXPR_AND_min min.coboundedI1 min.coboundedI2)

lemma or_chain_ge: "on_chain E_OR e p \<Longrightarrow> expr_calc_value k (get_at e p) \<le> expr_calc_value k e"
  by (induction e p rule: slot_induct)
     (auto simp: calc_binop binop_def tri_op_def EXPR_OR_max max.coboundedI1 max.coboundedI2)

text \<open>
  Between the two values of a boolean a conjunction that contains an operand and implies its
  negation is \<open>No\<close>, and dually for a disjunction.
\<close>

lemma absorbed_value:
  assumes ok: "kconf_ok k" and tv: "two_valued k e" and b: "binop ty"
    and p: "on_chain ty e p" "etype (get_at e p) \<noteq> ty" and q: "on_chain ty e q"
    and a: "dups2_absorbs k (get_at e p) (get_at e q) = Some s"
  shows "expr_calc_value k (put_at e p (Symbol s)) = expr_calc_value k e"
proof -
  note bc = binary_chain.intro [OF b] and kc = kconf_ok_consts [OF ok]
  note pv = binary_chain.put_value [OF bc kc p(1), of "Symbol s"]
  have m: "expr_calc_value k (get_at e p) \<noteq> Mod"
    using two_valued_calc binary_chain.two_valued_get [OF bc p(1) tv] .
  from b show ?thesis
  proof (rule binop_cases)
    assume ty: "ty = E_AND"
    with absorbs_value [OF ok a] p(2) have "s = symbol_no"
      "expr_calc_value k (get_at e q) \<le> EXPR_NOT (expr_calc_value k (get_at e p))" by auto
    with and_chain_le [of e p k] and_chain_le [of e q k] p q ty m pv kconf_constsD [OF kc]
    show ?thesis
      by (cases "expr_calc_value k (get_at e p)"; cases "expr_calc_value k e")
         (auto simp: tri_op_def tri_order)
  next
    assume ty: "ty = E_OR"
    with absorbs_value [OF ok a] p(2) have "s = symbol_yes"
      "EXPR_NOT (expr_calc_value k (get_at e p)) \<le> expr_calc_value k (get_at e q)" by auto
    with or_chain_ge [of e p k] or_chain_ge [of e q k] p q ty m pv kconf_constsD [OF kc]
    show ?thesis
      by (cases "expr_calc_value k (get_at e p)"; cases "expr_calc_value k e")
         (auto simp: tri_op_def tri_order)
  qed
qed

context binary_chain
begin

lemma put_put: "on_chain ty e p \<Longrightarrow> put_at (put_at e p x) p y = put_at e p y"
  by (induction e p rule: slot_induct) (use b in auto)

lemma pass_ok_absorb:
  assumes p: "on_chain ty e p" "etype (get_at e p) \<noteq> ty" "p \<noteq> []" and q: "on_chain ty e q"
    and a: "dups2_absorbs k (get_at e p) (get_at e q) = Some s"
  shows "pass_ok True k ty e c (put_at e p (Symbol s)) (Suc c)"
proof -
  have s: "s = symbol_yes \<or> s = symbol_no"
    using a by (auto simp: dups2_absorbs_def split: if_splits prod.splits)
  have ts: "etype (Symbol s) \<noteq> ty" using b by (auto simp: binop_def)
  have "cost ty (Symbol s) \<le> cost ty (get_at e p)" using p(2) ts by (simp add: cost_def)
  then have "cost ty (put_at e p (Symbol s)) \<le> cost ty e"
    using cost_get [OF p(1)] by (intro cost_put [OF p(1)]) auto
  moreover have "has_redex (put_at e p (Symbol s))"
    using redex_put_yn [OF p(1,3)] s by (auto simp: yn_def)
  moreover have "esize (put_at e p (Symbol s)) \<le> esize e"
    using esize_put [OF p(1), of "Symbol s"] esize_pos [of "get_at e p"]
      esize.simps(8) [of s] by linarith
  moreover have "two_valued k (put_at e p (Symbol s))" if "kconf_ok k" "two_valued k e"
    using that s kconf_constsD [OF kconf_ok_consts [OF that(1)]]
    by (intro two_valued_put [OF p(1)]) auto
  ultimately show ?thesis
    using same_chain_put [OF p(1,2) ts] absorbed_value [OF _ _ b p(1,2) q a]
    by (simp add: pass_ok_def)
qed

text \<open>The work of the second pass on an operand and another part of the chain.\<close>

lemma pass_ok_operands2:
  assumes p: "on_chain ty e p" "etype (get_at e p) \<noteq> ty" "binop (etype (get_at e p))"
    and q: "on_chain ty e q" and ne: "p \<noteq> q"
    and i: "pass_ok True k (etype (get_at e p)) (get_at e p) c t d"
    and r: "(case dups2_absorbs k t (get_at (put_at e p t) q) of
        None \<Rightarrow> Some (put_at e p t, d)
      | Some s \<Rightarrow> Some (put_at e p (Symbol s), Suc d)) = Some r"
  shows "pass_ok True k ty e c (fst r) (snd r)"
proof -
  let ?f = "put_at e p t"
  have P: "pass_ok True k ty e c ?f d" by (rule pass_ok_inner [OF p i])
  have g: "get_at ?f p = t" "put_at ?f p x = put_at e p x" for x
    using get_put [OF p(1)] put_put [OF p(1)] by simp_all
  have "p \<noteq> []" using ne p q by (cases p; cases q) auto
  then have "pass_ok True k ty ?f d (put_at e p (Symbol s)) (Suc d)"
    if "dups2_absorbs k t (get_at ?f q) = Some s" for s
    using get_pass_ok [OF P p(1)] get_pass_ok [OF P q] p(2) that
      pass_ok_absorb [of ?f p q k s d] g by simp
  with r P show ?thesis
    by (auto split: option.splits intro: pass_ok_trans)
qed

end

lemma dups2_pass_ok:
  assumes "expr_eliminate_dups2 k ty p1 p2 e c = Some (e', c')"
    and "binop ty" "on_chain ty e p1" "on_chain ty e p2"
  shows "pass_ok True k ty e c e' c'"
proof -
  let ?P = "\<lambda>k ty p1 p2 e c r. binop ty \<longrightarrow> on_chain ty e p1 \<longrightarrow> on_chain ty e p2 \<longrightarrow>
    pass_ok True k ty e c (fst r) (snd r)"
  have "?P k ty p1 p2 e c (e', c')"
  proof (rule expr_eliminate_dups2.raw_induct [where P = ?P, OF _ assms(1)], intro impI,
      goal_cases)
    case (1 f k ty p1 p2 e c r)
    note IH = 1(1) and r = 1(2) and b = 1(3) and p1 = 1(4) and p2 = 1(5)
    note bc = binary_chain.intro [OF b]
    show ?case
    proof (cases "etype (get_at e p1) = ty")
      case True
      with r obtain e1 c1 where L: "f k ty (p1 @ [DL]) p2 e c = Some (e1, c1)"
        and R: "f k ty (p1 @ [DR]) p2 e1 c1 = Some r"
        by (auto simp: bind_eq_Some_conv)
      have "on_chain ty e (p1 @ [DL]) \<Longrightarrow> pass_ok True k ty e c e1 c1"
        using IH [OF L] b p2 by simp
      moreover have "on_chain ty e1 (p1 @ [DR]) \<Longrightarrow> on_chain ty e1 p2 \<Longrightarrow>
          pass_ok True k ty e1 c1 (fst r) (snd r)"
        using IH [OF R] b by simp
      ultimately show ?thesis
        by (rule binary_chain.pass_ok_walk [OF bc p1 True p2])
    next
      case n: False
      with r obtain e1 c1 where
        i: "(if etype (get_at e p2) = ty then
             Option.bind (f k ty p1 (p2 @ [DL]) e c) (\<lambda>(e', c'). f k ty p1 (p2 @ [DR]) e' c')
           else Some (e, c)) = Some (e1, c1)"
        and j: "(if p1 = p2 then Some (e1, c1)
           else if binop (etype (get_at e1 p1)) then
             Option.bind (f k (etype (get_at e1 p1)) [] [] (get_at e1 p1) c1)
               (\<lambda>(t, d). case dups2_absorbs k t (get_at (put_at e1 p1 t) p2) of
                    None \<Rightarrow> Some (put_at e1 p1 t, d)
                  | Some s \<Rightarrow> Some (put_at e1 p1 (Symbol s), Suc d))
           else Some (e1, c1)) = Some r"
        by (auto simp: bind_eq_Some_conv)
      have P: "pass_ok True k ty e c e1 c1"
      proof (cases "etype (get_at e p2) = ty")
        case True
        with i obtain e2 c2 where L: "f k ty p1 (p2 @ [DL]) e c = Some (e2, c2)"
          and R: "f k ty p1 (p2 @ [DR]) e2 c2 = Some (e1, c1)"
          by (auto simp: bind_eq_Some_conv)
        have "on_chain ty e (p2 @ [DL]) \<Longrightarrow> pass_ok True k ty e c e2 c2"
          using IH [OF L] b p1 by simp
        moreover have "on_chain ty e2 (p2 @ [DR]) \<Longrightarrow> on_chain ty e2 p1 \<Longrightarrow>
            pass_ok True k ty e2 c2 e1 c1"
          using IH [OF R] b by simp
        ultimately show ?thesis
          by (rule binary_chain.pass_ok_walk [OF bc p2 True p1])
      next
        case False
        with i show ?thesis by (simp add: binary_chain.pass_ok_refl [OF bc])
      qed
      note g1 = binary_chain.get_pass_ok [OF bc P p1] and g2 = binary_chain.get_pass_ok [OF bc P p2]
      show ?thesis
      proof (cases "p1 \<noteq> p2 \<and> binop (etype (get_at e1 p1))")
        case True
        with j obtain t d where t: "f k (etype (get_at e1 p1)) [] [] (get_at e1 p1) c1 = Some (t, d)"
          and u: "(case dups2_absorbs k t (get_at (put_at e1 p1 t) p2) of
                    None \<Rightarrow> Some (put_at e1 p1 t, d)
                  | Some s \<Rightarrow> Some (put_at e1 p1 (Symbol s), Suc d)) = Some r"
          by (auto simp: bind_eq_Some_conv)
        have "pass_ok True k ty e1 c1 (fst r) (snd r)"
          using True n g1 g2 IH [OF t]
          by (intro binary_chain.pass_ok_operands2 [OF bc _ _ _ _ _ _ u]) auto
        with P show ?thesis by (rule binary_chain.pass_ok_trans [OF bc])
      next
        case False
        with j P show ?thesis by (auto split: if_splits)
      qed
    qed
  qed
  with assms show ?thesis by simp
qed

lemma dups2_returns:
  assumes "binop ty" "on_chain ty e p1" "on_chain ty e p2"
  shows "\<exists>e' c'. expr_eliminate_dups2 k ty p1 p2 e c = Some (e', c')"
  using assms
proof (induction "cost ty e" arbitrary: ty p1 p2 e c rule: less_induct)
  case outer: less
  define n where "n = cost ty e"
  have "cost ty e \<le> n" by (simp add: n_def)
  with outer.prems show ?case
  proof (induction "csize ty (get_at e p1) + csize ty (get_at e p2)" arbitrary: p1 p2 e c
      rule: less_induct)
    case (less p1 p2 e c)
    note b = less.prems(1) and p1 = less.prems(2) and p2 = less.prems(3)
    note bc = binary_chain.intro [OF b]
    note def = expr_eliminate_dups2.simps [of k ty p1 p2 e c]
    show ?case
    proof (cases "etype (get_at e p1) = ty")
      case left: True
      have l: "on_chain ty e (p1 @ [DL])" using binary_chain.on_chain_snoc [OF bc p1 left] .
      obtain e1 c1 where L: "expr_eliminate_dups2 k ty (p1 @ [DL]) p2 e c = Some (e1, c1)"
        using less.hyps [OF _ b l p2 less.prems(4), of c] csize_child [OF b left, of DL] by auto
      note P = after_pass [OF b dups2_pass_ok [OF L b l p2] p1 left p2]
      obtain e2 c2 where "expr_eliminate_dups2 k ty (p1 @ [DR]) p2 e1 c1 = Some (e2, c2)"
        using less.hyps [OF P(4) b P(1,2), of c1] P(3) less.prems(4) by auto
      with L left show ?thesis by (simp add: def)
    next
      case op: False
      obtain e2 c2 where 2: "(if etype (get_at e p2) = ty then
             Option.bind (expr_eliminate_dups2 k ty p1 (p2 @ [DL]) e c) (\<lambda>(e', c').
               expr_eliminate_dups2 k ty p1 (p2 @ [DR]) e' c')
           else Some (e, c)) = Some (e2, c2)"
        and P2: "pass_ok True k ty e c e2 c2"
      proof (cases "etype (get_at e p2) = ty")
        case right: True
        have l: "on_chain ty e (p2 @ [DL])" using binary_chain.on_chain_snoc [OF bc p2 right] .
        obtain e1 c1 where L: "expr_eliminate_dups2 k ty p1 (p2 @ [DL]) e c = Some (e1, c1)"
          using less.hyps [OF _ b p1 l less.prems(4), of c] csize_child [OF b right, of DL] by auto
        note L' = dups2_pass_ok [OF L b p1 l]
        note P = after_pass [OF b L' p2 right p1]
        obtain e2 c2 where R: "expr_eliminate_dups2 k ty p1 (p2 @ [DR]) e1 c1 = Some (e2, c2)"
          using less.hyps [OF _ b P(2,1), of c1] P(3,4) less.prems(4) by (auto simp: add.commute)
        with L right binary_chain.pass_ok_trans [OF bc L' dups2_pass_ok [OF R b P(2,1)]]
        show ?thesis by (intro that) simp_all
      next
        case False
        with binary_chain.pass_ok_refl [OF bc] show ?thesis by (intro that) auto
      qed
      note g1 = binary_chain.get_pass_ok [OF bc P2 p1]
      have "\<exists>t d. expr_eliminate_dups2 k (etype (get_at e2 p1)) [] [] (get_at e2 p1) c2 = Some (t, d)"
        if "binop (etype (get_at e2 p1))"
        using outer.hyps [OF _ that] cost_operand [OF b g1(1)] g1(2) op P2 less.prems(4)
        by (simp add: n_def pass_ok_def)
      with op 2 show ?thesis
        by (auto simp: def split: option.splits)
    qed
  qed
qed

section \<open>The loop\<close>

text \<open>One round of the loop: both passes over the outermost chain.\<close>

lemma dups_round:
  obtains e' c' where
    "(if binop (etype e) then
        Option.bind (expr_eliminate_dups1 k (etype e) [] [] e 0) (\<lambda>(e', c').
          expr_eliminate_dups2 k (etype e') [] [] e' c')
      else Some (e, 0)) = Some (e', c')"
    "c' = 0 \<longrightarrow> e' = e"
    "c' \<noteq> 0 \<longrightarrow> esize (expr_eliminate_yn e') < esize e"
    "kconf_ok k \<longrightarrow> two_valued k e \<longrightarrow>
       two_valued k e' \<and> expr_calc_value k e' = expr_calc_value k e"
proof (cases "binop (etype e)")
  case b: True
  note bc = binary_chain.intro [OF b]
  obtain e1 c1 where 1: "expr_eliminate_dups1 k (etype e) [] [] e 0 = Some (e1, c1)"
    using dups1_returns [OF b, of e "[]" "[]" k 0] by auto
  have P1: "pass_ok False k (etype e) e 0 e1 c1" by (rule dups1_pass_ok [OF 1 b]) simp_all
  have t: "etype e1 = etype e"
    using P1 binary_chain.same_chain_etype [OF bc, of e e1] by (simp add: pass_ok_def)
  obtain e2 c2 where 2: "expr_eliminate_dups2 k (etype e) [] [] e1 c1 = Some (e2, c2)"
    using dups2_returns [OF b, of e1 "[]" "[]" k c1] by auto
  have P2: "pass_ok True k (etype e) e1 c1 e2 c2" by (rule dups2_pass_ok [OF 2 b]) simp_all
  have "has_redex e2" if "c2 \<noteq> 0"
    using P1 P2 that by (cases "c2 = c1") (auto simp: pass_ok_def)
  then have "c2 \<noteq> 0 \<longrightarrow> esize (expr_eliminate_yn e2) < esize e"
    using P1 P2 eliminate_yn_shrinks [of e2] by (auto simp: pass_ok_def)
  with 1 2 t b P1 P2 show ?thesis by (intro that) (auto simp: pass_ok_def)
qed (rule that, auto)

lemma eliminate_yn_two_valued: "two_valued k e \<Longrightarrow> two_valued k (expr_eliminate_yn e)"
  by (induction e rule: expr_eliminate_yn.induct) (auto simp: Let_def)

lemma dups_loop:
  "\<exists>e'. expr_eliminate_dups k e = Some e' \<and> expr_eliminate_dups k e' = Some e'
     \<and> esize e' \<le> esize e
     \<and> (kconf_ok k \<longrightarrow> two_valued k e \<longrightarrow> expr_calc_value k e' = expr_calc_value k e)"
proof (induction "esize e" arbitrary: e rule: less_induct)
  case less
  obtain e' c' where r: "(if binop (etype e) then
        Option.bind (expr_eliminate_dups1 k (etype e) [] [] e 0) (\<lambda>(e', c').
          expr_eliminate_dups2 k (etype e') [] [] e' c')
      else Some (e, 0)) = Some (e', c')"
    and z: "c' = 0 \<longrightarrow> e' = e" and s: "c' \<noteq> 0 \<longrightarrow> esize (expr_eliminate_yn e') < esize e"
    and v: "kconf_ok k \<longrightarrow> two_valued k e \<longrightarrow>
       two_valued k e' \<and> expr_calc_value k e' = expr_calc_value k e"
    by (rule dups_round)
  have u: "expr_eliminate_dups k e
      = (if c' = 0 then Some e' else expr_eliminate_dups k (expr_eliminate_yn e'))"
    by (subst expr_eliminate_dups.simps) (simp add: r)
  show ?case
  proof (cases "c' = 0")
    case True
    with u z show ?thesis by (intro exI [of _ e]) simp
  next
    case False
    with less [of "expr_eliminate_yn e'"] s obtain f where
      f: "expr_eliminate_dups k (expr_eliminate_yn e') = Some f" "expr_eliminate_dups k f = Some f"
        "esize f \<le> esize (expr_eliminate_yn e')"
        "kconf_ok k \<longrightarrow> two_valued k (expr_eliminate_yn e') \<longrightarrow>
           expr_calc_value k f = expr_calc_value k (expr_eliminate_yn e')"
      by auto
    with False u v s show ?thesis
      by (auto simp: eliminate_yn_two_valued eliminate_yn_value kconf_ok_consts)
  qed
qed

declare expr_eliminate_dups1.simps [code] expr_eliminate_dups2.simps [code]
  expr_eliminate_dups.simps [code]

text \<open>
  C8. \<^verbatim>\<open>expr_eliminate_dups\<close> returns on every expression; it returns an expression that
  is no larger, and on which it has nothing left to do.
\<close>

theorem eliminate_dups_terminates:
  "\<exists>e'. expr_eliminate_dups k e = Some e' \<and> expr_eliminate_dups k e' = Some e' \<and> esize e' \<le> esize e"
  using dups_loop [of k e] by blast

text \<open>
  C4. On an expression over symbols that have the value n or y, \<^verbatim>\<open>expr_eliminate_dups\<close>
  returns an expression of the same value.
\<close>

theorem eliminate_dups_value:
  assumes "kconf_ok k" and "two_valued k e"
  obtains e' where "expr_eliminate_dups k e = Some e'"
    and "expr_calc_value k e' = expr_calc_value k e"
  using dups_loop [of k e] assms by blast

definition dups_example :: expr where
  "dups_example = And (Or (Symbol (Sym 0)) (Symbol (Sym 1)))
     (And (Not (Symbol (Sym 0))) (Not (Symbol (Sym 1))))"

definition dups_example_kconf :: "tristate \<Rightarrow> kconf" where
  "dups_example_kconf t = mk_kconf (\<lambda>n. valued_symbol S_TRISTATE (if n = 0 then t else No))"

lemma dups_example_ok: "kconf_ok (dups_example_kconf t)"
  by (auto simp: dups_example_kconf_def intro: mk_kconf_ok)

theorem eliminate_dups_value_witness:
  "\<exists>e'. kconf_ok (dups_example_kconf Yes) \<and> two_valued (dups_example_kconf Yes) dups_example
     \<and> expr_eliminate_dups (dups_example_kconf Yes) dups_example = Some e'
     \<and> expr_calc_value (dups_example_kconf Yes) e' = No"
proof -
  have "two_valued (dups_example_kconf Yes) dups_example"
    by (simp add: dups_example_def dups_example_kconf_def)
  moreover have "expr_calc_value (dups_example_kconf Yes) dups_example = No"
    by (simp add: dups_example_def dups_example_kconf_def)
  ultimately show ?thesis
    using eliminate_dups_value [OF dups_example_ok, of Yes dups_example] dups_example_ok [of Yes]
    by metis
qed


end
