(* ===== verification/Kconfig_Query.thy ===== *)
theory Kconfig_Query
  imports Kconfig_Dups
begin

text \<open>
  The functions of \<^verbatim>\<open>support/kconfig/expr.c\<close> that inspect an expression or rewrite it
  into a comparison: which symbols it mentions, whether it can only hold with a symbol set,
  comparison with a constant, and the leaf reported for an unmet dependency.
\<close>

section \<open>Definitions\<close>

fun expr_contains_symbol :: "expr \<Rightarrow> sym \<Rightarrow> bool" where
  "expr_contains_symbol (And l r) s \<longleftrightarrow> expr_contains_symbol l s \<or> expr_contains_symbol r s"
| "expr_contains_symbol (Or l r) s \<longleftrightarrow> expr_contains_symbol l s \<or> expr_contains_symbol r s"
| "expr_contains_symbol (Symbol a) s \<longleftrightarrow> a = s"
| "expr_contains_symbol (Equal a b) s \<longleftrightarrow> a = s \<or> b = s"
| "expr_contains_symbol (Unequal a b) s \<longleftrightarrow> a = s \<or> b = s"
| "expr_contains_symbol (Not e) s \<longleftrightarrow> expr_contains_symbol e s"
| "expr_contains_symbol _ s \<longleftrightarrow> False"

fun expr_depends_symbol :: "expr \<Rightarrow> sym \<Rightarrow> bool" where
  "expr_depends_symbol (And l r) s \<longleftrightarrow> expr_depends_symbol l s \<or> expr_depends_symbol r s"
| "expr_depends_symbol (Symbol a) s \<longleftrightarrow> a = s"
| "expr_depends_symbol (Equal a b) s \<longleftrightarrow> a = s \<and> (b = symbol_yes \<or> b = symbol_mod)"
| "expr_depends_symbol (Unequal a b) s \<longleftrightarrow> a = s \<and> b = symbol_no"
| "expr_depends_symbol _ s \<longleftrightarrow> False"

text \<open>
  \<^verbatim>\<open>expr_trans_compare\<close> on a non-null expression. \<open>None\<close> is the null pointer that is
  returned for an expression that cannot be compared; a binary node is then not built either.
\<close>

definition negate_if :: "expr_type \<Rightarrow> expr \<Rightarrow> expr" where
  "negate_if ty e = (if ty = E_UNEQUAL then Not e else e)"

definition compare_bool :: "expr_type \<Rightarrow> sym \<Rightarrow> expr \<Rightarrow> expr option" where
  "compare_bool ty s e =
     (if ty = E_EQUAL then
        (if s = symbol_yes then Some e
         else if s = symbol_mod then Some (Symbol symbol_no)
         else if s = symbol_no then Some (Not e)
         else None)
      else
        (if s = symbol_yes then Some (Not e)
         else if s = symbol_mod then Some (Symbol symbol_yes)
         else if s = symbol_no then Some e
         else None))"

fun expr_alloc_comp :: "expr_type \<Rightarrow> sym \<Rightarrow> sym \<Rightarrow> expr" where
  "expr_alloc_comp E_EQUAL a b = Equal a b"
| "expr_alloc_comp E_UNEQUAL a b = Unequal a b"
| "expr_alloc_comp _ a b = ENone"

fun expr_trans_compare :: "expr \<Rightarrow> expr_type \<Rightarrow> sym \<Rightarrow> expr option" where
  "expr_trans_compare (And l r) ty s =
     (case (expr_trans_compare l E_EQUAL s, expr_trans_compare r E_EQUAL s) of
        (Some e1, Some e2) \<Rightarrow> Some (negate_if ty
          (if s = symbol_yes then And e1 e2 else if s = symbol_no then Or e1 e2 else And l r))
      | _ \<Rightarrow> None)"
| "expr_trans_compare (Or l r) ty s =
     (case (expr_trans_compare l E_EQUAL s, expr_trans_compare r E_EQUAL s) of
        (Some e1, Some e2) \<Rightarrow> Some (negate_if ty
          (if s = symbol_yes then Or e1 e2 else if s = symbol_no then And e1 e2 else Or l r))
      | _ \<Rightarrow> None)"
| "expr_trans_compare (Not e) ty s =
     expr_trans_compare e (if ty = E_EQUAL then E_UNEQUAL else E_EQUAL) s"
| "expr_trans_compare (Equal a b) ty s = compare_bool ty s (Equal a b)"
| "expr_trans_compare (Unequal a b) ty s = compare_bool ty s (Unequal a b)"
| "expr_trans_compare (Symbol a) ty s = Some (expr_alloc_comp ty a s)"
| "expr_trans_compare _ ty s = None"

text \<open>The call on a pointer that may be null.\<close>

definition expr_trans_compare_null :: "expr option \<Rightarrow> expr_type \<Rightarrow> sym \<Rightarrow> expr option" where
  "expr_trans_compare_null e ty s =
     (case e of None \<Rightarrow> Some (negate_if ty (expr_alloc_symbol s)) | Some e' \<Rightarrow> expr_trans_compare e' ty s)"

text \<open>
  The loop of \<^verbatim>\<open>expr_get_leftmost_symbol\<close> follows \<^verbatim>\<open>left.expr\<close> until it meets
  an \<^verbatim>\<open>E_SYMBOL\<close>. On a comparison that member is a symbol, not an expression, so the
  read is outside the tree: \<open>None\<close>.
\<close>

fun expr_get_leftmost_symbol :: "expr \<Rightarrow> expr option" where
  "expr_get_leftmost_symbol (Symbol s) = Some (Symbol s)"
| "expr_get_leftmost_symbol (And l r) = expr_get_leftmost_symbol l"
| "expr_get_leftmost_symbol (Or l r) = expr_get_leftmost_symbol l"
| "expr_get_leftmost_symbol (Not e) = expr_get_leftmost_symbol e"
| "expr_get_leftmost_symbol (EList (Some e) s) = expr_get_leftmost_symbol e"
| "expr_get_leftmost_symbol _ = None"

text \<open>
  The outer \<open>option\<close> of the result is that read outside the tree (or a loop that does not
  return), the inner one the null pointer.
\<close>

fun expr_simplify_unmet_dep :: "kconf \<Rightarrow> expr \<Rightarrow> expr \<Rightarrow> expr option option" where
  "expr_simplify_unmet_dep k (Or l r) e2 =
     (case expr_simplify_unmet_dep k l e2 of None \<Rightarrow> None
      | Some a \<Rightarrow> (case expr_simplify_unmet_dep k r e2 of None \<Rightarrow> None
        | Some b \<Rightarrow> Some (expr_alloc_and a b)))"
| "expr_simplify_unmet_dep k (And l r) e2 =
     (case expr_eliminate_dups k (And (And l r) e2) of None \<Rightarrow> None
      | Some e \<Rightarrow> (if \<not> expr_eq e (And l r)
          then map_option Some (expr_get_leftmost_symbol (And l r)) else Some None))"
| "expr_simplify_unmet_dep k e1 e2 = map_option Some (expr_get_leftmost_symbol e1)"

section \<open>Mentioning a symbol\<close>

lemma contains_symbol_update:
  assumes "\<not> expr_contains_symbol e s" and "s \<noteq> modules_sym k"
  shows "expr_calc_value (k\<lparr>symtab := (symtab k)(s := x)\<rparr>) e = expr_calc_value k e"
  using assms
  by (induction e) (auto simp: sym_get_string_value_def sym_get_tristate_value_def)

lemma depends_symbol_set:
  assumes "kconf_ok k" and "stype (symtab k s) \<in> {S_BOOLEAN, S_TRISTATE}"
    and "expr_depends_symbol e s" and "expr_calc_value k e \<noteq> No"
  shows "tri (curr (symtab k s)) \<noteq> No"
  using assms(3,4)
proof (induction e)
  case (And l r)
  then show ?case by (auto simp: EXPR_AND_eq_No)
next
  case (Equal a b)
  with compare_const_value(1,2) [OF assms(1,2)] show ?case by (auto split: if_splits)
next
  case (Unequal a b)
  with compare_const_value(6) [OF assms(1,2)] show ?case by (auto split: if_splits)
qed auto

section \<open>Comparison with a constant\<close>

text \<open>Every symbol compared is boolean or tristate, so that its string spells its value.\<close>

fun typed_symbols :: "kconf \<Rightarrow> expr \<Rightarrow> bool" where
  "typed_symbols k (And l r) \<longleftrightarrow> typed_symbols k l \<and> typed_symbols k r"
| "typed_symbols k (Or l r) \<longleftrightarrow> typed_symbols k l \<and> typed_symbols k r"
| "typed_symbols k (Not e) \<longleftrightarrow> typed_symbols k e"
| "typed_symbols k (Symbol s) \<longleftrightarrow> stype (symtab k s) \<in> {S_BOOLEAN, S_TRISTATE}"
| "typed_symbols k e \<longleftrightarrow> etype e \<in> {E_EQUAL, E_UNEQUAL}"

definition truth :: "bool \<Rightarrow> tristate" where
  "truth b = (if b then Yes else No)"

lemma truth_ops [simp]:
  "EXPR_AND (truth a) (truth b) = truth (a \<and> b)" "EXPR_OR (truth a) (truth b) = truth (a \<or> b)"
  "EXPR_NOT (truth a) = truth (\<not> a)"
  by (simp_all add: truth_def)

lemma truth_not_Mod [simp]: "truth b \<noteq> Mod"
  by (simp add: truth_def)

lemma truth_eq [simp]: "truth b = Yes \<longleftrightarrow> b" "truth b = No \<longleftrightarrow> \<not> b"
  by (simp_all add: truth_def)

lemma two_valued_truth: "two_valued k e \<Longrightarrow> \<exists>b. expr_calc_value k e = truth b"
  using two_valued_calc [of k e] by (cases "expr_calc_value k e") (auto simp: truth_def)

lemma compare_bool_value:
  assumes "ty = E_EQUAL \<or> ty = E_UNEQUAL" and "expr_calc_value k e = truth b"
    and "s = symbol_yes \<and> t = Yes \<or> s = symbol_no \<and> t = No"
  shows "\<exists>e'. compare_bool ty s e = Some e'
     \<and> expr_calc_value k e' = truth ((truth b = t) = (ty = E_EQUAL))"
  using assms by (cases b) (auto simp: compare_bool_def truth_def)

lemma trans_compare_value:
  assumes "kconf_ok k" and "typed_symbols k e" and "two_valued k e"
    and "ty = E_EQUAL \<or> ty = E_UNEQUAL" and s: "s = symbol_yes \<and> t = Yes \<or> s = symbol_no \<and> t = No"
  shows "\<exists>e'. expr_trans_compare e ty s = Some e'
     \<and> expr_calc_value k e' = truth ((expr_calc_value k e = t) = (ty = E_EQUAL))"
  using assms(2-4)
proof (induction e arbitrary: ty)
  case (And l r)
  from And.IH(1) [of E_EQUAL] And.IH(2) [of E_EQUAL] And.prems(1,2) obtain e1 e2 where
    e: "expr_trans_compare l E_EQUAL s = Some e1" "expr_trans_compare r E_EQUAL s = Some e2"
      "expr_calc_value k e1 = truth (expr_calc_value k l = t)"
      "expr_calc_value k e2 = truth (expr_calc_value k r = t)"
    by auto
  obtain a b where "expr_calc_value k l = truth a" "expr_calc_value k r = truth b"
    using two_valued_truth And.prems(2) by (metis two_valued.simps(1))
  with e s And.prems(3) show ?case by (cases a; cases b) (auto simp: negate_if_def)
next
  case (Or l r)
  from Or.IH(1) [of E_EQUAL] Or.IH(2) [of E_EQUAL] Or.prems(1,2) obtain e1 e2 where
    e: "expr_trans_compare l E_EQUAL s = Some e1" "expr_trans_compare r E_EQUAL s = Some e2"
      "expr_calc_value k e1 = truth (expr_calc_value k l = t)"
      "expr_calc_value k e2 = truth (expr_calc_value k r = t)"
    by auto
  obtain a b where "expr_calc_value k l = truth a" "expr_calc_value k r = truth b"
    using two_valued_truth Or.prems(2) by (metis two_valued.simps(2))
  with e s Or.prems(3) show ?case by (cases a; cases b) (auto simp: negate_if_def)
next
  case (Not e)
  obtain a where "expr_calc_value k e = truth a" using two_valued_truth Not.prems(2) by auto
  with Not.IH [of "if ty = E_EQUAL then E_UNEQUAL else E_EQUAL"] Not.prems s show ?case by auto
next
  case (Equal a b)
  have "expr_calc_value k (Equal a b) = truth (sym_get_string_value k a = sym_get_string_value k b)"
    by (simp add: truth_def)
  from compare_bool_value [OF Equal.prems(3) this s] this show ?case by auto
next
  case (Unequal a b)
  have "expr_calc_value k (Unequal a b) = truth (sym_get_string_value k a \<noteq> sym_get_string_value k b)"
    by (simp add: truth_def)
  from compare_bool_value [OF Unequal.prems(3) this s] this show ?case by auto
next
  case (Symbol a)
  with compare_const_value [OF assms(1), of a] s show ?case by (auto simp: truth_def)
qed auto

section \<open>The leaf of an unmet dependency\<close>

text \<open>Expressions without comparisons: every leaf is a symbol.\<close>

fun symbols_only :: "expr \<Rightarrow> bool" where
  "symbols_only (And l r) \<longleftrightarrow> symbols_only l \<and> symbols_only r"
| "symbols_only (Or l r) \<longleftrightarrow> symbols_only l \<and> symbols_only r"
| "symbols_only (Not e) \<longleftrightarrow> symbols_only e"
| "symbols_only e \<longleftrightarrow> etype e = E_SYMBOL"

lemma leftmost_symbol:
  "symbols_only e \<Longrightarrow> \<exists>s. expr_get_leftmost_symbol e = Some (Symbol s) \<and> expr_contains_symbol e s"
  by (induction e rule: expr_get_leftmost_symbol.induct) auto

lemma simplify_unmet_dep_ok:
  "symbols_only e1 \<Longrightarrow>
     \<exists>r. expr_simplify_unmet_dep k e1 e2 = Some r
       \<and> (\<forall>e s. r = Some e \<longrightarrow> expr_contains_symbol e s \<longrightarrow> expr_contains_symbol e1 s)"
proof (induction k e1 e2 rule: expr_simplify_unmet_dep.induct)
  case (1 k l r e2)
  then obtain a b where
    a: "expr_simplify_unmet_dep k l e2 = Some a"
      "\<forall>e s. a = Some e \<longrightarrow> expr_contains_symbol e s \<longrightarrow> expr_contains_symbol l s"
    and b: "expr_simplify_unmet_dep k r e2 = Some b"
      "\<forall>e s. b = Some e \<longrightarrow> expr_contains_symbol e s \<longrightarrow> expr_contains_symbol r s"
    by fastforce
  then show ?case by (cases a; cases b) auto
next
  case (2 k l r e2)
  then show ?case
    using leftmost_symbol [of "And l r"] dups_loop [of k "And (And l r) e2"] by fastforce
qed (use leftmost_symbol in fastforce)+

section \<open>Properties\<close>

text \<open>
  C16. An expression that depends on a symbol (\<^verbatim>\<open>expr_depends_symbol\<close>) is n whenever the
  symbol, boolean or tristate, is n.
\<close>

theorem depends_symbol_sound:
  assumes "kconf_ok k" and "stype (symtab k s) \<in> {S_BOOLEAN, S_TRISTATE}"
    and "expr_depends_symbol e s" and "tri (curr (symtab k s)) = No"
  shows "expr_calc_value k e = No"
  using depends_symbol_set [OF assms(1-3)] assms(4) by blast

definition depends_example :: expr where
  "depends_example = And (Or (Symbol (Sym 1)) (Symbol (Sym 2))) (Unequal (Sym 0) symbol_no)"

theorem depends_symbol_sound_witness:
  "expr_calc_value (mk_kconf (\<lambda>n. valued_symbol S_TRISTATE (if n = 0 then No else Yes))) depends_example = No"
  by (rule depends_symbol_sound [of _ "Sym 0"])
     (auto simp: depends_example_def intro!: mk_kconf_ok)

text \<open>
  An expression does not change its value when a symbol changes that it does not contain
  (\<^verbatim>\<open>expr_contains_symbol\<close>), the symbol that enables modules apart.
\<close>

lemma contains_symbol_frame:
  assumes "\<not> expr_contains_symbol e s" and "s \<noteq> modules_sym k"
  shows "expr_calc_value (k\<lparr>symtab := (symtab k)(s := x)\<rparr>) e = expr_calc_value k e"
  using assms by (rule contains_symbol_update)

lemma contains_symbol_frame_witness:
  "expr_calc_value ((mk_kconf (\<lambda>_. valued_symbol S_TRISTATE Yes))
     \<lparr>symtab := (symtab (mk_kconf (\<lambda>_. valued_symbol S_TRISTATE Yes)))(Sym 7 := valued_symbol S_TRISTATE Mod)\<rparr>)
     depends_example = Yes"
proof -
  have "\<not> expr_contains_symbol depends_example (Sym 7)" by (simp add: depends_example_def)
  moreover have "expr_calc_value (mk_kconf (\<lambda>_. valued_symbol S_TRISTATE Yes)) depends_example = Yes"
    by code_simp
  ultimately show ?thesis
    using contains_symbol_frame [of depends_example "Sym 7" "mk_kconf (\<lambda>_. valued_symbol S_TRISTATE Yes)"]
    by simp
qed

text \<open>
  C15. On expressions whose symbols are all n or y, \<^verbatim>\<open>expr_trans_compare\<close> with the
  constant \<^verbatim>\<open>y\<close> or \<^verbatim>\<open>n\<close> gives an expression that is y exactly when the comparison
  holds, and n otherwise.
\<close>

theorem trans_compare_correct:
  assumes "kconf_ok k" and "typed_symbols k e" and "two_valued k e"
    and "ty = E_EQUAL \<or> ty = E_UNEQUAL" and "s = symbol_yes \<and> t = Yes \<or> s = symbol_no \<and> t = No"
  shows "\<exists>e'. expr_trans_compare e ty s = Some e'
     \<and> expr_calc_value k e' = truth ((expr_calc_value k e = t) = (ty = E_EQUAL))"
  using assms by (rule trans_compare_value)

theorem trans_compare_correct_witness:
  "\<exists>e'. expr_trans_compare (Not (Or (Symbol (Sym 0)) (Equal (Sym 1) (Sym 2)))) E_UNEQUAL symbol_no = Some e'
     \<and> expr_calc_value (mk_kconf (\<lambda>n. valued_symbol S_BOOLEAN (if n = 1 then Yes else No))) e' = Yes"
proof -
  let ?k = "mk_kconf (\<lambda>n. valued_symbol S_BOOLEAN (if n = 1 then Yes else No))"
  have "kconf_ok ?k" by (rule mk_kconf_ok) auto
  moreover have "typed_symbols ?k (Not (Or (Symbol (Sym 0)) (Equal (Sym 1) (Sym 2))))"
    "two_valued ?k (Not (Or (Symbol (Sym 0)) (Equal (Sym 1) (Sym 2))))" by simp_all
  moreover have "expr_calc_value ?k (Not (Or (Symbol (Sym 0)) (Equal (Sym 1) (Sym 2)))) = Yes" by code_simp
  ultimately show ?thesis
    using trans_compare_correct [of ?k _ E_UNEQUAL symbol_no No] by (fastforce simp: truth_def)
qed

text \<open>
  For a tristate symbol that is m the comparison of a negation is wrong: \<^verbatim>\<open>!A != n\<close>
  holds for \<open>A = m\<close>, but is rewritten into \<^verbatim>\<open>A = n\<close>, which does not.
\<close>

lemma trans_compare_not_tristate:
  "expr_calc_value (dups_example_kconf Mod) (Not (Symbol (Sym 0))) \<noteq> No
   \<and> expr_trans_compare (Not (Symbol (Sym 0))) E_UNEQUAL symbol_no = Some (Equal (Sym 0) symbol_no)
   \<and> expr_calc_value (dups_example_kconf Mod) (Equal (Sym 0) symbol_no) = No"
  by code_simp

text \<open>
  C17. For dependencies without comparisons \<^verbatim>\<open>expr_simplify_unmet_dep\<close> returns, never
  reads outside the tree, and reports only symbols of the first expression.
\<close>

theorem simplify_unmet_dep_safe:
  assumes "symbols_only e1"
  shows "\<exists>r. expr_simplify_unmet_dep k e1 e2 = Some r
       \<and> (\<forall>e s. r = Some e \<longrightarrow> expr_contains_symbol e s \<longrightarrow> expr_contains_symbol e1 s)"
  using assms by (rule simplify_unmet_dep_ok)

theorem simplify_unmet_dep_safe_witness:
  "\<exists>r. expr_simplify_unmet_dep (dups_example_kconf Yes) (Or (Symbol (Sym 0)) (And (Symbol (Sym 1)) (Symbol (Sym 2))))
     (Symbol (Sym 3)) = Some r"
  using simplify_unmet_dep_safe [of "Or (Symbol (Sym 0)) (And (Symbol (Sym 1)) (Symbol (Sym 2)))"] by fastforce


end
