(* ===== verification/Kconfig_Print.thy ===== *)
theory Kconfig_Print
  imports Kconfig_Query
begin

text \<open>
  Printing of expressions (\<^verbatim>\<open>expr_print\<close> of \<^verbatim>\<open>support/kconfig/expr.c\<close>) into a file or
  a growable string (\<^verbatim>\<open>support/kconfig/util.c\<close>), and the expression grammar of
  \<^verbatim>\<open>support/kconfig/zconf.y\<close>, which reads a printed expression back.
\<close>

section \<open>Printing\<close>

text \<open>The cases of the \<^verbatim>\<open>switch\<close> fall through, so each type continues with the next.\<close>

definition expr_compare_type :: "expr_type \<Rightarrow> expr_type \<Rightarrow> int" where
  "expr_compare_type t1 t2 =
     (if t1 = t2 then 0
      else if t1 \<in> {E_EQUAL, E_UNEQUAL} \<and> t2 = E_NOT then 1
      else if t1 \<in> {E_EQUAL, E_UNEQUAL, E_NOT} \<and> t2 = E_AND then 1
      else if t1 \<in> {E_EQUAL, E_UNEQUAL, E_NOT, E_AND} \<and> t2 = E_OR then 1
      else if t1 \<in> {E_EQUAL, E_UNEQUAL, E_NOT, E_AND, E_OR} \<and> t2 = E_LIST then 1
      else if t1 \<in> {E_EQUAL, E_UNEQUAL, E_NOT, E_AND, E_OR, E_LIST} \<and> t2 = E_NONE then 1
      else -1)"

text \<open>
  The output is the list of calls of \<^verbatim>\<open>fn\<close>: the symbol argument and the string argument,
  either of which may be null.
\<close>

type_synonym call = "sym option \<times> string option"

definition out :: "string \<Rightarrow> call" where
  "out s = (None, Some s)"

definition out_name :: "kconf \<Rightarrow> sym \<Rightarrow> call" where
  "out_name k s = (Some s, sname (symtab k s))"

definition out_left :: "kconf \<Rightarrow> sym \<Rightarrow> call" where
  "out_left k s = (if sname (symtab k s) \<noteq> None then out_name k s else out ''<choice>'')"

fun expr_print :: "kconf \<Rightarrow> expr \<Rightarrow> expr_type \<Rightarrow> call list" where
  "expr_print k (Symbol s) prevtoken = [out_left k s]"
| "expr_print k (Not e) prevtoken =
     (if expr_compare_type prevtoken E_NOT > 0 then [out ''(''] else [])
     @ [out ''!''] @ expr_print k e E_NOT
     @ (if expr_compare_type prevtoken E_NOT > 0 then [out '')''] else [])"
| "expr_print k (Equal a b) prevtoken =
     (if expr_compare_type prevtoken E_EQUAL > 0 then [out ''(''] else [])
     @ [out_left k a, out ''='', out_name k b]
     @ (if expr_compare_type prevtoken E_EQUAL > 0 then [out '')''] else [])"
| "expr_print k (Unequal a b) prevtoken =
     (if expr_compare_type prevtoken E_UNEQUAL > 0 then [out ''(''] else [])
     @ [out_left k a, out ''!='', out_name k b]
     @ (if expr_compare_type prevtoken E_UNEQUAL > 0 then [out '')''] else [])"
| "expr_print k (Or l r) prevtoken =
     (if expr_compare_type prevtoken E_OR > 0 then [out ''(''] else [])
     @ expr_print k l E_OR @ [out '' || ''] @ expr_print k r E_OR
     @ (if expr_compare_type prevtoken E_OR > 0 then [out '')''] else [])"
| "expr_print k (And l r) prevtoken =
     (if expr_compare_type prevtoken E_AND > 0 then [out ''(''] else [])
     @ expr_print k l E_AND @ [out '' && ''] @ expr_print k r E_AND
     @ (if expr_compare_type prevtoken E_AND > 0 then [out '')''] else [])"
| "expr_print k (EList l s) prevtoken =
     (if expr_compare_type prevtoken E_LIST > 0 then [out ''(''] else [])
     @ [case s of None \<Rightarrow> (None, None) | Some s' \<Rightarrow> out_name k s']
     @ (case l of None \<Rightarrow> [] | Some e \<Rightarrow> out '' ^ '' # expr_print k e E_LIST)
     @ (if expr_compare_type prevtoken E_LIST > 0 then [out '')''] else [])"
| "expr_print k (Range a b) prevtoken =
     (if expr_compare_type prevtoken E_RANGE > 0 then [out ''(''] else [])
     @ [out ''['', out_name k a, out '' '', out_name k b, out '']'']
     @ (if expr_compare_type prevtoken E_RANGE > 0 then [out '')''] else [])"
| "expr_print k ENone prevtoken =
     (if expr_compare_type prevtoken E_NONE > 0 then [out ''(''] else [])
     @ [out ''<unknown type 0>'']
     @ (if expr_compare_type prevtoken E_NONE > 0 then [out '')''] else [])"

definition expr_print_null :: "kconf \<Rightarrow> expr option \<Rightarrow> expr_type \<Rightarrow> call list" where
  "expr_print_null k e prevtoken = (case e of None \<Rightarrow> [out ''y''] | Some e' \<Rightarrow> expr_print k e' prevtoken)"

text \<open>\<open>None\<close> is the call of \<^verbatim>\<open>strlen\<close> on a null name.\<close>

fun expr_print_file_helper :: "call \<Rightarrow> string \<Rightarrow> string option" where
  "expr_print_file_helper (s, Some str) file = Some (file @ str)"
| "expr_print_file_helper (s, None) file = None"

primrec run_calls :: "('a \<Rightarrow> 'b \<Rightarrow> 'b option) \<Rightarrow> 'a list \<Rightarrow> 'b \<Rightarrow> 'b option" where
  "run_calls fn [] data = Some data"
| "run_calls fn (c # cs) data = (case fn c data of None \<Rightarrow> None | Some d \<Rightarrow> run_calls fn cs d)"

definition expr_fprint :: "kconf \<Rightarrow> expr option \<Rightarrow> string \<Rightarrow> string option" where
  "expr_fprint k e file = run_calls expr_print_file_helper (expr_print_null k e E_NONE) file"

section \<open>Growable strings\<close>

record gstr =
  gs_s :: string
  gs_len :: nat
  max_width :: nat

definition str_new :: gstr where
  "str_new = \<lparr>gs_s = [], gs_len = 64, max_width = 0\<rparr>"

definition str_assign :: "string \<Rightarrow> gstr" where
  "str_assign s = \<lparr>gs_s = s, gs_len = length s + 1, max_width = 0\<rparr>"

definition str_append :: "gstr \<Rightarrow> string option \<Rightarrow> gstr" where
  "str_append gs s = (case s of None \<Rightarrow> gs
     | Some s' \<Rightarrow>
        (let l = length (gs_s gs) + length s' + 1;
             gs' = (if l > gs_len gs then gs\<lparr>gs_len := l\<rparr> else gs)
         in gs'\<lparr>gs_s := gs_s gs @ s'\<rparr>))"

text \<open>The formatted text is cut to the 9999 characters that fit the local buffer.\<close>

definition str_printf :: "gstr \<Rightarrow> string \<Rightarrow> gstr" where
  "str_printf gs formatted = str_append gs (Some (take 9999 formatted))"

definition last_line_length :: "string \<Rightarrow> nat" where
  "last_line_length s =
     (if CHR 0x0A \<in> set s then Suc (length (takeWhile (\<lambda>c. c \<noteq> CHR 0x0A) (rev s))) else length s)"

fun sval_str :: "sval \<Rightarrow> string option" where
  "sval_str (V_str s) = Some s"
| "sval_str _ = None"

definition expr_print_gstr_helper :: "kconf \<Rightarrow> call \<Rightarrow> gstr \<Rightarrow> gstr option" where
  "expr_print_gstr_helper k c gs =
     (case c of (sy, str) \<Rightarrow>
      let sym_str = (case sy of None \<Rightarrow> None | Some s \<Rightarrow> sval_str (sym_get_string_value k s));
          tail = (\<lambda>gs.
            let gs1 = str_append gs str
            in (case sy of None \<Rightarrow> gs1
                | Some s \<Rightarrow> if stype (symtab k s) \<noteq> S_UNKNOWN
                    then str_printf gs1 ('' [='' @ (case sym_str of None \<Rightarrow> ''(null)'' | Some t \<Rightarrow> t) @ '']'')
                    else gs1))
      in if max_width gs = 0 then Some (tail gs)
         else (case str of None \<Rightarrow> None
           | Some t \<Rightarrow>
              (let extra = length t + (case sym_str of None \<Rightarrow> 0 | Some v \<Rightarrow> 4 + length v)
               in Some (tail (if last_line_length (gs_s gs) + extra > max_width gs
                              then str_append gs (Some [CHR 0x5C, CHR 0x0A]) else gs)))))"

definition expr_gstr_print :: "kconf \<Rightarrow> expr option \<Rightarrow> gstr \<Rightarrow> gstr option" where
  "expr_gstr_print k e gs = run_calls (expr_print_gstr_helper k) (expr_print_null k e E_NONE) gs"

section \<open>The expression grammar\<close>

datatype token =
    T_OR | T_AND | T_NOT | T_EQUAL | T_UNEQUAL | T_OPEN_PAREN | T_CLOSE_PAREN | T_WORD sym

text \<open>
  The token the scanner makes of one printed piece. A word stands for the symbol that
  \<^verbatim>\<open>sym_lookup\<close> finds under its name.
\<close>

definition token_of :: "call \<Rightarrow> token option" where
  "token_of c = (case c of
       (Some s, _) \<Rightarrow> Some (T_WORD s)
     | (None, Some str) \<Rightarrow>
         (if str = '' || '' then Some T_OR else if str = '' && '' then Some T_AND
          else if str = ''!'' then Some T_NOT else if str = ''='' then Some T_EQUAL
          else if str = ''!='' then Some T_UNEQUAL else if str = ''('' then Some T_OPEN_PAREN
          else if str = '')'' then Some T_CLOSE_PAREN else None)
     | (None, None) \<Rightarrow> None)"

text \<open>
  The rules for \<^verbatim>\<open>expr\<close> with the declared precedences: \<^verbatim>\<open>T_OR\<close> and
  \<^verbatim>\<open>T_AND\<close> associate to the left, \<^verbatim>\<open>T_AND\<close> binds tighter, \<^verbatim>\<open>T_NOT\<close>
  tightest. A goal is what the parser reads next; the first argument bounds the recursion.
\<close>

datatype goal = Operand | AndLevel | AndRest expr | OrLevel | OrRest expr

fun parse_comp :: "sym \<Rightarrow> token list \<Rightarrow> expr \<times> token list" where
  "parse_comp a (T_EQUAL # T_WORD b # r) = (Equal a b, r)"
| "parse_comp a (T_UNEQUAL # T_WORD b # r) = (Unequal a b, r)"
| "parse_comp a r = (Symbol a, r)"

fun parse_expr :: "nat \<Rightarrow> goal \<Rightarrow> token list \<Rightarrow> (expr \<times> token list) option" where
  "parse_expr 0 g ts = None"
| "parse_expr (Suc n) Operand ts =
     (case ts of
        T_NOT # ts' \<Rightarrow> Option.bind (parse_expr n Operand ts') (\<lambda>(e, r). Some (Not e, r))
      | T_OPEN_PAREN # ts' \<Rightarrow>
          (case parse_expr n OrLevel ts' of
             Some (e, T_CLOSE_PAREN # r) \<Rightarrow> Some (e, r) | _ \<Rightarrow> None)
      | T_WORD a # r \<Rightarrow> Some (parse_comp a r)
      | _ \<Rightarrow> None)"
| "parse_expr (Suc n) AndLevel ts =
     Option.bind (parse_expr n Operand ts) (\<lambda>(e, r). parse_expr n (AndRest e) r)"
| "parse_expr (Suc n) (AndRest e) ts =
     (case ts of
        T_AND # ts' \<Rightarrow>
          Option.bind (parse_expr n Operand ts') (\<lambda>(f, r). parse_expr n (AndRest (And e f)) r)
      | _ \<Rightarrow> Some (e, ts))"
| "parse_expr (Suc n) OrLevel ts =
     Option.bind (parse_expr n AndLevel ts) (\<lambda>(e, r). parse_expr n (OrRest e) r)"
| "parse_expr (Suc n) (OrRest e) ts =
     (case ts of
        T_OR # ts' \<Rightarrow>
          Option.bind (parse_expr n AndLevel ts') (\<lambda>(f, r). parse_expr n (OrRest (Or e f)) r)
      | _ \<Rightarrow> Some (e, ts))"

section \<open>Growable strings hold what is appended\<close>

definition gstr_ok :: "gstr \<Rightarrow> bool" where
  "gstr_ok gs \<longleftrightarrow> length (gs_s gs) < gs_len gs"

lemma gstr_ok_new: "gstr_ok str_new" "gstr_ok (str_assign s)"
  by (simp_all add: gstr_ok_def str_new_def str_assign_def)

lemma str_append_ok: "gstr_ok gs \<Longrightarrow> gstr_ok (str_append gs s)"
  by (auto simp: gstr_ok_def str_append_def Let_def split: option.splits)

lemma str_append_s [simp]:
  "gs_s (str_append gs s) = gs_s gs @ (case s of None \<Rightarrow> [] | Some t \<Rightarrow> t)"
  "max_width (str_append gs s) = max_width gs"
  by (auto simp: str_append_def Let_def split: option.splits)

lemma gstr_helper_ok:
  "gstr_ok gs \<Longrightarrow> expr_print_gstr_helper k c gs = Some gs' \<Longrightarrow>
     gstr_ok gs' \<and> max_width gs' = max_width gs"
  by (auto simp: expr_print_gstr_helper_def str_printf_def Let_def str_append_ok
      split: prod.splits option.splits if_splits)

lemma run_calls_invariant:
  assumes "\<And>c d d'. I d \<Longrightarrow> fn c d = Some d' \<Longrightarrow> I d'"
  shows "I d \<Longrightarrow> run_calls fn cs d = Some d' \<Longrightarrow> I d'"
  by (induction cs arbitrary: d) (auto intro: assms split: option.splits)

lemma gstr_print_ok:
  "gstr_ok gs \<Longrightarrow> expr_gstr_print k e gs = Some gs' \<Longrightarrow> gstr_ok gs' \<and> max_width gs' = max_width gs"
  unfolding expr_gstr_print_def
  by (rule run_calls_invariant [where I = "\<lambda>g. gstr_ok g \<and> max_width g = max_width gs"])
     (auto dest: gstr_helper_ok)

section \<open>A printed expression is read back with its value\<close>

lemma parse_expr_mono: "n \<le> m \<Longrightarrow> parse_expr n g ts = Some x \<Longrightarrow> parse_expr m g ts = Some x"
proof (induction n arbitrary: m g ts x)
  case (Suc n)
  from Suc.prems(1) obtain m' where m: "m = Suc m'" "n \<le> m'" by (cases m) auto
  note ih = Suc.IH [OF m(2)] and prem = Suc.prems(2)
  show ?case
  proof (cases g)
    case Operand
    with prem m show ?thesis
      by (fastforce simp: bind_eq_Some_conv dest: ih split: list.splits token.splits option.splits)
  next
    case AndLevel
    with prem m show ?thesis by (fastforce simp: bind_eq_Some_conv dest: ih)
  next
    case (AndRest e)
    with prem m show ?thesis by (fastforce simp: bind_eq_Some_conv dest: ih split: list.splits token.splits)
  next
    case OrLevel
    with prem m show ?thesis by (fastforce simp: bind_eq_Some_conv dest: ih)
  next
    case (OrRest e)
    with prem m show ?thesis by (fastforce simp: bind_eq_Some_conv dest: ih split: list.splits token.splits)
  qed
qed simp

definition reads :: "goal \<Rightarrow> token list \<Rightarrow> expr \<times> token list \<Rightarrow> bool" where
  "reads g ts x \<longleftrightarrow> (\<exists>n. parse_expr n g ts = Some x)"

lemma reads_step2:
  assumes "reads g1 ts1 x1" and "reads g2 ts2 x2"
    and step: "\<And>n. parse_expr n g1 ts1 = Some x1 \<Longrightarrow> parse_expr n g2 ts2 = Some x2 \<Longrightarrow>
        parse_expr (Suc n) g ts = Some x"
  shows "reads g ts x"
proof -
  from assms(1,2) obtain n m where "parse_expr n g1 ts1 = Some x1" "parse_expr m g2 ts2 = Some x2"
    by (auto simp: reads_def)
  then have "parse_expr (max n m) g1 ts1 = Some x1" "parse_expr (max n m) g2 ts2 = Some x2"
    by (auto intro: parse_expr_mono [of n] parse_expr_mono [of m] simp del: parse_expr.simps)
  then show ?thesis using step unfolding reads_def by blast
qed

lemma reads_step:
  assumes "reads g1 ts1 x1"
    and "\<And>n. parse_expr n g1 ts1 = Some x1 \<Longrightarrow> parse_expr (Suc n) g ts = Some x"
  shows "reads g ts x"
  by (rule reads_step2 [OF assms(1,1,2)])

lemma reads_operand:
  "reads Operand ts (e, r) \<Longrightarrow> reads Operand (T_NOT # ts) (Not e, r)"
  "reads OrLevel ts (e, T_CLOSE_PAREN # r) \<Longrightarrow> reads Operand (T_OPEN_PAREN # ts) (e, r)"
  by (erule reads_step, simp)+

lemma reads_level:
  "reads Operand ts (e, r) \<Longrightarrow> reads (AndRest e) r x \<Longrightarrow> reads AndLevel ts x"
  "reads Operand ts (f, r) \<Longrightarrow> reads (AndRest (And e f)) r x \<Longrightarrow> reads (AndRest e) (T_AND # ts) x"
  "reads AndLevel ts (e, r) \<Longrightarrow> reads (OrRest e) r x \<Longrightarrow> reads OrLevel ts x"
  "reads AndLevel ts (f, r) \<Longrightarrow> reads (OrRest (Or e f)) r x \<Longrightarrow> reads (OrRest e) (T_OR # ts) x"
  by (erule reads_step2, assumption, simp)+

text \<open>What may follow an operand, a conjunction and a disjunction in a larger expression.\<close>

definition follows :: "token set \<Rightarrow> token list \<Rightarrow> bool" where
  "follows T ts \<longleftrightarrow> ts = [] \<or> hd ts \<in> T"

lemma reads_word: "follows {T_AND, T_OR, T_CLOSE_PAREN} r \<Longrightarrow> reads Operand (T_WORD a # r) (Symbol a, r)"
  and reads_comp: "reads Operand (T_WORD a # T_EQUAL # T_WORD b # r) (Equal a b, r)"
    "reads Operand (T_WORD a # T_UNEQUAL # T_WORD b # r) (Unequal a b, r)"
  unfolding reads_def follows_def
  by (rule exI [of _ "Suc 0"], cases r; auto)+

lemma reads_rest:
  "follows {T_OR, T_CLOSE_PAREN} r \<Longrightarrow> reads (AndRest e) r (e, r)"
  "follows {T_CLOSE_PAREN} r \<Longrightarrow> reads (OrRest e) r (e, r)"
  unfolding reads_def follows_def
  by (rule exI [of _ "Suc 0"], cases r; auto)+

text \<open>
  A token list that reads as an operand, as a part of a conjunction, as a part of a disjunction
  and as a whole expression with the value of \<open>e\<close> in every state.
\<close>

definition same_value :: "expr \<Rightarrow> expr \<Rightarrow> bool" where
  "same_value f e \<longleftrightarrow> (\<forall>k. expr_calc_value k f = expr_calc_value k e)"

definition opnd :: "token list \<Rightarrow> expr \<Rightarrow> bool" where
  "opnd ts e \<longleftrightarrow> (\<forall>r. follows {T_AND, T_OR, T_CLOSE_PAREN} r \<longrightarrow>
     (\<exists>f. same_value f e \<and> reads Operand (ts @ r) (f, r)))"

definition chain :: "goal \<Rightarrow> (expr \<Rightarrow> goal) \<Rightarrow> token \<Rightarrow> (expr \<Rightarrow> expr \<Rightarrow> expr) \<Rightarrow> token set \<Rightarrow>
    token list \<Rightarrow> expr \<Rightarrow> bool" where
  "chain Level Rest tok mk T ts e \<longleftrightarrow> (\<forall>r. follows T r \<longrightarrow>
     (\<exists>f. same_value f e \<and> (\<forall>x. reads (Rest f) r x \<longrightarrow> reads Level (ts @ r) x))
     \<and> (\<forall>a. \<exists>f. same_value f (mk a e)
          \<and> (\<forall>x. reads (Rest f) r x \<longrightarrow> reads (Rest a) (tok # ts @ r) x)))"

definition andl :: "token list \<Rightarrow> expr \<Rightarrow> bool" where
  "andl = chain AndLevel AndRest T_AND And {T_AND, T_OR, T_CLOSE_PAREN}"

definition orl :: "token list \<Rightarrow> expr \<Rightarrow> bool" where
  "orl = chain OrLevel OrRest T_OR Or {T_OR, T_CLOSE_PAREN}"

definition whole :: "token list \<Rightarrow> expr \<Rightarrow> bool" where
  "whole ts e \<longleftrightarrow> (\<forall>r. follows {T_CLOSE_PAREN} r \<longrightarrow>
     (\<exists>f. same_value f e \<and> reads OrLevel (ts @ r) (f, r)))"

lemma same_value_refl: "same_value e e"
  by (simp add: same_value_def)

lemma same_value_cong:
  "same_value f e \<Longrightarrow> same_value (Not f) (Not e)"
  "same_value f e \<Longrightarrow> same_value (And a f) (And a e)"
  "same_value f e \<Longrightarrow> same_value (Or a f) (Or a e)"
  by (simp_all add: same_value_def)

lemma follows_weaken: "follows S r \<Longrightarrow> S \<subseteq> T \<Longrightarrow> follows T r"
  by (auto simp: follows_def)

lemma opnd_andl: "opnd ts e \<Longrightarrow> andl ts e"
  unfolding opnd_def andl_def chain_def by (meson reads_level same_value_cong)

lemma andl_orl: "andl ts e \<Longrightarrow> orl ts e"
  unfolding andl_def orl_def chain_def
  by (intro allI impI) (meson reads_level(3,4) reads_rest(1) same_value_cong
      follows_weaken [of "{T_OR, T_CLOSE_PAREN}" _ "{T_AND, T_OR, T_CLOSE_PAREN}"] subset_insertI)

lemma orl_whole: "orl ts e \<Longrightarrow> whole ts e"
  unfolding orl_def whole_def chain_def
  by (meson reads_rest(2) follows_weaken [of "{T_CLOSE_PAREN}" _ "{T_OR, T_CLOSE_PAREN}"] subset_insertI)

lemma whole_paren: 
  assumes "whole ts e"
  shows "opnd (T_OPEN_PAREN # ts @ [T_CLOSE_PAREN]) e"
  unfolding opnd_def
proof (intro allI impI)
  fix r
  have "follows {T_CLOSE_PAREN} (T_CLOSE_PAREN # r)" by (simp add: follows_def)
  with assms obtain f where "same_value f e" "reads OrLevel (ts @ T_CLOSE_PAREN # r) (f, T_CLOSE_PAREN # r)"
    by (auto simp: whole_def)
  then show "\<exists>f. same_value f e \<and> reads Operand ((T_OPEN_PAREN # ts @ [T_CLOSE_PAREN]) @ r) (f, r)"
    by (auto intro: reads_operand(2))
qed

lemma opnd_Not: "opnd ts e \<Longrightarrow> opnd (T_NOT # ts) (Not e)"
  unfolding opnd_def by (auto intro: reads_operand(1) same_value_cong)

lemma opnd_word:
  "opnd [T_WORD a] (Symbol a)" "opnd [T_WORD a, T_EQUAL, T_WORD b] (Equal a b)"
  "opnd [T_WORD a, T_UNEQUAL, T_WORD b] (Unequal a b)"
  unfolding opnd_def by (auto intro: reads_word reads_comp same_value_refl)

lemma chain_combine:
  assumes l: "chain Level Rest tok mk T u l" and r: "chain Level Rest tok mk T v r" and t: "tok \<in> T"
    and cong: "\<And>a b e f. same_value f (mk a r) \<Longrightarrow> same_value a b \<Longrightarrow> same_value f (mk b r)"
    and assoc: "\<And>a f. same_value f (mk (mk a l) r) \<Longrightarrow> same_value f (mk a (mk l r))"
  shows "chain Level Rest tok mk T (u @ tok # v) (mk l r)"
  unfolding chain_def
proof (intro allI impI conjI)
  fix rs assume f: "follows T rs"
  have f': "follows T (tok # v @ rs)" using t by (simp add: follows_def)
  from l f' obtain a where a: "same_value a l"
    "\<forall>x. reads (Rest a) (tok # v @ rs) x \<longrightarrow> reads Level (u @ tok # v @ rs) x"
    unfolding chain_def by blast
  from r f obtain b where b: "same_value b (mk a r)"
    "\<forall>x. reads (Rest b) rs x \<longrightarrow> reads (Rest a) (tok # v @ rs) x"
    unfolding chain_def by blast
  from a b show "\<exists>f. same_value f (mk l r)
      \<and> (\<forall>x. reads (Rest f) rs x \<longrightarrow> reads Level ((u @ tok # v) @ rs) x)"
    using cong by (intro exI [of _ b]) auto
next
  fix rs acc assume f: "follows T rs"
  have f': "follows T (tok # v @ rs)" using t by (simp add: follows_def)
  from l f' obtain a where a: "same_value a (mk acc l)"
    "\<forall>x. reads (Rest a) (tok # v @ rs) x \<longrightarrow> reads (Rest acc) (tok # u @ tok # v @ rs) x"
    unfolding chain_def by blast
  from r f obtain b where b: "same_value b (mk a r)"
    "\<forall>x. reads (Rest b) rs x \<longrightarrow> reads (Rest a) (tok # v @ rs) x"
    unfolding chain_def by blast
  from a b show "\<exists>f. same_value f (mk acc (mk l r))
      \<and> (\<forall>x. reads (Rest f) rs x \<longrightarrow> reads (Rest acc) (tok # (u @ tok # v) @ rs) x)"
    using cong [THEN assoc] by (intro exI [of _ b]) auto
qed

lemma andl_And: "andl u l \<Longrightarrow> andl v r \<Longrightarrow> andl (u @ T_AND # v) (And l r)"
  unfolding andl_def
  by (rule chain_combine) (auto simp: same_value_def EXPR_AND_min min.assoc)

lemma orl_Or: "orl u l \<Longrightarrow> orl v r \<Longrightarrow> orl (u @ T_OR # v) (Or l r)"
  unfolding orl_def
  by (rule chain_combine) (auto simp: same_value_def EXPR_OR_max max.assoc)

text \<open>No symbol at the left of a leaf is an unnamed choice.\<close>

fun all_named :: "kconf \<Rightarrow> expr \<Rightarrow> bool" where
  "all_named k (And l r) \<longleftrightarrow> all_named k l \<and> all_named k r"
| "all_named k (Or l r) \<longleftrightarrow> all_named k l \<and> all_named k r"
| "all_named k (Not e) \<longleftrightarrow> all_named k e"
| "all_named k (Symbol s) \<longleftrightarrow> sname (symtab k s) \<noteq> None"
| "all_named k (Equal a b) \<longleftrightarrow> sname (symtab k a) \<noteq> None"
| "all_named k (Unequal a b) \<longleftrightarrow> sname (symtab k a) \<noteq> None"
| "all_named k _ \<longleftrightarrow> False"

definition tokens :: "call list \<Rightarrow> token list option" where
  "tokens cs = those (map token_of cs)"

definition prints :: "kconf \<Rightarrow> expr \<Rightarrow> expr_type \<Rightarrow> (token list \<Rightarrow> expr \<Rightarrow> bool) \<Rightarrow> bool" where
  "prints k e p Q \<longleftrightarrow> (\<exists>ts. tokens (expr_print k e p) = Some ts \<and> Q ts e)"

lemma those_append: "those (xs @ ys) = Option.bind (those xs) (\<lambda>a. map_option ((@) a) (those ys))"
  by (induction xs) (auto split: option.splits simp: option.map_comp comp_def map_option_case option.map_id0)

lemma tokens_append [simp]:
  "tokens [] = Some []"
  "tokens (c # cs) = Option.bind (token_of c) (\<lambda>t. map_option ((#) t) (tokens cs))"
  "tokens (xs @ ys) = Option.bind (tokens xs) (\<lambda>a. map_option ((@) a) (tokens ys))"
  by (auto simp: tokens_def those_append split: option.splits)

lemma token_of_out [simp]:
  "token_of (out '' || '') = Some T_OR" "token_of (out '' && '') = Some T_AND"
  "token_of (out ''!'') = Some T_NOT" "token_of (out ''='') = Some T_EQUAL"
  "token_of (out ''!='') = Some T_UNEQUAL" "token_of (out ''('') = Some T_OPEN_PAREN"
  "token_of (out '')'') = Some T_CLOSE_PAREN" "token_of (out_name k s) = Some (T_WORD s)"
  "sname (symtab k s) \<noteq> None \<Longrightarrow> token_of (out_left k s) = Some (T_WORD s)"
  by (simp_all add: token_of_def out_def out_name_def out_left_def)

lemma prints_all:
  "all_named k e \<Longrightarrow>
     prints k e E_NOT opnd \<and> prints k e E_AND andl \<and> prints k e E_OR orl \<and> prints k e E_NONE whole"
proof (induction e)
  case (And l r)
  then obtain u v where "tokens (expr_print k l E_AND) = Some u" "andl u l"
    "tokens (expr_print k r E_AND) = Some v" "andl v r" by (auto simp: prints_def)
  moreover from this have "andl (u @ T_AND # v) (And l r)" by (simp add: andl_And)
  ultimately show ?case
    using whole_paren [of "u @ T_AND # v", OF orl_whole [OF andl_orl]]
    by (auto simp: prints_def expr_compare_type_def intro: andl_orl orl_whole)
next
  case (Or l r)
  then obtain u v where "tokens (expr_print k l E_OR) = Some u" "orl u l"
    "tokens (expr_print k r E_OR) = Some v" "orl v r" by (auto simp: prints_def)
  moreover from this have "orl (u @ T_OR # v) (Or l r)" by (simp add: orl_Or)
  ultimately show ?case
    using whole_paren [of "u @ T_OR # v", OF orl_whole]
    by (auto simp: prints_def expr_compare_type_def intro: orl_whole opnd_andl)
next
  case (Not e)
  then obtain u where "tokens (expr_print k e E_NOT) = Some u" "opnd u e" by (auto simp: prints_def)
  then show ?case
    by (auto simp: prints_def expr_compare_type_def intro: opnd_Not opnd_andl andl_orl orl_whole)
qed (auto simp: prints_def expr_compare_type_def intro: opnd_word opnd_andl andl_orl orl_whole)

lemma print_parse:
  assumes "all_named k e"
  shows "\<exists>ts n f. tokens (expr_print k e E_NONE) = Some ts
     \<and> (\<forall>m \<ge> n. parse_expr m OrLevel ts = Some (f, []))
     \<and> (\<forall>k'. expr_calc_value k' f = expr_calc_value k' e)"
proof -
  from prints_all [OF assms] obtain ts where ts: "tokens (expr_print k e E_NONE) = Some ts" "whole ts e"
    by (auto simp: prints_def)
  then obtain f n where f: "same_value f e" "parse_expr n OrLevel ts = Some (f, [])"
    by (auto simp: whole_def reads_def follows_def dest!: spec [of _ "[]"])
  have "\<forall>m \<ge> n. parse_expr m OrLevel ts = Some (f, [])"
    using parse_expr_mono [OF _ f(2)] by blast
  with ts f(1) show ?thesis unfolding same_value_def by blast
qed

section \<open>Properties\<close>



text \<open>
  C18. Printing an expression into a growable string never writes past its buffer: the text and
  its terminating zero fit before and after, and the width limit is kept as it was.
\<close>

theorem gstr_print_in_bounds:
  assumes "gstr_ok gs" and "expr_gstr_print k e gs = Some gs'"
  shows "length (gs_s gs') < gs_len gs' \<and> max_width gs' = max_width gs"
  using gstr_print_ok [OF assms] by (simp add: gstr_ok_def)

theorem gstr_print_in_bounds_witness:
  "\<exists>gs'. expr_gstr_print (mk_kconf (\<lambda>_. valued_symbol S_BOOLEAN Yes)) (Some (Not (Symbol (Sym 0)))) str_new
       = Some gs' \<and> length (gs_s gs') < gs_len gs'"
proof -
  have "expr_gstr_print (mk_kconf (\<lambda>_. valued_symbol S_BOOLEAN Yes)) (Some (Not (Symbol (Sym 0)))) str_new
      = Some \<lparr>gs_s = ''!OPT [=y]'', gs_len = 64, max_width = 0\<rparr>"
    by code_simp
  with gstr_print_in_bounds [OF gstr_ok_new(1) this] show ?thesis by blast
qed

end
