(* ===== verification/Br_Monad.thy ===== *)
theory Br_Monad
  imports Br_Prelude
begin

text \<open>
  Programs over a state that may stop: \<open>Ok\<close> with a result and the new state, \<open>Crash\<close> where
  the code reads through a null or stray pointer, and \<open>NoFuel\<close> where the bound on a recursion
  was too small. The locale collects what a reflexive and transitive relation between the states
  before and after needs to hold of whole programs.
\<close>

datatype 'a res = Ok 'a | Crash | NoFuel

type_synonym ('s, 'a) prog = "'s \<Rightarrow> ('a \<times> 's) res"

definition ret :: "'a \<Rightarrow> ('s, 'a) prog" where
  "ret a = (\<lambda>s. Ok (a, s))"

definition crash :: "('s, 'a) prog" where
  "crash = (\<lambda>s. Crash)"

definition no_fuel :: "('s, 'a) prog" where
  "no_fuel = (\<lambda>s. NoFuel)"

definition gets :: "('s \<Rightarrow> 'a) \<Rightarrow> ('s, 'a) prog" where
  "gets f = (\<lambda>s. Ok (f s, s))"

definition modify :: "('s \<Rightarrow> 's) \<Rightarrow> ('s, unit) prog" where
  "modify f = (\<lambda>s. Ok ((), f s))"

definition bnd :: "('s, 'a) prog \<Rightarrow> ('a \<Rightarrow> ('s, 'b) prog) \<Rightarrow> ('s, 'b) prog" where
  "bnd m f = (\<lambda>s. case m s of Ok (a, s') \<Rightarrow> f a s' | Crash \<Rightarrow> Crash | NoFuel \<Rightarrow> NoFuel)"

definition thn :: "('s, 'a) prog \<Rightarrow> ('s, 'b) prog \<Rightarrow> ('s, 'b) prog" where
  "thn m m' = bnd m (\<lambda>_. m')"

definition unless :: "bool \<Rightarrow> ('s, unit) prog \<Rightarrow> ('s, unit) prog" where
  "unless b m = (if b then ret () else m)"

text \<open>A dereference of a pointer that may be null.\<close>

definition deref :: "'a option \<Rightarrow> ('s, 'a) prog" where
  "deref x = (case x of None \<Rightarrow> crash | Some a \<Rightarrow> ret a)"

primrec for_each :: "'a list \<Rightarrow> ('a \<Rightarrow> ('s, unit) prog) \<Rightarrow> ('s, unit) prog" where
  "for_each [] f = ret ()"
| "for_each (x # xs) f = thn (f x) (for_each xs f)"

lemmas prog_defs = ret_def crash_def no_fuel_def gets_def modify_def thn_def bnd_def deref_def

lemma bnd_Ok: "bnd m f s = Ok x \<longleftrightarrow> (\<exists>a s'. m s = Ok (a, s') \<and> f a s' = Ok x)"
  by (auto simp: bnd_def split: res.splits)

lemma bnd_NoFuel: "bnd m f s = NoFuel \<longleftrightarrow> m s = NoFuel \<or> (\<exists>a s'. m s = Ok (a, s') \<and> f a s' = NoFuel)"
  by (auto simp: bnd_def split: res.splits)

lemma thn_Ok: "thn m m' s = Ok x \<longleftrightarrow> (\<exists>a s'. m s = Ok (a, s') \<and> m' s' = Ok x)"
  by (simp add: thn_def bnd_Ok)

lemma prog_Ok [simp]:
  "ret a s = Ok x \<longleftrightarrow> x = (a, s)" "gets f s = Ok y \<longleftrightarrow> y = (f s, s)"
  "modify g s = Ok z \<longleftrightarrow> z = ((), g s)" "crash s \<noteq> Ok w" "no_fuel s \<noteq> Ok w"
  "deref p s = Ok v \<longleftrightarrow> (\<exists>a. p = Some a \<and> v = (a, s))"
  by (auto simp: prog_defs split: option.splits)

text \<open>
  \<open>runs tot P R m\<close>: from a state with \<open>P\<close>, the program \<open>m\<close> has enough fuel (when
  \<open>tot\<close> asks for it), and the states before and after are related by \<open>R\<close>.
\<close>

definition runs :: "bool \<Rightarrow> ('s \<Rightarrow> bool) \<Rightarrow> ('s \<Rightarrow> 's \<Rightarrow> bool) \<Rightarrow> ('s, 'a) prog \<Rightarrow> bool" where
  "runs tot P R m \<longleftrightarrow>
     (\<forall>s. P s \<longrightarrow> (tot \<longrightarrow> m s \<noteq> NoFuel) \<and> (\<forall>a s'. m s = Ok (a, s') \<longrightarrow> R s s'))"

lemma runsD: "runs tot P R m \<Longrightarrow> P s \<Longrightarrow> m s = Ok (a, s') \<Longrightarrow> R s s'"
  by (auto simp: runs_def)

lemma runs_fuelD: "runs True P R m \<Longrightarrow> P s \<Longrightarrow> m s \<noteq> NoFuel"
  by (auto simp: runs_def)

locale state_relation =
  fixes tot :: bool
    and P :: "'s \<Rightarrow> bool"
    and R :: "'s \<Rightarrow> 's \<Rightarrow> bool"
  assumes R_refl: "R s s"
    and R_trans: "R s t \<Longrightarrow> R t u \<Longrightarrow> R s u"
    and P_closed: "P s \<Longrightarrow> R s t \<Longrightarrow> P t"
begin

lemma runs_ret: "runs tot P R (ret a)"
  by (auto simp: runs_def prog_defs R_refl)

lemma runs_gets: "runs tot P R (gets f)"
  by (auto simp: runs_def prog_defs R_refl)

lemma runs_crash: "runs tot P R crash"
  by (auto simp: runs_def prog_defs)

lemma runs_deref: "runs tot P R (deref x)"
  by (auto simp: deref_def runs_ret runs_crash split: option.splits)

lemma runs_modify: "(\<And>s. P s \<Longrightarrow> R s (f s)) \<Longrightarrow> runs tot P R (modify f)"
  by (auto simp: runs_def prog_defs)

lemma runs_bnd: "runs tot P R m \<Longrightarrow> (\<And>a. runs tot P R (f a)) \<Longrightarrow> runs tot P R (bnd m f)"
  unfolding runs_def bnd_Ok bnd_NoFuel by (meson P_closed R_trans)

lemma runs_thn: "runs tot P R m \<Longrightarrow> runs tot P R m' \<Longrightarrow> runs tot P R (thn m m')"
  by (simp add: thn_def runs_bnd)

lemma runs_if: "(b \<Longrightarrow> runs tot P R m) \<Longrightarrow> (\<not> b \<Longrightarrow> runs tot P R m') \<Longrightarrow>
    runs tot P R (if b then m else m')"
  by simp

lemma runs_unless: "runs tot P R m \<Longrightarrow> runs tot P R (unless b m)"
  by (simp add: unless_def runs_ret)

lemma runs_option: "runs tot P R m \<Longrightarrow> (\<And>a. runs tot P R (f a)) \<Longrightarrow>
    runs tot P R (case x of None \<Rightarrow> m | Some a \<Rightarrow> f a)"
  by (simp split: option.splits)

lemma runs_for_each: "(\<And>x. runs tot P R (f x)) \<Longrightarrow> runs tot P R (for_each xs f)"
  by (induction xs) (simp_all add: runs_ret runs_thn)

lemmas runs_rules = runs_ret runs_gets runs_crash runs_deref runs_bnd runs_thn runs_if runs_unless
  runs_option runs_for_each

end

section \<open>Weakest preconditions\<close>

text \<open>The program ends without a crash, with a result and a state that satisfy \<open>Q\<close>.\<close>

definition wp :: "('s, 'a) prog \<Rightarrow> ('a \<Rightarrow> 's \<Rightarrow> bool) \<Rightarrow> 's \<Rightarrow> bool" where
  "wp m Q s \<longleftrightarrow> (\<exists>a s'. m s = Ok (a, s') \<and> Q a s')"

lemma wp_simps [simp]:
  "wp (ret a) Q = Q a" "wp (gets f) Q = (\<lambda>s. Q (f s) s)" "wp (modify g) R = (\<lambda>s. R () (g s))"
  "wp crash Q = (\<lambda>_. False)" "wp no_fuel Q = (\<lambda>_. False)" "wp (deref x) Q = (\<lambda>s. \<exists>a. x = Some a \<and> Q a s)"
  by (auto simp: wp_def prog_defs fun_eq_iff split: option.splits)

lemma wp_bnd [simp]: "wp (bnd m f) Q = wp m (\<lambda>a. wp (f a) Q)"
  by (auto simp: wp_def bnd_Ok fun_eq_iff)

lemma wp_thn [simp]: "wp (thn m m') Q = wp m (\<lambda>_. wp m' Q)"
  by (simp add: thn_def)

lemma wp_mono: "wp m Q s \<Longrightarrow> (\<And>a s'. Q a s' \<Longrightarrow> Q' a s') \<Longrightarrow> wp m Q' s"
  by (auto simp: wp_def)

lemma wp_if [simp]: "wp (if b then m else m') Q = (if b then wp m Q else wp m' Q)"
  by simp

lemma wp_for_each: "(\<And>x s. x \<in> set xs \<Longrightarrow> I s \<Longrightarrow> wp (f x) (\<lambda>_. I) s) \<Longrightarrow> I s \<Longrightarrow> wp (for_each xs f) (\<lambda>_. I) s"
proof (induction xs arbitrary: s)
  case (Cons x xs)
  have "wp (f x) (\<lambda>_. I) s" using Cons.prems by simp
  then have "wp (f x) (\<lambda>_. wp (for_each xs f) (\<lambda>_. I)) s" by (rule wp_mono) (use Cons in simp)
  then show ?case by simp
qed simp

text \<open>
  \<open>safe P R m\<close>: from a state with \<open>P\<close>, the program ends without a crash in a state related
  by \<open>R\<close>.
\<close>

definition safe :: "('s \<Rightarrow> bool) \<Rightarrow> ('s \<Rightarrow> 's \<Rightarrow> bool) \<Rightarrow> ('s, 'a) prog \<Rightarrow> bool" where
  "safe P R m \<longleftrightarrow> (\<forall>s. P s \<longrightarrow> wp m (\<lambda>_. R s) s)"

lemma safeD: "safe P R m \<Longrightarrow> P s \<Longrightarrow> wp m (\<lambda>_. R s) s"
  by (simp add: safe_def)

context state_relation
begin

lemma safe_ret: "safe P R (ret a)"
  by (simp add: safe_def R_refl)

lemma safe_gets: "safe P R (gets f)"
  by (simp add: safe_def R_refl)

lemma safe_modify: "(\<And>s. P s \<Longrightarrow> R s (f s)) \<Longrightarrow> safe P R (modify f)"
  by (simp add: safe_def)

lemma wp_continue: "wp m (\<lambda>a s'. R s s' \<and> Q a s') s \<Longrightarrow> P s \<Longrightarrow> (\<And>a s'. P s' \<Longrightarrow> Q a s' \<Longrightarrow> wp (f a) (\<lambda>_. R s') s') \<Longrightarrow>
    wp (bnd m f) (\<lambda>_. R s) s"
  unfolding wp_bnd using R_trans P_closed by (fastforce elim!: wp_mono)

lemma safe_bnd: "safe P R m \<Longrightarrow> (\<And>a. safe P R (f a)) \<Longrightarrow> safe P R (bnd m f)"
  unfolding safe_def by (intro allI impI, rule wp_continue [where Q = "\<lambda>_ _. True"]) simp_all

lemma safe_thn: "safe P R m \<Longrightarrow> safe P R m' \<Longrightarrow> safe P R (thn m m')"
  by (simp add: thn_def safe_bnd)

lemma safe_if: "(b \<Longrightarrow> safe P R m) \<Longrightarrow> (\<not> b \<Longrightarrow> safe P R m') \<Longrightarrow> safe P R (if b then m else m')"
  by simp

lemma safe_option: "safe P R m \<Longrightarrow> (\<And>a. safe P R (f a)) \<Longrightarrow> safe P R (case x of None \<Rightarrow> m | Some a \<Rightarrow> f a)"
  by (simp split: option.splits)

lemma safe_for_each: "(\<And>x. x \<in> set xs \<Longrightarrow> safe P R (f x)) \<Longrightarrow> safe P R (for_each xs f)"
  by (induction xs) (simp_all add: safe_ret safe_thn)

lemmas safe_rules = safe_ret safe_gets safe_bnd safe_thn safe_if safe_option safe_for_each

end

end
