(* ===== verification/Br_Clib.thy ===== *)
theory Br_Clib
  imports Br_Prelude
begin

text \<open>
  The parts of the C library the modelled code calls on strings and characters: the character
  classes of the C locale, decimal and hexadecimal output of \<^verbatim>\<open>sprintf\<close>, and
  \<^verbatim>\<open>strtoll\<close>.
\<close>

section \<open>Characters\<close>

definition ascii :: "char \<Rightarrow> nat" where
  "ascii c = of_char c"

definition is_digit :: "char \<Rightarrow> bool" where
  "is_digit c \<longleftrightarrow> 48 \<le> ascii c \<and> ascii c \<le> 57"

definition is_upper :: "char \<Rightarrow> bool" where
  "is_upper c \<longleftrightarrow> 65 \<le> ascii c \<and> ascii c \<le> 90"

definition is_lower :: "char \<Rightarrow> bool" where
  "is_lower c \<longleftrightarrow> 97 \<le> ascii c \<and> ascii c \<le> 122"

definition is_alnum :: "char \<Rightarrow> bool" where
  "is_alnum c \<longleftrightarrow> is_digit c \<or> is_upper c \<or> is_lower c"

definition is_space :: "char \<Rightarrow> bool" where
  "is_space c \<longleftrightarrow> ascii c = 32 \<or> 9 \<le> ascii c \<and> ascii c \<le> 13"

definition digit_val :: "char \<Rightarrow> nat" where
  "digit_val c = (if is_digit c then ascii c - 48
     else if 97 \<le> ascii c \<and> ascii c \<le> 102 then ascii c - 87
     else if 65 \<le> ascii c \<and> ascii c \<le> 70 then ascii c - 55 else 16)"

definition is_xdigit :: "char \<Rightarrow> bool" where
  "is_xdigit c \<longleftrightarrow> digit_val c < 16"

definition digit_char :: "nat \<Rightarrow> char" where
  "digit_char d = (if d < 10 then char_of (48 + d) else char_of (87 + d))"

lemma digit_val_char [simp]: "d < 16 \<Longrightarrow> digit_val (digit_char d) = d"
  by (auto simp: digit_val_def digit_char_def is_digit_def ascii_def)

section \<open>Numbers in text\<close>

function show_nat :: "nat \<Rightarrow> nat \<Rightarrow> string" where
  "show_nat b n = (if b < 2 \<or> n < b then [digit_char n] else show_nat b (n div b) @ [digit_char (n mod b)])"
  by auto
termination
  by (relation "measure snd") (auto intro!: div_less_dividend)

declare show_nat.simps [simp del]

primrec digits_val :: "nat \<Rightarrow> nat \<Rightarrow> string \<Rightarrow> nat" where
  "digits_val b a [] = a"
| "digits_val b a (c # cs) = (if digit_val c < b then digits_val b (a * b + digit_val c) cs else a)"

definition LLONG_MAX :: int where
  "LLONG_MAX = 2 ^ 63 - 1"

definition LLONG_MIN :: int where
  "LLONG_MIN = - (2 ^ 63)"

definition clamp_ll :: "int \<Rightarrow> int" where
  "clamp_ll v = (if v > LLONG_MAX then LLONG_MAX else if v < LLONG_MIN then LLONG_MIN else v)"

definition skip_0x :: "string \<Rightarrow> string" where
  "skip_0x s = (case s of
       z # x # d # r \<Rightarrow> if z = CHR ''0'' \<and> (x = CHR ''x'' \<or> x = CHR ''X'') \<and> is_xdigit d then d # r else s
     | _ \<Rightarrow> s)"

definition strtoll :: "nat \<Rightarrow> string \<Rightarrow> int" where
  "strtoll b s =
     (let s1 = dropWhile is_space s;
          neg = (s1 \<noteq> [] \<and> hd s1 = CHR ''-'');
          s2 = (if s1 \<noteq> [] \<and> (hd s1 = CHR ''-'' \<or> hd s1 = CHR ''+'') then tl s1 else s1);
          s3 = (if b = 16 then skip_0x s2 else s2);
          v = int (digits_val b 0 s3)
      in clamp_ll (if neg then - v else v))"

text \<open>\<^verbatim>\<open>"%lld"\<close> and \<^verbatim>\<open>"0x%llx"\<close>, the latter on the 64-bit pattern of its argument.\<close>

definition fmt_lld :: "int \<Rightarrow> string" where
  "fmt_lld v = (if v < 0 then CHR ''-'' # show_nat 10 (nat (- v)) else show_nat 10 (nat v))"

definition fmt_0xllx :: "int \<Rightarrow> string" where
  "fmt_0xllx v = ''0x'' @ show_nat 16 (nat (v mod 2 ^ 64))"

section \<open>Numbers survive printing and reading\<close>

lemma digits_val_append:
  "(\<forall>c \<in> set s. digit_val c < b) \<Longrightarrow> digits_val b a (s @ t) = digits_val b (digits_val b a s) t"
  by (induction s arbitrary: a) auto

lemma show_nat_digits:
  "2 \<le> b \<Longrightarrow> b \<le> 16 \<Longrightarrow> \<forall>c \<in> set (show_nat b n). \<exists>d < b. c = digit_char d"
proof (induction b n rule: show_nat.induct)
  case (1 b n)
  show ?case
  proof (cases "n < b")
    case True
    then show ?thesis using 1 by (auto simp: show_nat.simps [of b n])
  next
    case False
    with 1 have "\<forall>c \<in> set (show_nat b (n div b)). \<exists>d < b. c = digit_char d" by auto
    moreover have "n mod b < b" using 1 by simp
    ultimately show ?thesis using False 1
      by (auto simp: show_nat.simps [of b n] intro: exI [of _ "n mod b"])
  qed
qed

lemma show_nat_val:
  "2 \<le> b \<Longrightarrow> b \<le> 16 \<Longrightarrow> digits_val b 0 (show_nat b n) = n"
proof (induction b n rule: show_nat.induct)
  case (1 b n)
  show ?case
  proof (cases "n < b")
    case True
    then show ?thesis using 1 by (simp add: show_nat.simps [of b n])
  next
    case False
    have d: "\<forall>c \<in> set (show_nat b (n div b)). digit_val c < b"
      using show_nat_digits [of b "n div b"] 1 by fastforce
    have m: "n mod b < b" "n mod b < 16" using 1 by (auto intro: less_le_trans [of _ b])
    from False 1 have "digits_val b 0 (show_nat b n) = n div b * b + n mod b"
      by (simp add: show_nat.simps [of b n] digits_val_append [OF d] m)
    then show ?thesis by simp
  qed
qed

lemma show_nat_nonempty [simp]: "show_nat b n \<noteq> []"
  by (simp add: show_nat.simps [of b n])

lemma digit_char_plain:
  "d < 16 \<Longrightarrow> \<not> is_space (digit_char d) \<and> digit_char d \<noteq> CHR ''-'' \<and> digit_char d \<noteq> CHR ''+''
     \<and> is_xdigit (digit_char d)"
  by (auto simp: digit_char_def is_space_def ascii_def is_xdigit_def digit_val_def is_digit_def
      char_of_eq_iff take_bit_eq_mod)

lemma show_nat_hd:
  assumes "2 \<le> b" and "b \<le> 16"
  obtains d t where "d < b" and "show_nat b n = digit_char d # t"
  using show_nat_digits [OF assms, of n] by (cases "show_nat b n") (auto intro: that)

lemma strtoll_show_nat:
  "strtoll 10 (show_nat 10 n) = clamp_ll (int n)"
proof -
  obtain d t where d: "d < 10" "show_nat 10 n = digit_char d # t" by (rule show_nat_hd [of 10 n]) auto
  with digit_char_plain [of d] show_nat_val [of 10 n] show ?thesis
    by (simp add: strtoll_def Let_def)
qed

lemma strtoll_fmt_lld: "LLONG_MIN \<le> v \<Longrightarrow> v \<le> LLONG_MAX \<Longrightarrow> strtoll 10 (fmt_lld v) = v"
proof (cases "v < 0")
  case True
  assume v: "LLONG_MIN \<le> v" "v \<le> LLONG_MAX"
  have "\<not> is_space (CHR ''-'')" by (simp add: is_space_def ascii_def)
  with True v show_nat_val [of 10 "nat (- v)"] show ?thesis
    by (simp add: fmt_lld_def strtoll_def Let_def clamp_ll_def)
next
  case False
  assume v: "LLONG_MIN \<le> v" "v \<le> LLONG_MAX"
  with False show ?thesis by (simp add: fmt_lld_def strtoll_show_nat clamp_ll_def)
qed

lemma strtoll_fmt_0xllx: "0 \<le> v \<Longrightarrow> v \<le> LLONG_MAX \<Longrightarrow> strtoll 16 (fmt_0xllx v) = v"
proof -
  assume v: "0 \<le> v" "v \<le> LLONG_MAX"
  obtain d t where d: "d < 16" "show_nat 16 (nat v) = digit_char d # t"
    by (rule show_nat_hd [of 16 "nat v"]) auto
  have m: "v mod 2 ^ 64 = v" using v by (simp add: LLONG_MAX_def)
  have "\<not> is_space (CHR ''0'')" by (simp add: is_space_def ascii_def)
  with v d m digit_char_plain [of d] show_nat_val [of 16 "nat v"] show ?thesis
    by (simp add: fmt_0xllx_def strtoll_def Let_def skip_0x_def clamp_ll_def LLONG_MIN_def)
qed

end
