(* ===== verification/Kconfig_Symbol.thy ===== *)
theory Kconfig_Symbol
  imports Kconfig_Query Br_Monad Br_Clib
begin

text \<open>
  The calculation of symbol values (\<^verbatim>\<open>support/kconfig/symbol.c\<close>): visibility, defaults,
  ranges, choices, and the memoised recursion \<^verbatim>\<open>sym_calc_value\<close> over the dependencies.
  The functions that call \<^verbatim>\<open>sym_calc_value\<close> take it as their first argument; the recursion
  is closed with a bound on its depth. The flags of menu entries are not part of the state.
\<close>

section \<open>Access to symbols\<close>

type_synonym 'a kprog = "(kconf, 'a) prog"

definition at :: "sym \<Rightarrow> (symbol \<Rightarrow> 'a) \<Rightarrow> 'a kprog" where
  "at s f = gets (\<lambda>k. f (symtab k s))"

definition put_sym :: "sym \<Rightarrow> (symbol \<Rightarrow> symbol) \<Rightarrow> kconf \<Rightarrow> kconf" where
  "put_sym s f k = k\<lparr>symtab := (symtab k)(s := f (symtab k s))\<rparr>"

definition upd :: "sym \<Rightarrow> (symbol \<Rightarrow> symbol) \<Rightarrow> unit kprog" where
  "upd s f = modify (put_sym s f)"

definition set_flags :: "sym \<Rightarrow> sym_flag set \<Rightarrow> unit kprog" where
  "set_flags s F = upd s (\<lambda>y. y\<lparr>flags := flags y \<union> F\<rparr>)"

definition clear_flags :: "sym \<Rightarrow> sym_flag set \<Rightarrow> unit kprog" where
  "clear_flags s F = upd s (\<lambda>y. y\<lparr>flags := flags y - F\<rparr>)"

definition sym_is_choice :: "symbol \<Rightarrow> bool" where
  "sym_is_choice y \<longleftrightarrow> SYMBOL_CHOICE \<in> flags y"

definition sym_is_choice_value :: "symbol \<Rightarrow> bool" where
  "sym_is_choice_value y \<longleftrightarrow> SYMBOL_CHOICEVAL \<in> flags y"

definition sym_is_optional :: "symbol \<Rightarrow> bool" where
  "sym_is_optional y \<longleftrightarrow> SYMBOL_OPTIONAL \<in> flags y"

definition sym_has_value :: "symbol \<Rightarrow> bool" where
  "sym_has_value y \<longleftrightarrow> SYMBOL_DEF_USER \<in> flags y"

definition sym_get_type :: "kconf \<Rightarrow> sym \<Rightarrow> symbol_type" where
  "sym_get_type k s =
     (if stype (symtab k s) = S_TRISTATE then
        (if sym_is_choice_value (symtab k s) \<and> visible (symtab k s) = Yes then S_BOOLEAN
         else if modules_val k = No then S_BOOLEAN
         else S_TRISTATE)
      else stype (symtab k s))"

fun sym_type_name :: "symbol_type \<Rightarrow> string" where
  "sym_type_name S_BOOLEAN = ''boolean''"
| "sym_type_name S_TRISTATE = ''tristate''"
| "sym_type_name S_INT = ''integer''"
| "sym_type_name S_HEX = ''hex''"
| "sym_type_name S_STRING = ''string''"
| "sym_type_name S_UNKNOWN = ''unknown''"
| "sym_type_name S_OTHER = ''???''"

definition sym_get_choice_prop :: "symbol \<Rightarrow> property option" where
  "sym_get_choice_prop y = find (\<lambda>p. ptype p = P_CHOICE) (props y)"

definition sym_get_env_prop :: "symbol \<Rightarrow> property option" where
  "sym_get_env_prop y = find (\<lambda>p. ptype p = P_ENV) (props y)"

text \<open>
  \<^verbatim>\<open>left.sym\<close> of an \<^verbatim>\<open>E_LIST\<close> cell is the pointer to the next cell, never a symbol:
  callers ask for the symbol of a property only where its expression is an \<^verbatim>\<open>E_SYMBOL\<close>.
\<close>

definition prop_get_symbol :: "property \<Rightarrow> sym option" where
  "prop_get_symbol p = (case pexpr p of Some (Symbol s) \<Rightarrow> Some s | _ \<Rightarrow> None)"

fun list_syms :: "expr option \<Rightarrow> sym list" where
  "list_syms (Some (EList l (Some s))) = s # list_syms l"
| "list_syms _ = []"

definition sym_set_changed :: "sym \<Rightarrow> unit kprog" where
  "sym_set_changed s = set_flags s {SYMBOL_CHANGED}"

definition SYMBOL_HASHSIZE :: nat where
  "SYMBOL_HASHSIZE = 9973"

definition in_table :: "kconf \<Rightarrow> sym \<Rightarrow> bool" where
  "in_table k s \<longleftrightarrow> (\<exists>i < SYMBOL_HASHSIZE. s \<in> set (symbol_hash k i)) \<and> stype (symtab k s) \<noteq> S_OTHER"

text \<open>A loop over \<^verbatim>\<open>for_all_symbols\<close> whose body changes only the symbol at hand.\<close>

definition upd_all :: "(symbol \<Rightarrow> symbol) \<Rightarrow> unit kprog" where
  "upd_all f = modify (\<lambda>k. k\<lparr>symtab := (\<lambda>s. if in_table k s then f (symtab k s) else symtab k s)\<rparr>)"

definition sym_set_all_changed :: "unit kprog" where
  "sym_set_all_changed = upd_all (\<lambda>y. y\<lparr>flags := flags y \<union> {SYMBOL_CHANGED}\<rparr>)"

section \<open>Evaluation that calculates symbols on the way\<close>

type_synonym calc = "sym \<Rightarrow> unit kprog"

definition sym_get_string_value_st :: "calc \<Rightarrow> sym \<Rightarrow> sval kprog" where
  "sym_get_string_value_st calc s =
     bnd (at s stype) (\<lambda>ty. bnd (at s curr) (\<lambda>c.
       if ty \<in> {S_BOOLEAN, S_TRISTATE} then
         (case tri c of
            No \<Rightarrow> ret (V_str ''n'')
          | Mod \<Rightarrow> bnd (gets modules_sym) (\<lambda>m. thn (calc m) (bnd (at m curr) (\<lambda>cm.
              ret (if tri cm = No then V_str ''n'' else V_str ''m''))))
          | Yes \<Rightarrow> ret (V_str ''y''))
       else ret (val c)))"

text \<open>\<^verbatim>\<open>strcmp\<close> reads both strings: a null one is a crash.\<close>

definition strcmp_eq :: "sval \<Rightarrow> sval \<Rightarrow> bool kprog" where
  "strcmp_eq a b = (case (a, b) of (V_str x, V_str y) \<Rightarrow> ret (x = y) | _ \<Rightarrow> crash)"

definition compare_syms :: "calc \<Rightarrow> sym \<Rightarrow> sym \<Rightarrow> bool kprog" where
  "compare_syms calc a b =
     thn (calc a) (thn (calc b)
       (bnd (sym_get_string_value_st calc a) (\<lambda>str1.
        bnd (sym_get_string_value_st calc b) (\<lambda>str2. strcmp_eq str1 str2))))"

primrec expr_calc_value_st :: "calc \<Rightarrow> expr \<Rightarrow> tristate kprog" where
  "expr_calc_value_st calc (Symbol s) = thn (calc s) (at s (\<lambda>y. tri (curr y)))"
| "expr_calc_value_st calc (And l r) =
     bnd (expr_calc_value_st calc l) (\<lambda>val1.
     bnd (expr_calc_value_st calc r) (\<lambda>val2. ret (EXPR_AND val1 val2)))"
| "expr_calc_value_st calc (Or l r) =
     bnd (expr_calc_value_st calc l) (\<lambda>val1.
     bnd (expr_calc_value_st calc r) (\<lambda>val2. ret (EXPR_OR val1 val2)))"
| "expr_calc_value_st calc (Not e) =
     bnd (expr_calc_value_st calc e) (\<lambda>val1. ret (EXPR_NOT val1))"
| "expr_calc_value_st calc (Equal a b) =
     bnd (compare_syms calc a b) (\<lambda>eq. ret (if eq then Yes else No))"
| "expr_calc_value_st calc (Unequal a b) =
     bnd (compare_syms calc a b) (\<lambda>eq. ret (if eq then No else Yes))"
| "expr_calc_value_st calc (EList l s) = ret No"
| "expr_calc_value_st calc (Range a b) = ret No"
| "expr_calc_value_st calc ENone = ret No"

definition eval_null :: "calc \<Rightarrow> expr option \<Rightarrow> tristate kprog" where
  "eval_null calc e = (case e of None \<Rightarrow> ret Yes | Some e' \<Rightarrow> expr_calc_value_st calc e')"

section \<open>Properties\<close>

text \<open>\<^verbatim>\<open>prop->visible.tri = expr_calc_value(prop->visible.expr)\<close> for the \<open>i\<close>th property.\<close>

definition set_prop_tri :: "nat \<Rightarrow> tristate \<Rightarrow> symbol \<Rightarrow> symbol" where
  "set_prop_tri i t y = y\<lparr>props := (props y)[i := (props y ! i)\<lparr>pvisible := (pvisible (props y ! i))\<lparr>vtri := t\<rparr>\<rparr>]\<rparr>"

definition prop_visible :: "calc \<Rightarrow> sym \<Rightarrow> nat \<Rightarrow> tristate kprog" where
  "prop_visible calc s i =
     bnd (at s (\<lambda>y. vexpr (pvisible (props y ! i)))) (\<lambda>e.
     bnd (eval_null calc e) (\<lambda>t.
     thn (upd s (set_prop_tri i t)) (ret t)))"

definition prop_indices :: "sym \<Rightarrow> (property \<Rightarrow> bool) \<Rightarrow> nat list kprog" where
  "prop_indices s Q = at s (\<lambda>y. filter (\<lambda>i. Q (props y ! i)) [0 ..< length (props y)])"

text \<open>The first property of the given ones whose condition is not n, and that condition.\<close>

primrec first_visible :: "calc \<Rightarrow> sym \<Rightarrow> nat list \<Rightarrow> (property \<times> tristate) option kprog" where
  "first_visible calc s [] = ret None"
| "first_visible calc s (i # is) =
     bnd (prop_visible calc s i) (\<lambda>t.
       if t \<noteq> No then bnd (at s (\<lambda>y. props y ! i)) (\<lambda>p. ret (Some (p, t)))
       else first_visible calc s is)"

definition sym_get_default_prop :: "calc \<Rightarrow> sym \<Rightarrow> (property \<times> tristate) option kprog" where
  "sym_get_default_prop calc s =
     bnd (prop_indices s (\<lambda>p. ptype p = P_DEFAULT)) (\<lambda>is. first_visible calc s is)"

definition sym_get_range_prop :: "calc \<Rightarrow> sym \<Rightarrow> (property \<times> tristate) option kprog" where
  "sym_get_range_prop calc s =
     bnd (prop_indices s (\<lambda>p. ptype p = P_RANGE)) (\<lambda>is. first_visible calc s is)"

section \<open>Ranges\<close>

definition strtoll_sval :: "nat \<Rightarrow> sval \<Rightarrow> int kprog" where
  "strtoll_sval b v = (case v of V_str s \<Rightarrow> ret (strtoll b s) | _ \<Rightarrow> crash)"

definition sym_get_range_val :: "calc \<Rightarrow> sym \<Rightarrow> nat \<Rightarrow> int kprog" where
  "sym_get_range_val calc s b =
     thn (calc s) (bnd (at s (\<lambda>y. (stype y, val (curr y)))) (\<lambda>(ty, v).
       strtoll_sval (if ty = S_INT then 10 else if ty = S_HEX then 16 else b) v))"

text \<open>The two symbols of a range property, which \<^verbatim>\<open>expr_alloc_comp(E_RANGE, ..)\<close> built.\<close>

definition range_syms :: "property \<Rightarrow> (sym \<times> sym) option" where
  "range_syms p = (case pexpr p of Some (Range a b) \<Rightarrow> Some (a, b) | _ \<Rightarrow> None)"

text \<open>The limit that replaces a value out of range, if it is.\<close>

definition range_clamp :: "calc \<Rightarrow> nat \<Rightarrow> sym \<Rightarrow> sym \<Rightarrow> int \<Rightarrow> int option kprog" where
  "range_clamp calc b lo hi v =
     bnd (sym_get_range_val calc lo b) (\<lambda>l.
       if v \<ge> l then bnd (sym_get_range_val calc hi b) (\<lambda>h. ret (if v \<le> h then None else Some h))
       else ret (Some l))"

definition range_base :: "symbol_type \<Rightarrow> nat" where
  "range_base ty = (if ty = S_INT then 10 else 16)"

definition fmt_number :: "symbol_type \<Rightarrow> int \<Rightarrow> string" where
  "fmt_number ty v = (if ty = S_INT then fmt_lld v else fmt_0xllx v)"

definition sym_validate_range :: "calc \<Rightarrow> sym \<Rightarrow> unit kprog" where
  "sym_validate_range calc s =
     bnd (at s stype) (\<lambda>ty.
       if ty \<noteq> S_INT \<and> ty \<noteq> S_HEX then ret ()
       else
         bnd (sym_get_range_prop calc s) (\<lambda>prop. case prop of None \<Rightarrow> ret ()
         | Some (p, _) \<Rightarrow>
           bnd (at s (\<lambda>y. val (curr y))) (\<lambda>cv.
           bnd (strtoll_sval (range_base ty) cv) (\<lambda>v.
           bnd (deref (range_syms p)) (\<lambda>(lo, hi).
           bnd (range_clamp calc (range_base ty) lo hi v) (\<lambda>w. case w of None \<Rightarrow> ret ()
           | Some v2 \<Rightarrow> upd s (\<lambda>y. y\<lparr>curr := (curr y)\<lparr>val := V_str (fmt_number ty v2)\<rparr>\<rparr>)))))))"

section \<open>Visibility\<close>

primrec calc_prompts :: "calc \<Rightarrow> sym \<Rightarrow> nat list \<Rightarrow> tristate \<Rightarrow> tristate kprog" where
  "calc_prompts calc s [] t = ret t"
| "calc_prompts calc s (i # is) t =
     bnd (prop_visible calc s i) (\<lambda>v. calc_prompts calc s is (EXPR_OR t v))"

text \<open>A field that holds the new value already is left alone; otherwise the symbol has changed.\<close>

definition store_tri :: "sym \<Rightarrow> (symbol \<Rightarrow> tristate) \<Rightarrow> (tristate \<Rightarrow> symbol \<Rightarrow> symbol) \<Rightarrow> tristate \<Rightarrow> unit kprog" where
  "store_tri s get put t =
     bnd (at s get) (\<lambda>old. if old \<noteq> t then thn (upd s (put t)) (sym_set_changed s) else ret ())"

definition sym_calc_visibility :: "calc \<Rightarrow> sym \<Rightarrow> unit kprog" where
  "sym_calc_visibility calc s =
     bnd (prop_indices s (\<lambda>p. ptext p \<noteq> None)) (\<lambda>is.
     bnd (calc_prompts calc s is No) (\<lambda>t.
     bnd (gets (\<lambda>k. t = Mod \<and> (stype (symtab k s) \<noteq> S_TRISTATE \<or> modules_val k = No))) (\<lambda>full.
     thn (store_tri s visible (\<lambda>v y. y\<lparr>visible := v\<rparr>) (if full then Yes else t))
     (bnd (at s sym_is_choice_value) (\<lambda>cv.
       if cv then ret ()
       else
         bnd (at s (\<lambda>y. vexpr (dir_dep y))) (\<lambda>d.
         bnd (case d of None \<Rightarrow> ret Yes | Some e \<Rightarrow> expr_calc_value_st calc e) (\<lambda>t1.
         thn (store_tri s (\<lambda>y. vtri (dir_dep y)) (\<lambda>v y. y\<lparr>dir_dep := (dir_dep y)\<lparr>vtri := v\<rparr>\<rparr>)
                (if t1 = Mod then Yes else t1))
         (bnd (at s (\<lambda>y. vexpr (rev_dep y))) (\<lambda>r.
         bnd (case r of None \<Rightarrow> ret No | Some e \<Rightarrow> expr_calc_value_st calc e) (\<lambda>t2.
         bnd (gets (\<lambda>k. t2 = Mod \<and> sym_get_type k s = S_BOOLEAN)) (\<lambda>up.
         store_tri s (\<lambda>y. vtri (rev_dep y)) (\<lambda>v y. y\<lparr>rev_dep := (rev_dep y)\<lparr>vtri := v\<rparr>\<rparr>)
           (if up then Yes else t2))))))))))))"

section \<open>Choices\<close>

primrec default_choice :: "calc \<Rightarrow> sym \<Rightarrow> nat list \<Rightarrow> sym option kprog" where
  "default_choice calc s [] = ret None"
| "default_choice calc s (i # is) =
     bnd (prop_visible calc s i) (\<lambda>t.
       if t = No then default_choice calc s is
       else
         bnd (at s (\<lambda>y. props y ! i)) (\<lambda>p.
         bnd (deref (prop_get_symbol p)) (\<lambda>d.
         bnd (at d visible) (\<lambda>v. if v \<noteq> No then ret (Some d) else default_choice calc s is))))"

definition choice_syms :: "sym \<Rightarrow> sym list kprog" where
  "choice_syms s = bnd (at s sym_get_choice_prop) (\<lambda>p. bnd (deref p) (\<lambda>p'. ret (list_syms (pexpr p'))))"

definition sym_choice_default :: "calc \<Rightarrow> sym \<Rightarrow> sym option kprog" where
  "sym_choice_default calc s =
     bnd (prop_indices s (\<lambda>p. ptype p = P_DEFAULT)) (\<lambda>is.
     bnd (default_choice calc s is) (\<lambda>d. case d of Some x \<Rightarrow> ret (Some x)
     | None \<Rightarrow> bnd (choice_syms s) (\<lambda>cs. gets (\<lambda>k. find (\<lambda>c. visible (symtab k c) \<noteq> No) cs))))"

primrec choice_flags :: "calc \<Rightarrow> sym list \<Rightarrow> sym_flag set \<Rightarrow> sym_flag set kprog" where
  "choice_flags calc [] F = ret F"
| "choice_flags calc (d # ds) F =
     thn (sym_calc_visibility calc d)
       (bnd (at d (\<lambda>y. (visible y, flags y))) (\<lambda>(v, G).
          choice_flags calc ds (if v \<noteq> No then F \<inter> G else F)))"

definition sym_calc_choice :: "calc \<Rightarrow> sym \<Rightarrow> sym option kprog" where
  "sym_calc_choice calc s =
     bnd (at s flags) (\<lambda>F0.
     bnd (choice_syms s) (\<lambda>cs.
     bnd (choice_flags calc cs F0) (\<lambda>F.
     thn (upd s (\<lambda>y. y\<lparr>flags := flags y \<inter> (F \<union> - {SYMBOL_DEF_USER})\<rparr>))
     (bnd (at s (\<lambda>y. val (def_user y))) (\<lambda>u.
     bnd (case u of
            V_sym d \<Rightarrow> bnd (at d visible) (\<lambda>v. ret (if v \<noteq> No then Some d else None))
          | V_null \<Rightarrow> ret None
          | V_str _ \<Rightarrow> crash) (\<lambda>d. case d of Some x \<Rightarrow> ret (Some x)
     | None \<Rightarrow>
        bnd (sym_choice_default calc s) (\<lambda>d'.
          if d' = None then thn (upd s (\<lambda>y. y\<lparr>curr := (curr y)\<lparr>tri := No\<rparr>\<rparr>)) (ret None)
          else ret d')))))))"

text \<open>\<^verbatim>\<open>set_all_choice_values\<close> is in \<^verbatim>\<open>confdata.c\<close>.\<close>

definition set_all_choice_values :: "sym \<Rightarrow> unit kprog" where
  "set_all_choice_values c =
     bnd (choice_syms c) (\<lambda>cs.
     thn (for_each cs (\<lambda>s. bnd (at s sym_has_value) (\<lambda>h.
            unless h (upd s (\<lambda>y. y\<lparr>def_user := (def_user y)\<lparr>tri := No\<rparr>\<rparr>)))))
     (thn (set_flags c {SYMBOL_DEF_USER})
       (clear_flags c {SYMBOL_VALID, SYMBOL_NEED_SET_CHOICE_VALUES})))"

section \<open>The value of a symbol\<close>

text \<open>
  \<open>choice_of\<close> is \<^verbatim>\<open>prop_get_symbol(sym_get_choice_prop(sym))\<close>: the choice a choice value
  belongs to.
\<close>

definition choice_of :: "sym \<Rightarrow> sym option kprog" where
  "choice_of s = bnd (at s sym_get_choice_prop) (\<lambda>p. bnd (deref p) (\<lambda>p'. ret (prop_get_symbol p')))"

text \<open>The default of a boolean or tristate symbol, which a choice symbol does not have.\<close>

definition calc_default :: "calc \<Rightarrow> sym \<Rightarrow> tristate kprog" where
  "calc_default calc s =
     bnd (at s sym_is_choice) (\<lambda>ch.
       if ch then ret No
       else bnd (sym_get_default_prop calc s) (\<lambda>prop. case prop of None \<Rightarrow> ret No
         | Some (p, vis) \<Rightarrow>
            thn (set_flags s {SYMBOL_WRITE})
              (bnd (eval_null calc (pexpr p)) (\<lambda>t. ret (EXPR_AND t vis)))))"

text \<open>
  The leaf of the unmet dependency that is printed; what it reads outside the tree is a crash.
\<close>

definition warn_unmet :: "sym \<Rightarrow> unit kprog" where
  "warn_unmet s =
     bnd (gets (\<lambda>k. (k, dir_dep (symtab k s), rev_dep (symtab k s)))) (\<lambda>(k, dd, rd).
       if vtri dd = No \<and> vtri rd \<noteq> No then
         (case (vexpr rd, vexpr dd) of
            (Some e1, Some e2) \<Rightarrow>
              (case expr_simplify_unmet_dep k e1 e2 of None \<Rightarrow> crash | Some _ \<Rightarrow> ret ())
          | _ \<Rightarrow> crash)
       else ret ())"

text \<open>The value of a member of a choice, the user's or default value of another symbol, and its selection.\<close>

definition calc_member :: "sym \<Rightarrow> tristate kprog" where
  "calc_member s =
     bnd (choice_of s) (\<lambda>c. bnd (deref c) (\<lambda>c'.
       bnd (at c' (\<lambda>y. val (curr y))) (\<lambda>v. ret (if v = V_sym s then Yes else No))))"

definition calc_user :: "calc \<Rightarrow> sym \<Rightarrow> tristate kprog" where
  "calc_user calc s =
     bnd (at s (\<lambda>y. visible y \<noteq> No)) (\<lambda>vis.
     thn (unless (\<not> vis) (set_flags s {SYMBOL_WRITE}))
     (bnd (at s (\<lambda>y. vis \<and> sym_has_value y)) (\<lambda>user.
       if user then at s (\<lambda>y. EXPR_AND (tri (def_user y)) (visible y))
       else
         bnd (at s (\<lambda>y. vtri (rev_dep y) \<noteq> No)) (\<lambda>sel.
         thn (unless (\<not> sel) (set_flags s {SYMBOL_WRITE}))
           (calc_default calc s)))))"

definition calc_selected :: "calc \<Rightarrow> sym \<Rightarrow> tristate kprog" where
  "calc_selected calc s =
     bnd (calc_user calc s) (\<lambda>t.
     thn (warn_unmet s) (at s (\<lambda>y. EXPR_OR t (vtri (rev_dep y)))))"

definition calc_tristate :: "calc \<Rightarrow> sym \<Rightarrow> tristate kprog" where
  "calc_tristate calc s =
     bnd (at s (\<lambda>y. sym_is_choice_value y \<and> visible y = Yes)) (\<lambda>cv.
     bnd (if cv then calc_member s else calc_selected calc s) (\<lambda>t.
       gets (\<lambda>k. if t = Mod \<and> sym_get_type k s = S_BOOLEAN then Yes else t)))"

definition calc_string :: "calc \<Rightarrow> sym \<Rightarrow> sval kprog" where
  "calc_string calc s =
     bnd (at s (\<lambda>y. visible y \<noteq> No)) (\<lambda>vis.
     thn (unless (\<not> vis) (set_flags s {SYMBOL_WRITE}))
     (bnd (at s (\<lambda>y. vis \<and> sym_has_value y)) (\<lambda>user.
       if user then at s (\<lambda>y. val (def_user y))
       else
         bnd (sym_get_default_prop calc s) (\<lambda>prop. case prop of None \<Rightarrow> ret (V_str [])
         | Some (p, _) \<Rightarrow>
            (case prop_get_symbol p of None \<Rightarrow> ret (V_str [])
             | Some ds \<Rightarrow>
                thn (set_flags s {SYMBOL_WRITE})
                  (thn (calc ds) (at ds (\<lambda>y. val (curr y)))))))))"

definition set_curr :: "sym \<Rightarrow> symbol_value \<Rightarrow> unit kprog" where
  "set_curr s v = upd s (\<lambda>y. y\<lparr>curr := v\<rparr>)"

text \<open>The two values are compared; \<^verbatim>\<open>memcmp\<close> also tells equal strings apart that are copies.\<close>

definition note_change :: "sym \<Rightarrow> symbol_value \<Rightarrow> unit kprog" where
  "note_change s oldval =
     bnd (at s curr) (\<lambda>c. unless (c = oldval)
       (thn (sym_set_changed s)
         (bnd (gets modules_sym) (\<lambda>m. unless (m \<noteq> s)
           (thn sym_set_all_changed
             (modify (\<lambda>k. k\<lparr>modules_val := tri (curr (symtab k (modules_sym k)))\<rparr>)))))))"

definition mark_choice_values :: "sym \<Rightarrow> unit kprog" where
  "mark_choice_values s =
     bnd (at s sym_is_choice) (\<lambda>ch. unless (\<not> ch)
       (bnd (choice_syms s) (\<lambda>cs. for_each cs (\<lambda>c.
          bnd (at s (\<lambda>y. SYMBOL_WRITE \<in> flags y)) (\<lambda>w.
          bnd (at c visible) (\<lambda>v.
          thn (unless (\<not> (w \<and> v \<noteq> No)) (set_flags c {SYMBOL_WRITE}))
          (bnd (at s (\<lambda>y. SYMBOL_CHANGED \<in> flags y)) (\<lambda>chg.
            unless (\<not> chg) (sym_set_changed c)))))))))"

definition finish_value :: "calc \<Rightarrow> sym \<Rightarrow> symbol_value \<Rightarrow> symbol_value \<Rightarrow> unit kprog" where
  "finish_value calc s oldval newval =
     thn (set_curr s newval)
     (bnd (at s sym_is_choice) (\<lambda>ch.
     thn (unless (\<not> (ch \<and> tri newval = Yes))
            (bnd (sym_calc_choice calc s) (\<lambda>d.
              upd s (\<lambda>y. y\<lparr>curr := (curr y)\<lparr>val := (case d of None \<Rightarrow> V_null | Some x \<Rightarrow> V_sym x)\<rparr>\<rparr>))))
     (thn (sym_validate_range calc s)
     (thn (note_change s oldval)
     (thn (mark_choice_values s)
     (thn (bnd (at s (\<lambda>y. SYMBOL_AUTO \<in> flags y)) (\<lambda>a. unless (\<not> a) (clear_flags s {SYMBOL_WRITE})))
       (bnd (at s (\<lambda>y. SYMBOL_NEED_SET_CHOICE_VALUES \<in> flags y)) (\<lambda>n.
          unless (\<not> n) (set_all_choice_values s)))))))))"

definition calc_newval :: "calc \<Rightarrow> sym \<Rightarrow> symbol_value \<Rightarrow> symbol_value kprog" where
  "calc_newval calc s newval =
     bnd (gets (\<lambda>k. sym_get_type k s)) (\<lambda>ty.
       if ty \<in> {S_BOOLEAN, S_TRISTATE} then bnd (calc_tristate calc s) (\<lambda>t. ret (newval\<lparr>tri := t\<rparr>))
       else if ty \<in> {S_STRING, S_HEX, S_INT} then bnd (calc_string calc s) (\<lambda>v. ret (newval\<lparr>val := v\<rparr>))
       else ret newval)"

definition empty_value :: "symbol_type \<Rightarrow> symbol_value" where
  "empty_value ty = (if ty \<in> {S_INT, S_HEX, S_STRING} then \<lparr>val = V_str [], tri = No\<rparr>
                     else \<lparr>val = V_str ''n'', tri = No\<rparr>)"

text \<open>The write flag is dropped, the visibility calculated, and the empty value stored.\<close>

definition reset_value :: "calc \<Rightarrow> sym \<Rightarrow> symbol_value \<Rightarrow> unit kprog" where
  "reset_value calc s newval =
     bnd (at s sym_is_choice_value) (\<lambda>cv.
     thn (unless cv (clear_flags s {SYMBOL_WRITE}))
     (thn (sym_calc_visibility calc s) (set_curr s newval)))"

definition calc_typed :: "calc \<Rightarrow> sym \<Rightarrow> symbol_value \<Rightarrow> unit kprog" where
  "calc_typed calc s oldval =
     bnd (at s stype) (\<lambda>ty.
     thn (reset_value calc s (empty_value ty))
     (bnd (calc_newval calc s (empty_value ty)) (finish_value calc s oldval)))"

text \<open>
  The three phases of \<^verbatim>\<open>sym_calc_value\<close> on a symbol that is not valid: calculating the
  choice of a choice value, marking the symbol valid, and calculating the value by type.
\<close>

definition calc_choice_first :: "calc \<Rightarrow> sym \<Rightarrow> sym_flag set \<Rightarrow> unit kprog" where
  "calc_choice_first calc s F =
     unless (\<not> (SYMBOL_CHOICEVAL \<in> F \<and> SYMBOL_NEED_SET_CHOICE_VALUES \<in> F))
       (thn (clear_flags s {SYMBOL_NEED_SET_CHOICE_VALUES})
         (bnd (choice_of s) (\<lambda>c. case c of None \<Rightarrow> ret () | Some c' \<Rightarrow> calc c')))"

definition calc_by_type :: "calc \<Rightarrow> sym \<Rightarrow> unit kprog" where
  "calc_by_type calc s =
     bnd (at s (\<lambda>y. (curr y, stype y, sname y))) (\<lambda>(oldval, ty, nm).
       if ty \<in> {S_UNKNOWN, S_OTHER}
       then set_curr s \<lparr>val = (case nm of None \<Rightarrow> V_null | Some n \<Rightarrow> V_str n), tri = No\<rparr>
       else calc_typed calc s oldval)"

definition sym_calc_value_body :: "calc \<Rightarrow> calc" where
  "sym_calc_value_body calc s =
     bnd (at s flags) (\<lambda>F.
       if SYMBOL_VALID \<in> F then ret ()
       else thn (calc_choice_first calc s F) (thn (set_flags s {SYMBOL_VALID}) (calc_by_type calc s)))"

primrec sym_calc_value :: "nat \<Rightarrow> calc" where
  "sym_calc_value 0 s = no_fuel"
| "sym_calc_value (Suc n) s = sym_calc_value_body (sym_calc_value n) s"

end
