(* ===== verification/Kconfig_Table.thy ===== *)
theory Kconfig_Table
  imports Kconfig_Symbol
begin

text \<open>
  The symbol table of \<^verbatim>\<open>support/kconfig/symbol.c\<close>: the hash function, \<^verbatim>\<open>sym_lookup\<close>,
  which allocates a symbol for a new name, and \<^verbatim>\<open>sym_find\<close>. The interface the parser relies
  on is a locale; the table is an instance of it.
\<close>

section \<open>Hashing and searching\<close>

text \<open>A \<^verbatim>\<open>char\<close> is signed where the tools run, so a byte above 127 is sign extended.\<close>

definition char_word :: "char \<Rightarrow> u32" where
  "char_word c = scast (word_of_nat (ascii c) :: u8)"

primrec fnv32 :: "u32 \<Rightarrow> string \<Rightarrow> u32" where
  "fnv32 hash [] = hash"
| "fnv32 hash (c # s) = fnv32 ((hash XOR char_word c) * 0x01000193) s"

definition strhash :: "string \<Rightarrow> u32" where
  "strhash s = fnv32 2166136261 s"

definition hash_of :: "string \<Rightarrow> nat" where
  "hash_of name = unat (strhash name) mod SYMBOL_HASHSIZE"

definition const_by_name :: "string \<Rightarrow> sym option" where
  "const_by_name name =
     (if name = ''y'' then Some symbol_yes else if name = ''m'' then Some symbol_mod
      else if name = ''n'' then Some symbol_no else None)"

definition lookup_match :: "kconf \<Rightarrow> string \<Rightarrow> sym_flag set \<Rightarrow> sym \<Rightarrow> bool" where
  "lookup_match k name F s \<longleftrightarrow> sname (symtab k s) = Some name
     \<and> (if F \<noteq> {} then flags (symtab k s) \<inter> F \<noteq> {}
        else flags (symtab k s) \<inter> {SYMBOL_CONST, SYMBOL_CHOICE} = {})"

definition alloc_symbol :: "string option \<Rightarrow> sym_flag set \<Rightarrow> nat \<Rightarrow> kconf \<Rightarrow> sym \<times> kconf" where
  "alloc_symbol name F h k =
     (let s = Sym (next_sym k) in
      (s, k\<lparr>symtab := (symtab k)(s := new_symbol name F),
            symbol_hash := (symbol_hash k)(h := s # symbol_hash k h),
            next_sym := Suc (next_sym k)\<rparr>))"

definition sym_lookup :: "string option \<Rightarrow> sym_flag set \<Rightarrow> kconf \<Rightarrow> sym \<times> kconf" where
  "sym_lookup name F k = (case name of
       None \<Rightarrow> alloc_symbol None F 0 k
     | Some nm \<Rightarrow>
        (case const_by_name nm of Some c \<Rightarrow> (c, k)
         | None \<Rightarrow>
            (case find (lookup_match k nm F) (symbol_hash k (hash_of nm)) of
               Some s \<Rightarrow> (s, k)
             | None \<Rightarrow> alloc_symbol (Some nm) F (hash_of nm) k)))"

definition sym_find :: "string option \<Rightarrow> kconf \<Rightarrow> sym option" where
  "sym_find name k = (case name of None \<Rightarrow> None
     | Some nm \<Rightarrow>
        (case const_by_name nm of Some c \<Rightarrow> Some c
         | None \<Rightarrow> find (\<lambda>s. sname (symtab k s) = Some nm \<and> SYMBOL_CONST \<notin> flags (symtab k s))
             (symbol_hash k (hash_of nm))))"

section \<open>What the parser relies on\<close>

primrec lookup_all :: "('n \<Rightarrow> 't \<Rightarrow> 's \<times> 't) \<Rightarrow> 'n list \<Rightarrow> 't \<Rightarrow> 't" where
  "lookup_all lookup [] t = t"
| "lookup_all lookup (n # ns) t = lookup_all lookup ns (snd (lookup n t))"

locale name_table =
  fixes lookup :: "'n \<Rightarrow> 't \<Rightarrow> 's \<times> 't"
    and invar :: "'t \<Rightarrow> bool"
  assumes invar_lookup: "invar t \<Longrightarrow> lookup n t = (s, t') \<Longrightarrow> invar t'"
    and lookup_again: "invar t \<Longrightarrow> lookup n t = (s, t') \<Longrightarrow> lookup n t' = (s, t')"
    and lookup_other: "invar t \<Longrightarrow> lookup n t = (s, t) \<Longrightarrow> lookup m t = (r, t') \<Longrightarrow> lookup n t' = (s, t')"
    and lookup_inj: "invar t \<Longrightarrow> lookup n t = (s, t) \<Longrightarrow> lookup m t = (s, t) \<Longrightarrow> n = m"
begin

lemma invar_lookup_all: "invar t \<Longrightarrow> invar (lookup_all lookup ns t)"
  by (induction ns arbitrary: t) (auto intro: invar_lookup [OF _ surjective_pairing])

lemma lookup_stable: "invar t \<Longrightarrow> lookup n t = (s, t) \<Longrightarrow> lookup n (lookup_all lookup ns t) = (s, lookup_all lookup ns t)"
proof (induction ns arbitrary: t)
  case (Cons m ns)
  let ?t = "snd (lookup m t)"
  have "lookup n ?t = (s, ?t)" using lookup_other [OF Cons.prems surjective_pairing] .
  moreover have "invar ?t" using invar_lookup [OF Cons.prems(1) surjective_pairing] .
  ultimately show ?case using Cons.IH by simp
qed simp

text \<open>
  Whatever else is looked up before, between and after, a name stands for one symbol, and two
  names stand for two.
\<close>

lemma names_denote:
  assumes "invar t" and n: "lookup n t = (s, t1)" and m: "lookup m (lookup_all lookup ns t1) = (r, t2)"
  shows "lookup n (lookup_all lookup ms t2) = (s, lookup_all lookup ms t2)" and "n = m \<longleftrightarrow> s = r"
proof -
  let ?u = "lookup_all lookup ns t1"
  have i1: "invar t1" by (rule invar_lookup [OF assms(1) n])
  have iu: "invar ?u" by (rule invar_lookup_all [OF i1])
  have i2: "invar t2" by (rule invar_lookup [OF iu m])
  have nu: "lookup n ?u = (s, ?u)" by (rule lookup_stable [OF i1 lookup_again [OF assms(1) n]])
  have n2: "lookup n t2 = (s, t2)" by (rule lookup_other [OF iu nu m])
  have m2: "lookup m t2 = (r, t2)" by (rule lookup_again [OF iu m])
  show "lookup n (lookup_all lookup ms t2) = (s, lookup_all lookup ms t2)" by (rule lookup_stable [OF i2 n2])
  show "n = m \<longleftrightarrow> s = r"
  proof
    assume "s = r"
    with m2 have "lookup m t2 = (s, t2)" by (simp only:)
    then show "n = m" by (rule lookup_inj [OF i2 n2])
  qed (use n2 m2 in \<open>simp only: prod.inject\<close>)
qed

end

section \<open>The table is such an interface\<close>

definition table_ok :: "kconf \<Rightarrow> bool" where
  "table_ok k \<longleftrightarrow> (\<forall>i. \<forall>s \<in> set (symbol_hash k i). \<exists>n < next_sym k. s = Sym n)"

definition lookup_name :: "string \<Rightarrow> kconf \<Rightarrow> sym \<times> kconf" where
  "lookup_name nm k = sym_lookup (Some nm) {} k"

lemma const_by_name_inj: "const_by_name n = Some s \<Longrightarrow> const_by_name m = Some s \<Longrightarrow> n = m"
  by (auto simp: const_by_name_def split: if_splits)

lemma const_not_Sym: "const_by_name n \<noteq> Some (Sym i)"
  by (auto simp: const_by_name_def)

lemma find_new:
  "table_ok k \<Longrightarrow> find (lookup_match (k\<lparr>symtab := (symtab k)(Sym (next_sym k) := y), symbol_hash := h, next_sym := n\<rparr>) nm F)
     (symbol_hash k i) = find (lookup_match k nm F) (symbol_hash k i)"
proof (rule find_cong [OF refl])
  fix s assume k: "table_ok k" and "s \<in> set (symbol_hash k i)"
  then have "s \<noteq> Sym (next_sym k)" by (auto simp: table_ok_def)
  then show "lookup_match (k\<lparr>symtab := (symtab k)(Sym (next_sym k) := y), symbol_hash := h, next_sym := n\<rparr>) nm F s
      = lookup_match k nm F s" by (simp add: lookup_match_def)
qed

lemma lookup_name_cases:
  assumes "lookup_name nm k = (s, k')"
  obtains (const) "const_by_name nm = Some s" "k' = k"
  | (found) "const_by_name nm = None" "k' = k" "find (lookup_match k nm {}) (symbol_hash k (hash_of nm)) = Some s"
  | (alloc) "const_by_name nm = None" "find (lookup_match k nm {}) (symbol_hash k (hash_of nm)) = None"
      "s = Sym (next_sym k)"
      "k' = k\<lparr>symtab := (symtab k)(s := new_symbol (Some nm) {}),
              symbol_hash := (symbol_hash k)(hash_of nm := s # symbol_hash k (hash_of nm)),
              next_sym := Suc (next_sym k)\<rparr>"
  using assms by (auto simp: lookup_name_def sym_lookup_def alloc_symbol_def Let_def split: option.splits)

lemma table_ok_alloc:
  "table_ok k \<Longrightarrow> table_ok (k\<lparr>symtab := y, symbol_hash := (symbol_hash k)(i := Sym (next_sym k) # symbol_hash k i),
      next_sym := Suc (next_sym k)\<rparr>)"
  by (auto simp: table_ok_def less_Suc_eq)

lemma lookup_name_present: "lookup_name nm k = (s, k) \<longleftrightarrow>
    const_by_name nm = Some s
    \<or> const_by_name nm = None \<and> find (lookup_match k nm {}) (symbol_hash k (hash_of nm)) = Some s"
proof
  assume "lookup_name nm k = (s, k)"
  then show "const_by_name nm = Some s
    \<or> const_by_name nm = None \<and> find (lookup_match k nm {}) (symbol_hash k (hash_of nm)) = Some s"
  proof (cases rule: lookup_name_cases)
    case alloc
    from arg_cong [OF alloc(4), of next_sym] show ?thesis by simp
  qed auto
qed (auto simp: lookup_name_def sym_lookup_def)

lemma lookup_name_again:
  assumes k: "table_ok k" and l: "lookup_name n k = (s, k')"
  shows "lookup_name n k' = (s, k')"
  using l
proof (cases rule: lookup_name_cases)
  case alloc
  then show ?thesis
    by (simp add: lookup_name_present lookup_match_def new_symbol_def)
qed (simp_all add: lookup_name_present)

lemma lookup_name_other:
  assumes k: "table_ok k" and n: "lookup_name n k = (s, k)" and m: "lookup_name m k = (r, k')"
  shows "lookup_name n k' = (s, k')"
  using m
proof (cases rule: lookup_name_cases)
  case alloc
  have "n \<noteq> m" using n alloc by (auto simp: lookup_name_present)
  then have new: "\<not> lookup_match k' n {} r"
    by (simp add: lookup_match_def alloc(4) new_symbol_def)
  have old: "find (lookup_match k' n {}) (symbol_hash k i) = find (lookup_match k n {}) (symbol_hash k i)" for i
    unfolding alloc(3,4) by (rule find_new [OF k])
  have hash: "symbol_hash k' = (symbol_hash k)(hash_of m := r # symbol_hash k (hash_of m))"
    by (simp add: alloc(4))
  show ?thesis using n new old by (auto simp: lookup_name_present hash)
qed (use n in simp_all)

interpretation symbols: name_table lookup_name table_ok
proof
  fix k k' n s assume k: "table_ok k" and l: "lookup_name n k = (s, k')"
  from l show "table_ok k'"
    by (cases rule: lookup_name_cases) (use k table_ok_alloc in auto)
  from k l show "lookup_name n k' = (s, k')" by (rule lookup_name_again)
next
  fix k n s m r k'
  assume "table_ok k" "lookup_name n k = (s, k)" "lookup_name m k = (r, k')"
  then show "lookup_name n k' = (s, k')" by (rule lookup_name_other)
next
  fix k n s m
  assume k: "table_ok k" and n: "lookup_name n k = (s, k)" and m: "lookup_name m k = (s, k)"
  have s: "\<exists>i. s = Sym i" if "find (lookup_match k a {}) (symbol_hash k (hash_of a)) = Some s" for a
  proof -
    have "s \<in> set (symbol_hash k (hash_of a))" using that by (auto simp: find_Some_iff)
    then show ?thesis using k by (auto simp: table_ok_def)
  qed
  have nm: "sname (symtab k s) = Some a" if "find (lookup_match k a {}) (symbol_hash k (hash_of a)) = Some s" for a
    using that by (auto simp: find_Some_iff lookup_match_def)
  from n m show "n = m"
    unfolding lookup_name_present
    using const_by_name_inj s nm const_not_Sym by (metis option.inject)
qed

section \<open>Properties\<close>

text \<open>
  C25. A name given to \<^verbatim>\<open>sym_lookup\<close> stands for one symbol, whatever names are looked up
  before, between and after, and two different names stand for two different symbols.
\<close>

theorem lookup_names_denote:
  assumes "table_ok k" and "lookup_name n k = (s, k1)"
    and "lookup_name m (lookup_all lookup_name ns k1) = (r, k2)"
  shows "lookup_name n (lookup_all lookup_name ms k2) = (s, lookup_all lookup_name ms k2)
     \<and> (n = m \<longleftrightarrow> s = r)"
  using symbols.names_denote [OF assms] by blast

lemma table_ok_mk: "table_ok (mk_kconf f)"
  by (simp add: table_ok_def mk_kconf_def)

theorem lookup_names_denote_witness:
  "\<exists>s r k1 k2. lookup_name ''BR2_ARM'' (mk_kconf (\<lambda>_. symbol_empty)) = (s, k1)
     \<and> lookup_name ''BR2_MIPS'' (lookup_all lookup_name [''y''] k1) = (r, k2) \<and> s \<noteq> r"
proof -
  let ?k = "mk_kconf (\<lambda>_. symbol_empty)"
  obtain s k1 where 1: "lookup_name ''BR2_ARM'' ?k = (s, k1)" by fastforce
  obtain r k2 where 2: "lookup_name ''BR2_MIPS'' (lookup_all lookup_name [''y''] k1) = (r, k2)" by fastforce
  have "s \<noteq> r" using lookup_names_denote [OF table_ok_mk 1 2] by simp
  with 1 2 show ?thesis by blast
qed

end
