(* ===== verification/Kconfig_Calc.thy ===== *)
theory Kconfig_Calc
  imports Kconfig_Symbol
begin

text \<open>
  What the calculation of a symbol's value does to the state. The locales follow any relation
  between states that the elementary updates respect through the functions of
  \<open>Kconfig_Symbol\<close>; they are instantiated with the measure that bounds the recursion, with the
  memoisation of calculated values, and with the parts of a symbol that never change.
\<close>

section \<open>Elementary updates\<close>

definition kept_flags :: "sym_flag set" where
  "kept_flags = {SYMBOL_CONST, SYMBOL_CHOICE, SYMBOL_CHOICEVAL, SYMBOL_OPTIONAL, SYMBOL_AUTO}"

definition calc_flags :: "sym_flag set" where
  "calc_flags = {SYMBOL_VALID, SYMBOL_NEED_SET_CHOICE_VALUES}"

definition prop_static :: "property \<Rightarrow> prop_type \<times> string option \<times> expr option \<times> expr option" where
  "prop_static p = (ptype p, ptext p, vexpr (pvisible p), pexpr p)"

text \<open>The part of a symbol that parsing fixes.\<close>

definition static_eq :: "symbol \<Rightarrow> symbol \<Rightarrow> bool" where
  "static_eq y z \<longleftrightarrow> sname z = sname y \<and> stype z = stype y
     \<and> flags z \<inter> kept_flags = flags y \<inter> kept_flags
     \<and> map prop_static (props z) = map prop_static (props y)
     \<and> vexpr (dir_dep z) = vexpr (dir_dep y) \<and> vexpr (rev_dep z) = vexpr (rev_dep y)"

text \<open>
  Updates that leave the current value and the two flags of the calculation alone, and those
  that may change the current value.
\<close>

definition own :: "(symbol \<Rightarrow> symbol) \<Rightarrow> bool" where
  "own f \<longleftrightarrow> (\<forall>y. static_eq y (f y) \<and> flags (f y) \<inter> calc_flags = flags y \<inter> calc_flags)"

definition quiet :: "(symbol \<Rightarrow> symbol) \<Rightarrow> bool" where
  "quiet f \<longleftrightarrow> own f \<and> (\<forall>y. curr (f y) = curr y)"

lemma static_eq_refl: "static_eq y y"
  by (simp add: static_eq_def)

lemma static_eq_trans: "static_eq x y \<Longrightarrow> static_eq y z \<Longrightarrow> static_eq x z"
  by (simp add: static_eq_def)

lemma map_prop_static:
  "map prop_static (props (set_prop_tri i t y)) = map prop_static (props y)"
proof -
  have "map prop_static ((props y)[i := (props y ! i)\<lparr>pvisible := (pvisible (props y ! i))\<lparr>vtri := t\<rparr>\<rparr>])
      = (map prop_static (props y))[i := prop_static (props y ! i)]"
    by (simp add: map_update prop_static_def)
  also have "\<dots> = map prop_static (props y)"
    by (cases "i < length (props y)") (simp_all add: list_update_same_conv list_update_beyond)
  finally show ?thesis by (simp add: set_prop_tri_def)
qed

lemma quiet_flags:
  "F \<inter> (kept_flags \<union> calc_flags) = {} \<Longrightarrow> quiet (\<lambda>y. y\<lparr>flags := flags y \<union> F\<rparr>)"
  "F \<inter> (kept_flags \<union> calc_flags) = {} \<Longrightarrow> quiet (\<lambda>y. y\<lparr>flags := flags y - F\<rparr>)"
  "- F \<inter> (kept_flags \<union> calc_flags) = {} \<Longrightarrow> quiet (\<lambda>y. y\<lparr>flags := flags y \<inter> F\<rparr>)"
  by (auto simp: quiet_def own_def static_eq_def)

lemma quiet_fields:
  "quiet (set_prop_tri i t)" "quiet (\<lambda>y. y\<lparr>visible := v\<rparr>)"
  "quiet (\<lambda>y. y\<lparr>dir_dep := (dir_dep y)\<lparr>vtri := v\<rparr>\<rparr>)" "quiet (\<lambda>y. y\<lparr>rev_dep := (rev_dep y)\<lparr>vtri := v\<rparr>\<rparr>)"
  "quiet (\<lambda>y. y\<lparr>def_user := (def_user y)\<lparr>tri := v\<rparr>\<rparr>)"
proof -
  show "quiet (set_prop_tri i t)"
    using map_prop_static [of i t] by (simp add: quiet_def own_def static_eq_def) (simp add: set_prop_tri_def)
qed (simp_all add: quiet_def own_def static_eq_def)

lemma own_curr: "own (\<lambda>y. y\<lparr>curr := g y\<rparr>)"
  by (simp add: own_def static_eq_def)

lemma flags_disjoint:
  "{SYMBOL_CHANGED} \<inter> (kept_flags \<union> calc_flags) = {}"
  "{SYMBOL_WRITE} \<inter> (kept_flags \<union> calc_flags) = {}"
  "{SYMBOL_DEF_USER} \<inter> (kept_flags \<union> calc_flags) = {}"
  "- (F \<union> - {SYMBOL_DEF_USER}) \<inter> (kept_flags \<union> calc_flags) = {}"
  by (auto simp: kept_flags_def calc_flags_def)

lemma quiet_own: "quiet f \<Longrightarrow> own f"
  by (simp add: quiet_def)

section \<open>The functions that call the calculation\<close>

locale calc_relation = state_relation tot P R for tot and P :: "kconf \<Rightarrow> bool" and R +
  fixes calc :: calc
  assumes runs_calc: "runs tot P R (calc s)"
    and R_quiet: "quiet f \<Longrightarrow> P k \<Longrightarrow> R k (put_sym s f k)"
begin

lemma runs_at: "runs tot P R (at s f)"
  by (simp add: at_def runs_gets)

lemma runs_quiet: "quiet f \<Longrightarrow> runs tot P R (upd s f)"
  unfolding upd_def by (rule runs_modify) (rule R_quiet)

lemma runs_set_quiet:
  "F \<inter> (kept_flags \<union> calc_flags) = {} \<Longrightarrow> runs tot P R (set_flags s F)"
  "F \<inter> (kept_flags \<union> calc_flags) = {} \<Longrightarrow> runs tot P R (clear_flags s F)"
  by (simp_all add: set_flags_def clear_flags_def runs_quiet quiet_flags)

lemma runs_changed: "runs tot P R (sym_set_changed s)"
  by (simp add: sym_set_changed_def runs_set_quiet flags_disjoint)

lemma runs_tristate: "runs tot P R a \<Longrightarrow> runs tot P R b \<Longrightarrow> runs tot P R c \<Longrightarrow>
    runs tot P R (case t of No \<Rightarrow> a | Mod \<Rightarrow> b | Yes \<Rightarrow> c)"
  by (cases t) auto

lemmas calc_rules = runs_rules runs_at runs_calc runs_changed runs_tristate

lemma runs_strcmp: "runs tot P R (strcmp_eq a b)"
  by (auto simp: strcmp_eq_def runs_ret runs_crash split: sval.splits)

lemma runs_strtoll: "runs tot P R (strtoll_sval b v)"
  by (auto simp: strtoll_sval_def runs_ret runs_crash split: sval.splits)

lemma runs_string_value: "runs tot P R (sym_get_string_value_st calc s)"
  unfolding sym_get_string_value_st_def by (intro calc_rules)

lemma runs_expr: "runs tot P R (expr_calc_value_st calc e)"
  by (induction e) (auto simp: compare_syms_def intro!: calc_rules runs_string_value runs_strcmp)

lemma runs_eval_null: "runs tot P R (eval_null calc e)"
  unfolding eval_null_def by (intro calc_rules runs_expr)

lemma runs_prop_visible: "runs tot P R (prop_visible calc s i)"
  unfolding prop_visible_def by (intro calc_rules runs_eval_null runs_quiet quiet_fields)

lemma runs_first_visible: "runs tot P R (first_visible calc s is)"
  by (induction "is") (auto intro!: calc_rules runs_prop_visible)

lemma runs_prop_indices: "runs tot P R (prop_indices s Q)"
  by (simp add: prop_indices_def runs_at)

lemma runs_default_prop: "runs tot P R (sym_get_default_prop calc s)"
  unfolding sym_get_default_prop_def by (intro calc_rules runs_prop_indices runs_first_visible)

lemma runs_range_prop: "runs tot P R (sym_get_range_prop calc s)"
  unfolding sym_get_range_prop_def by (intro calc_rules runs_prop_indices runs_first_visible)

lemma runs_range_val: "runs tot P R (sym_get_range_val calc s b)"
  unfolding sym_get_range_val_def
  by (intro calc_rules) (auto split: prod.splits intro: runs_strtoll)

lemma runs_range_clamp: "runs tot P R (range_clamp calc b lo hi v)"
  unfolding range_clamp_def by (intro calc_rules runs_range_val)

lemma runs_prompts: "runs tot P R (calc_prompts calc s is t)"
  by (induction "is" arbitrary: t) (auto intro!: calc_rules runs_prop_visible)

lemma runs_store: "(\<And>v. quiet (put v)) \<Longrightarrow> runs tot P R (store_tri s get put t)"
  unfolding store_tri_def by (intro calc_rules runs_quiet)

lemma runs_visibility: "runs tot P R (sym_calc_visibility calc s)"
  unfolding sym_calc_visibility_def
  by (intro calc_rules runs_prop_indices runs_prompts runs_expr runs_store quiet_fields)

lemma runs_default_choice: "runs tot P R (default_choice calc s is)"
  by (induction "is") (auto intro!: calc_rules runs_prop_visible)

lemma runs_choice_syms: "runs tot P R (choice_syms s)"
  unfolding choice_syms_def by (intro calc_rules)

lemma runs_choice_default: "runs tot P R (sym_choice_default calc s)"
  unfolding sym_choice_default_def
  by (intro calc_rules runs_prop_indices runs_default_choice runs_choice_syms)

lemma runs_choice_flags: "runs tot P R (choice_flags calc ds F)"
  by (induction ds arbitrary: F) (auto intro!: calc_rules runs_visibility split: prod.splits)

lemma runs_choice_of: "runs tot P R (choice_of s)"
  unfolding choice_of_def by (intro calc_rules)

lemma runs_write: "runs tot P R (set_flags s {SYMBOL_WRITE})" "runs tot P R (clear_flags s {SYMBOL_WRITE})"
  by (simp_all add: runs_set_quiet flags_disjoint)

lemma runs_calc_default: "runs tot P R (calc_default calc s)"
  unfolding calc_default_def
  by (intro calc_rules runs_default_prop)
     (auto intro!: calc_rules runs_eval_null runs_write split: prod.splits)

lemma runs_warn: "runs tot P R (warn_unmet s)"
  unfolding warn_unmet_def
  by (intro calc_rules) (auto intro!: calc_rules split: prod.splits option.splits)

lemma runs_calc_tristate: "runs tot P R (calc_tristate calc s)"
  unfolding calc_tristate_def calc_member_def calc_selected_def calc_user_def
  by (intro calc_rules runs_choice_of runs_calc_default runs_warn runs_write)

lemma runs_calc_string: "runs tot P R (calc_string calc s)"
  unfolding calc_string_def
  by (intro calc_rules runs_default_prop runs_write)
     (auto intro!: calc_rules runs_write split: prod.splits option.splits)

end

section \<open>The symbol under calculation\<close>

definition needs_set :: "kconf \<Rightarrow> sym \<Rightarrow> bool" where
  "needs_set k s \<longleftrightarrow> SYMBOL_NEED_SET_CHOICE_VALUES \<in> flags (symtab k s)"

definition is_valid :: "kconf \<Rightarrow> sym \<Rightarrow> bool" where
  "is_valid k s \<longleftrightarrow> SYMBOL_VALID \<in> flags (symtab k s)"

locale value_relation = calc_relation tot P R calc for tot P R calc +
  fixes self :: sym
  assumes R_own: "own f \<Longrightarrow> P k \<Longrightarrow> R k (put_sym self f k)"
    and R_modules: "P k \<Longrightarrow> R k (k\<lparr>modules_val := t\<rparr>)"
    and R_all_changed: "runs tot P R sym_set_all_changed"
    and R_set_all: "runs tot (\<lambda>k. P k \<and> needs_set k self) R (set_all_choice_values self)"
begin

lemma runs_own: "own f \<Longrightarrow> runs tot P R (upd self f)"
  unfolding upd_def by (rule runs_modify) (rule R_own)

lemma runs_set_curr: "runs tot P R (set_curr self v)"
  unfolding set_curr_def by (rule runs_own) (rule own_curr)

lemma runs_calc_choice: "runs tot P R (sym_calc_choice calc self)"
proof -
  have 1: "runs tot P R (upd self (\<lambda>y. y\<lparr>flags := flags y \<inter> (F \<union> - {SYMBOL_DEF_USER})\<rparr>))" for F
    by (intro runs_quiet quiet_flags flags_disjoint)
  have 2: "runs tot P R (upd self (\<lambda>y. y\<lparr>curr := (curr y)\<lparr>tri := No\<rparr>\<rparr>))"
    by (intro runs_own own_curr)
  have 3: "runs tot P R (case u of
      V_null \<Rightarrow> ret None | V_str x \<Rightarrow> crash
    | V_sym d \<Rightarrow> bnd (at d visible) (\<lambda>v. ret (if v \<noteq> No then Some d else None)))" for u
    by (cases u) (auto intro: calc_rules)
  show ?thesis
    unfolding sym_calc_choice_def
    by (intro calc_rules runs_choice_syms runs_choice_flags runs_choice_default 1 2 3)
qed

lemma runs_validate_range: "runs tot P R (sym_validate_range calc self)"
proof -
  have 1: "runs tot P R (case w of None \<Rightarrow> ret () | Some v2 \<Rightarrow>
      upd self (\<lambda>y. y\<lparr>curr := (curr y)\<lparr>val := g v2\<rparr>\<rparr>))" for w and g :: "int \<Rightarrow> sval"
    by (auto intro!: runs_ret runs_own own_curr split: option.splits)
  show ?thesis
    unfolding sym_validate_range_def
    by (intro calc_rules runs_range_prop)
       (auto intro!: calc_rules runs_range_prop runs_strtoll runs_range_clamp 1 split: prod.splits)
qed

lemma runs_note_change: "runs tot P R (note_change self old)"
  unfolding note_change_def by (intro calc_rules R_all_changed runs_modify R_modules)

lemma runs_mark_values: "runs tot P R (mark_choice_values s)"
  unfolding mark_choice_values_def by (intro calc_rules runs_choice_syms runs_write)

lemma runs_set_all_if_needed:
  "runs tot P R (bnd (at self (\<lambda>y. SYMBOL_NEED_SET_CHOICE_VALUES \<in> flags y))
     (\<lambda>n. unless (\<not> n) (set_all_choice_values self)))"
  using R_set_all R_refl
  by (auto simp: runs_def at_def gets_def bnd_def unless_def ret_def needs_set_def split: if_splits)

lemma runs_finish: "runs tot P R (finish_value calc self old new)"
  unfolding finish_value_def
  by (intro calc_rules runs_set_curr runs_calc_choice runs_own own_curr runs_validate_range
      runs_note_change runs_mark_values runs_write runs_set_all_if_needed)

lemma runs_reset: "runs tot P R (reset_value calc self v)"
  unfolding reset_value_def by (intro calc_rules runs_write runs_visibility runs_set_curr)

lemma runs_newval: "runs tot P R (calc_newval calc self v)"
  unfolding calc_newval_def by (intro calc_rules runs_calc_tristate runs_calc_string)

lemma runs_calc_typed: "runs tot P R (calc_typed calc self old)"
  unfolding calc_typed_def by (intro calc_rules runs_reset runs_newval runs_finish)

text \<open>The calculation from the point on where the symbol is marked valid.\<close>

lemma runs_by_type: "runs tot P R (calc_by_type calc self)"
  unfolding calc_by_type_def
  by (intro calc_rules) (auto intro!: calc_rules runs_set_curr runs_calc_typed split: prod.splits)

end

section \<open>The recursion ends\<close>

text \<open>
  The weight of a symbol: 1 while it is to be calculated, and 2 more while the values of its
  choice are to be set. A calculation never raises the weight of any symbol, and a nested one
  starts at a smaller total.
\<close>

definition weight :: "kconf \<Rightarrow> sym \<Rightarrow> nat" where
  "weight k s = (if is_valid k s then 0 else 1) + (if needs_set k s then 2 else 0)"

definition wle :: "kconf \<Rightarrow> kconf \<Rightarrow> bool" where
  "wle k k' \<longleftrightarrow> (\<forall>s. weight k' s \<le> weight k s)"

definition pending :: "sym set \<Rightarrow> kconf \<Rightarrow> bool" where
  "pending U k \<longleftrightarrow> (\<forall>s. s \<notin> U \<longrightarrow> weight k s = 0)"

definition total_weight :: "sym set \<Rightarrow> kconf \<Rightarrow> nat" where
  "total_weight U k = (\<Sum>s \<in> U. weight k s)"

definition lighter :: "sym set \<Rightarrow> nat \<Rightarrow> kconf \<Rightarrow> bool" where
  "lighter U n k \<longleftrightarrow> pending U k \<and> total_weight U k < n"

lemma weight_put_other [simp]: "t \<noteq> s \<Longrightarrow> weight (put_sym s f k) t = weight k t"
  by (simp add: weight_def is_valid_def needs_set_def put_sym_def)

lemma own_put_flags:
  assumes "own f"
  shows "is_valid (put_sym s f k) t = is_valid k t" and "needs_set (put_sym s f k) t = needs_set k t"
proof -
  have "flags (f (symtab k s)) \<inter> calc_flags = flags (symtab k s) \<inter> calc_flags"
    using assms by (simp add: own_def)
  then have "SYMBOL_VALID \<in> flags (f (symtab k s)) \<longleftrightarrow> SYMBOL_VALID \<in> flags (symtab k s)"
    "SYMBOL_NEED_SET_CHOICE_VALUES \<in> flags (f (symtab k s)) \<longleftrightarrow>
       SYMBOL_NEED_SET_CHOICE_VALUES \<in> flags (symtab k s)"
    unfolding calc_flags_def by blast+
  then show "is_valid (put_sym s f k) t = is_valid k t" "needs_set (put_sym s f k) t = needs_set k t"
    by (simp_all add: is_valid_def needs_set_def put_sym_def)
qed

lemma weight_put_own: "own f \<Longrightarrow> weight (put_sym s f k) t = weight k t"
  by (simp add: weight_def own_put_flags)

lemma wle_refl: "wle k k" and wle_trans: "wle k l \<Longrightarrow> wle l m \<Longrightarrow> wle k m"
  by (auto simp: wle_def intro: order_trans)

lemma total_weight_mono: "wle k l \<Longrightarrow> total_weight U l \<le> total_weight U k"
  by (simp add: total_weight_def wle_def sum_mono)

lemma lighter_closed: "lighter U n k \<Longrightarrow> wle k l \<Longrightarrow> lighter U n l"
  using total_weight_mono [of k l U]
  by (auto simp: lighter_def pending_def wle_def) (metis le_zero_eq)

lemma weight_all_changed: "sym_set_all_changed k = Ok (u, k') \<Longrightarrow> weight k' s = weight k s"
  by (auto simp: sym_set_all_changed_def upd_all_def weight_def is_valid_def needs_set_def)

lemma weight_modules [simp]: "weight (k\<lparr>modules_val := t\<rparr>) s = weight k s"
  by (simp add: weight_def is_valid_def needs_set_def)

text \<open>Setting the values of a choice is a sequence of quiet updates and one that clears the flags.\<close>

definition qeq :: "kconf \<Rightarrow> kconf \<Rightarrow> bool" where
  "qeq k l \<longleftrightarrow> modules_sym l = modules_sym k \<and> symbol_hash l = symbol_hash k \<and> next_sym l = next_sym k
     \<and> (\<forall>s. static_eq (symtab k s) (symtab l s) \<and> curr (symtab l s) = curr (symtab k s)
         \<and> flags (symtab l s) \<inter> calc_flags = flags (symtab k s) \<inter> calc_flags)"

lemma qeq_refl: "qeq k k"
  by (simp add: qeq_def static_eq_refl)

lemma qeq_trans: "qeq k l \<Longrightarrow> qeq l m \<Longrightarrow> qeq k m"
  unfolding qeq_def by (metis static_eq_trans)

interpretation q: state_relation True "\<lambda>_. True" qeq
  by unfold_locales (auto intro: qeq_refl qeq_trans)

lemma qeq_put: "quiet f \<Longrightarrow> qeq k (put_sym s f k)"
  by (auto simp: qeq_def put_sym_def quiet_def own_def static_eq_refl)

lemma qeq_flags:
  "qeq k l \<Longrightarrow> is_valid l s = is_valid k s" "qeq k l \<Longrightarrow> needs_set l s = needs_set k s"
  unfolding qeq_def is_valid_def needs_set_def calc_flags_def by blast+

lemma weight_qeq: "qeq k l \<Longrightarrow> weight l s = weight k s"
  by (simp add: weight_def qeq_flags)

definition done_flags :: "symbol \<Rightarrow> symbol" where
  "done_flags y = y\<lparr>flags := flags y - {SYMBOL_VALID, SYMBOL_NEED_SET_CHOICE_VALUES}\<rparr>"

lemma set_all_effect:
  "set_all_choice_values c k \<noteq> NoFuel"
  "set_all_choice_values c k = Ok (u, k') \<Longrightarrow> \<exists>l. qeq k l \<and> k' = put_sym c done_flags l"
proof -
  let ?loop = "\<lambda>cs. for_each cs (\<lambda>s. bnd (at s sym_has_value) (\<lambda>h.
            unless h (upd s (\<lambda>y. y\<lparr>def_user := (def_user y)\<lparr>tri := No\<rparr>\<rparr>))))"
  let ?m = "bnd (choice_syms c) (\<lambda>cs. thn (?loop cs) (set_flags c {SYMBOL_DEF_USER}))"
  have upd: "runs True (\<lambda>_. True) qeq (upd s f)" if "quiet f" for s f
    unfolding upd_def using that by (intro q.runs_modify qeq_put)
  have m: "runs True (\<lambda>_. True) qeq ?m"
    unfolding choice_syms_def at_def set_flags_def
    by (intro q.runs_rules upd quiet_fields quiet_flags flags_disjoint)
  have eq: "set_all_choice_values c = thn ?m (clear_flags c {SYMBOL_VALID, SYMBOL_NEED_SET_CHOICE_VALUES})"
    by (auto simp: set_all_choice_values_def thn_def bnd_def fun_eq_iff split: res.splits)
  show "set_all_choice_values c k \<noteq> NoFuel"
    using m unfolding eq runs_def
    by (auto simp: thn_def bnd_NoFuel clear_flags_def upd_def modify_def)
  show "\<exists>l. qeq k l \<and> k' = put_sym c done_flags l" if "set_all_choice_values c k = Ok (u, k')"
    using that m unfolding eq runs_def thn_Ok
    by (auto simp: clear_flags_def upd_def done_flags_def [abs_def])
qed

lemma weight_done:
  "needs_set k c \<Longrightarrow> weight (put_sym c done_flags k) s \<le> weight k s"
  by (cases "s = c") (auto simp: weight_def is_valid_def needs_set_def put_sym_def done_flags_def)

lemma fuel_relation:
  assumes "\<And>s. runs True (lighter U n) wle (sym_calc_value n s)"
  shows "value_relation True (lighter U n) wle (sym_calc_value n) self"
proof unfold_locales
  show "runs True (\<lambda>k. lighter U n k \<and> needs_set k self) wle (set_all_choice_values self)"
    unfolding runs_def
  proof (intro allI impI conjI)
    fix k u k'
    assume k: "lighter U n k \<and> needs_set k self" and "set_all_choice_values self k = Ok (u, k')"
    then obtain l where l: "qeq k l" "k' = put_sym self done_flags l" using set_all_effect(2) by blast
    with k have "needs_set l self" by (simp add: qeq_flags)
    with l show "wle k k'" using weight_done [of l self] by (simp add: wle_def weight_qeq)
  qed (rule set_all_effect(1))
  show "runs True (lighter U n) wle sym_set_all_changed"
    unfolding runs_def
    by (auto simp: wle_def weight_all_changed) (simp add: sym_set_all_changed_def upd_all_def modify_def)
qed (auto simp: assms wle_refl lighter_closed weight_put_own wle_def quiet_own intro: wle_trans order_trans)

lemma strictly_lighter:
  assumes "finite U" and "lighter U (Suc n) k" and "wle k l" and "weight l s < weight k s"
  shows "lighter U n l"
proof -
  have s: "s \<in> U" using assms(2,4) by (auto simp: lighter_def pending_def)
  have "total_weight U l < total_weight U k"
    unfolding total_weight_def using assms(1,3,4) s by (intro sum_strict_mono_ex1) (auto simp: wle_def)
  moreover have "pending U l" using assms(2,3) by (auto simp: lighter_def pending_def wle_def) (metis le_zero_eq)
  ultimately show ?thesis using assms(2) by (simp add: lighter_def)
qed

definition mark_valid :: "symbol \<Rightarrow> symbol" where
  "mark_valid y = y\<lparr>flags := flags y \<union> {SYMBOL_VALID}\<rparr>"

lemma weight_mark_valid:
  assumes "\<not> is_valid k s" and "wle k l"
  shows "wle k (put_sym s mark_valid l)" and "weight (put_sym s mark_valid l) s < weight k s"
proof -
  have l: "weight l s \<le> weight k s" using assms(2) by (simp add: wle_def)
  show *: "weight (put_sym s mark_valid l) s < weight k s"
    using l assms(1)
    by (auto simp: weight_def is_valid_def needs_set_def put_sym_def mark_valid_def split: if_splits)
  show "wle k (put_sym s mark_valid l)"
    unfolding wle_def
  proof
    fix t
    show "weight (put_sym s mark_valid l) t \<le> weight k t"
      using * assms(2) by (cases "t = s") (auto simp: wle_def)
  qed
qed

definition clear_need :: "symbol \<Rightarrow> symbol" where
  "clear_need y = y\<lparr>flags := flags y - {SYMBOL_NEED_SET_CHOICE_VALUES}\<rparr>"

lemma weight_clear_need:
  "needs_set k s \<Longrightarrow> weight (put_sym s clear_need k) s < weight k s"
  "wle k (put_sym s clear_need k)"
proof -
  show "needs_set k s \<Longrightarrow> weight (put_sym s clear_need k) s < weight k s"
    by (simp add: weight_def is_valid_def needs_set_def put_sym_def clear_need_def)
  have "weight (put_sym s clear_need k) t \<le> weight k t" for t
    by (cases "t = s") (auto simp: weight_def is_valid_def needs_set_def put_sym_def clear_need_def)
  then show "wle k (put_sym s clear_need k)" by (simp add: wle_def)
qed

lemma body_phases:
  "sym_calc_value_body calc s k =
     (if is_valid k s then Ok ((), k)
      else thn (calc_choice_first calc s (flags (symtab k s)))
             (thn (upd s mark_valid) (calc_by_type calc s)) k)"
  by (simp add: sym_calc_value_body_def at_def gets_def bnd_def is_valid_def set_flags_def
      mark_valid_def [abs_def] ret_def)

definition calc_choice_of :: "calc \<Rightarrow> sym \<Rightarrow> unit kprog" where
  "calc_choice_of calc s = bnd (choice_of s) (\<lambda>c. case c of None \<Rightarrow> ret () | Some c' \<Rightarrow> calc c')"

lemma choice_first_phases:
  "calc_choice_first calc s (flags (symtab k s)) k =
     (if sym_is_choice_value (symtab k s) \<and> needs_set k s
      then calc_choice_of calc s (put_sym s clear_need k) else Ok ((), k))"
  by (simp add: calc_choice_first_def calc_choice_of_def unless_def ret_def thn_def bnd_def
      clear_flags_def upd_def modify_def clear_need_def [abs_def] needs_set_def sym_is_choice_value_def)

lemma choice_first_fuel:
  assumes U: "finite U" and ih: "\<And>s. runs True (lighter U n) wle (sym_calc_value n s)"
    and k: "lighter U (Suc n) k"
  shows "calc_choice_first (sym_calc_value n) s (flags (symtab k s)) k \<noteq> NoFuel
    \<and> (\<forall>u k'. calc_choice_first (sym_calc_value n) s (flags (symtab k s)) k = Ok (u, k') \<longrightarrow> wle k k')"
proof (cases "sym_is_choice_value (symtab k s) \<and> needs_set k s")
  case True
  let ?k = "put_sym s clear_need k"
  note rel = fuel_relation [OF ih, THEN value_relation.axioms(1)]
  have "runs True (lighter U n) wle (calc_choice_of (sym_calc_value n) s)"
    unfolding calc_choice_of_def choice_of_def
    by (intro calc_relation.calc_rules [OF rel])
  moreover have "lighter U n ?k"
    using strictly_lighter [OF U k weight_clear_need(2) weight_clear_need(1)] True by simp
  moreover have "wle k ?k" by (rule weight_clear_need)
  ultimately show ?thesis
    using True by (auto simp: choice_first_phases runs_def intro: wle_trans)
next
  case False
  then have "calc_choice_first (sym_calc_value n) s (flags (symtab k s)) k = Ok ((), k)"
    unfolding choice_first_phases by (simp only: if_False)
  then show ?thesis by (simp add: wle_refl)
qed

lemma calc_value_runs:
  assumes U: "finite U"
  shows "runs True (lighter U n) wle (sym_calc_value n s)"
proof (induction n arbitrary: s)
  case 0
  show ?case by (simp add: runs_def lighter_def)
next
  case (Suc n)
  let ?calc = "sym_calc_value n"
  have by_type: "runs True (lighter U n) wle (calc_by_type ?calc s)"
    by (rule value_relation.runs_by_type [OF fuel_relation [OF Suc.IH]])
  show ?case
    unfolding runs_def
  proof (intro allI impI)
    fix k assume k: "lighter U (Suc n) k"
    note first = choice_first_fuel [OF U Suc.IH k, of s]
    have mark: "wle k (put_sym s mark_valid l) \<and> lighter U n (put_sym s mark_valid l)"
      if "\<not> is_valid k s" "calc_choice_first ?calc s (flags (symtab k s)) k = Ok (u, l)" for u l
      using that first weight_mark_valid [of k s l] strictly_lighter [OF U k] by blast
    have "by_type_ok": "calc_by_type ?calc s (put_sym s mark_valid l) \<noteq> NoFuel
        \<and> (\<forall>v m. calc_by_type ?calc s (put_sym s mark_valid l) = Ok (v, m) \<longrightarrow> wle k m)"
      if "\<not> is_valid k s" "calc_choice_first ?calc s (flags (symtab k s)) k = Ok (u, l)" for u l
      using by_type mark [OF that] unfolding runs_def by (blast intro: wle_trans)
    show "(True \<longrightarrow> sym_calc_value (Suc n) s k \<noteq> NoFuel)
        \<and> (\<forall>a k'. sym_calc_value (Suc n) s k = Ok (a, k') \<longrightarrow> wle k k')"
      using first by_type_ok
      by (auto simp: body_phases wle_refl thn_def bnd_NoFuel bnd_Ok upd_def modify_def)
  qed
qed

text \<open>
  With as much fuel as there are symbols to be calculated (a choice whose values are to be set
  counts three times), the calculation of a symbol ends, whatever the dependencies between the
  symbols are.
\<close>

lemma calc_value_ends:
  assumes "finite U" and "pending U k" and "total_weight U k < n"
  shows "sym_calc_value n s k \<noteq> NoFuel"
  using calc_value_runs [OF assms(1), of n s] assms by (auto simp: runs_def lighter_def)

section \<open>Calculated values stay\<close>

definition same_static :: "kconf \<Rightarrow> kconf \<Rightarrow> bool" where
  "same_static k l \<longleftrightarrow> modules_sym l = modules_sym k \<and> symbol_hash l = symbol_hash k
     \<and> next_sym l = next_sym k \<and> (\<forall>t. static_eq (symtab k t) (symtab l t))"

definition frame :: "sym set \<Rightarrow> kconf \<Rightarrow> kconf \<Rightarrow> bool" where
  "frame X k l \<longleftrightarrow> same_static k l
     \<and> (\<forall>t. t \<notin> X \<longrightarrow> is_valid k t \<longrightarrow> is_valid l t \<and> curr (symtab l t) = curr (symtab k t))"

lemma frame_refl: "frame X k k"
  by (simp add: frame_def same_static_def static_eq_refl)

lemma frame_trans: "frame X k l \<Longrightarrow> frame X l m \<Longrightarrow> frame X k m"
  unfolding frame_def same_static_def by (metis static_eq_trans)

lemma frame_qeq: "qeq k l \<Longrightarrow> frame X k l"
  using qeq_flags(1) [of k l] by (auto simp: frame_def same_static_def qeq_def)

lemma frame_put_self:
  "(\<And>y. static_eq y (f y)) \<Longrightarrow> frame {s} k (put_sym s f k)"
  by (auto simp: frame_def same_static_def put_sym_def is_valid_def static_eq_refl)

lemma frame_relation:
  assumes "\<And>s. runs False (\<lambda>_. True) (frame {}) (calc s)"
  shows "value_relation False (\<lambda>_. True) (frame {self}) calc self"
proof unfold_locales
  have *: "frame {} k l \<Longrightarrow> frame {self} k l" for k l by (simp add: frame_def)
  show "runs False (\<lambda>_. True) (frame {self}) (calc s)" for s
    using assms [of s] * by (auto simp: runs_def)
  show "runs False (\<lambda>k. True \<and> needs_set k self) (frame {self}) (set_all_choice_values self)"
    unfolding runs_def
  proof (intro allI impI conjI)
    fix k u k' assume "set_all_choice_values self k = Ok (u, k')"
    then obtain l where l: "qeq k l" "k' = put_sym self done_flags l" using set_all_effect(2) by blast
    have "frame {self} l k'"
      unfolding l by (rule frame_put_self) (auto simp: static_eq_def done_flags_def kept_flags_def)
    with frame_qeq [OF l(1)] show "frame {self} k k'" by (rule frame_trans)
  qed simp
  show "runs False (\<lambda>_. True) (frame {self}) sym_set_all_changed"
    by (auto simp: runs_def sym_set_all_changed_def upd_all_def frame_def same_static_def
        static_eq_def kept_flags_def is_valid_def)
qed (auto simp: frame_refl own_def frame_put_self intro: frame_trans frame_qeq qeq_put,
     auto simp: frame_def same_static_def static_eq_refl is_valid_def)

lemma frame_weaken: "frame X k l \<Longrightarrow> X \<subseteq> Y \<Longrightarrow> frame Y k l"
  by (auto simp: frame_def)

lemma frame_entry: "frame {s} k l \<Longrightarrow> \<not> is_valid k s \<Longrightarrow> frame {} k l"
  by (auto simp: frame_def)

lemma body_frame:
  assumes ih: "\<And>s. runs False (\<lambda>_. True) (frame {}) (calc s)"
  shows "runs False (\<lambda>_. True) (frame {}) (sym_calc_value_body calc s)"
proof -
  note val = frame_relation [OF ih, of s]
  note rel = value_relation.axioms(1) [OF val]
  have cho: "runs False (\<lambda>_. True) (frame {s}) (calc_choice_of calc s)"
    unfolding calc_choice_of_def choice_of_def by (intro calc_relation.calc_rules [OF rel])
  have need: "frame {s} k (put_sym s clear_need k)" for k
    by (rule frame_put_self) (auto simp: static_eq_def clear_need_def kept_flags_def)
  have first: "frame {s} k l"
    if "calc_choice_first calc s (flags (symtab k s)) k = Ok (u, l)" for k u l
    using that cho need [of k] frame_refl [of "{s}" k]
    by (auto simp: choice_first_phases runs_def intro: frame_trans split: if_splits)
  have mark: "frame {s} k (put_sym s mark_valid k)" for k
    by (rule frame_put_self) (auto simp: static_eq_def mark_valid_def kept_flags_def)
  have bt: "frame {s} k l" if "calc_by_type calc s k = Ok (u, l)" for k u l
    using value_relation.runs_by_type [OF val] that by (auto simp: runs_def)
  show ?thesis
    unfolding runs_def
    by (auto simp: body_phases thn_Ok upd_def frame_refl intro!: frame_entry
        dest!: first bt intro: frame_trans [OF _ frame_trans [OF mark]] split: if_splits)
qed

lemma calc_value_frame: "runs False (\<lambda>_. True) (frame {}) (sym_calc_value n s)"
  by (induction n arbitrary: s) (auto intro: body_frame simp: runs_def [of _ _ _ no_fuel])

interpretation calculated: value_relation False "\<lambda>_. True" "frame {self}" "sym_calc_value n" self
  for n self
  by (rule frame_relation) (rule calc_value_frame)

interpretation unchanged: calc_relation False "\<lambda>_. True" "frame {}" "sym_calc_value n" for n
  by unfold_locales (auto simp: frame_refl calc_value_frame intro: frame_trans frame_qeq qeq_put)

section \<open>Calculated symbols are valid\<close>

definition stays :: "kconf \<Rightarrow> kconf \<Rightarrow> bool" where
  "stays k l \<longleftrightarrow> (\<forall>t. (needs_set l t \<longrightarrow> needs_set k t)
     \<and> (is_valid k t \<longrightarrow> \<not> needs_set k t \<longrightarrow> is_valid l t))"

lemma stays_refl: "stays k k"
  by (simp add: stays_def)

lemma stays_trans: "stays k l \<Longrightarrow> stays l m \<Longrightarrow> stays k m"
  by (auto simp: stays_def)

lemma stays_own: "own f \<Longrightarrow> stays k (put_sym s f k)"
  by (simp add: stays_def own_put_flags)

lemma stays_relation:
  assumes "\<And>s. runs False (\<lambda>_. True) stays (calc s)"
  shows "value_relation False (\<lambda>_. True) stays calc self"
proof unfold_locales
  show "runs False (\<lambda>k. True \<and> needs_set k self) stays (set_all_choice_values self)"
    unfolding runs_def
  proof (intro allI impI conjI)
    fix k u k' assume k: "True \<and> needs_set k self" and "set_all_choice_values self k = Ok (u, k')"
    then obtain l where l: "qeq k l" "k' = put_sym self done_flags l" using set_all_effect(2) by blast
    with k show "stays k k'"
      using qeq_flags [OF l(1)]
      by (auto simp: stays_def put_sym_def is_valid_def needs_set_def done_flags_def)
  qed simp
  show "runs False (\<lambda>_. True) stays sym_set_all_changed"
    by (auto simp: runs_def sym_set_all_changed_def upd_all_def stays_def is_valid_def needs_set_def)
qed (auto simp: assms stays_refl stays_own quiet_own intro: stays_trans,
     auto simp: stays_def is_valid_def needs_set_def)

lemma stays_clear_need: "stays k (put_sym s clear_need k)"
  by (auto simp: stays_def put_sym_def is_valid_def needs_set_def clear_need_def)

lemma stays_mark_valid:
  "stays k (put_sym s mark_valid k)" "is_valid (put_sym s mark_valid k) s"
  by (auto simp: stays_def put_sym_def is_valid_def needs_set_def mark_valid_def)

lemma body_stays:
  assumes ih: "\<And>s. runs False (\<lambda>_. True) stays (calc s)"
    and ok: "sym_calc_value_body calc s k = Ok (u, l)"
  shows "stays k l \<and> (\<not> needs_set k s \<longrightarrow> is_valid l s)"
proof (cases "is_valid k s")
  case True
  with ok show ?thesis by (simp add: body_phases stays_refl)
next
  case False
  note val = stays_relation [where self = s, OF ih]
  note rel = value_relation.axioms(1) [OF val]
  from False ok obtain v k1 where
    1: "calc_choice_first calc s (flags (symtab k s)) k = Ok (v, k1)"
    and 2: "calc_by_type calc s (put_sym s mark_valid k1) = Ok (u, l)"
    by (auto simp: body_phases thn_Ok upd_def)
  have "runs False (\<lambda>_. True) stays (calc_choice_of calc s)"
    unfolding calc_choice_of_def choice_of_def by (intro calc_relation.calc_rules [OF rel])
  with 1 stays_clear_need [of k s] have "stays k k1"
    by (auto simp: choice_first_phases runs_def intro: stays_refl stays_trans split: if_splits)
  then have "stays k (put_sym s mark_valid k1)" using stays_mark_valid(1) stays_trans by blast
  moreover have "stays (put_sym s mark_valid k1) l"
    using value_relation.runs_by_type [OF val] 2 by (auto simp: runs_def)
  ultimately show ?thesis using stays_mark_valid(2) [of s k1] by (auto simp: stays_def)
qed

lemma calc_value_stays: "runs False (\<lambda>_. True) stays (sym_calc_value n s)"
proof (induction n arbitrary: s)
  case (Suc n)
  then show ?case using body_stays [OF Suc] by (auto simp: runs_def)
qed (simp add: runs_def)

lemma calc_value_valid:
  "sym_calc_value n s k = Ok (u, l) \<Longrightarrow> \<not> needs_set k s \<Longrightarrow> is_valid l s"
  using body_stays [OF calc_value_stays] by (cases n) auto

section \<open>A selected symbol is at least what selects it\<close>

text \<open>After the value is stored, a symbol that is no choice and has no range keeps it.\<close>

definition same_value_fields :: "kconf \<Rightarrow> kconf \<Rightarrow> bool" where
  "same_value_fields k l \<longleftrightarrow> (\<forall>t. curr (symtab l t) = curr (symtab k t)
     \<and> rev_dep (symtab l t) = rev_dep (symtab k t) \<and> stype (symtab l t) = stype (symtab k t)
     \<and> sym_is_choice (symtab l t) = sym_is_choice (symtab k t))"

interpretation vf: state_relation False "\<lambda>_. True" same_value_fields
  by unfold_locales (auto simp: same_value_fields_def)

definition flags_only :: "(symbol \<Rightarrow> symbol) \<Rightarrow> bool" where
  "flags_only f \<longleftrightarrow> (\<forall>y. curr (f y) = curr y \<and> rev_dep (f y) = rev_dep y \<and> stype (f y) = stype y
     \<and> sym_is_choice (f y) = sym_is_choice y)"

lemma vf_upd: "flags_only f \<Longrightarrow> runs False (\<lambda>_. True) same_value_fields (upd s f)"
  by (auto simp: runs_def upd_def same_value_fields_def flags_only_def put_sym_def)

lemma flags_only_flags:
  "SYMBOL_CHOICE \<notin> F \<Longrightarrow> flags_only (\<lambda>y. y\<lparr>flags := flags y \<union> F\<rparr>)"
  "SYMBOL_CHOICE \<notin> F \<Longrightarrow> flags_only (\<lambda>y. y\<lparr>flags := flags y - F\<rparr>)"
  "flags_only (\<lambda>y. y\<lparr>def_user := (def_user y)\<lparr>tri := v\<rparr>\<rparr>)"
  by (auto simp: flags_only_def sym_is_choice_def)

lemma vf_flags:
  "SYMBOL_CHOICE \<notin> F \<Longrightarrow> runs False (\<lambda>_. True) same_value_fields (set_flags s F)"
  "SYMBOL_CHOICE \<notin> F \<Longrightarrow> runs False (\<lambda>_. True) same_value_fields (clear_flags s F)"
  by (simp_all add: set_flags_def clear_flags_def vf_upd flags_only_flags)

lemma vf_at: "runs False (\<lambda>_. True) same_value_fields (at s f)"
  by (simp add: at_def vf.runs_gets)

lemma vf_choice_syms: "runs False (\<lambda>_. True) same_value_fields (choice_syms s)"
  unfolding choice_syms_def by (intro vf.runs_rules vf_at)

lemma vf_set_all: "runs False (\<lambda>_. True) same_value_fields (set_all_choice_values s)"
  unfolding set_all_choice_values_def
  by (intro vf.runs_rules vf_at vf_choice_syms vf_upd flags_only_flags vf_flags) auto

lemma vf_all_changed: "runs False (\<lambda>_. True) same_value_fields sym_set_all_changed"
  by (auto simp: runs_def sym_set_all_changed_def upd_all_def same_value_fields_def sym_is_choice_def)

lemma vf_note_change: "runs False (\<lambda>_. True) same_value_fields (note_change s old)"
  unfolding note_change_def sym_set_changed_def
  by (intro vf.runs_rules vf_at vf_flags vf_all_changed vf.runs_modify)
     (auto simp: same_value_fields_def)

lemma vf_mark: "runs False (\<lambda>_. True) same_value_fields (mark_choice_values s)"
  unfolding mark_choice_values_def sym_set_changed_def
  by (intro vf.runs_rules vf_at vf_choice_syms vf_flags) auto

lemma finish_value_keeps:
  assumes ok: "finish_value calc s old new k = Ok (u, l)"
    and ty: "stype (symtab k s) \<in> {S_BOOLEAN, S_TRISTATE}" and ch: "\<not> sym_is_choice (symtab k s)"
  shows "curr (symtab l s) = new" and "rev_dep (symtab l s) = rev_dep (symtab k s)"
proof -
  let ?k = "put_sym s (\<lambda>y. y\<lparr>curr := new\<rparr>) k"
  let ?rest = "thn (note_change s old) (thn (mark_choice_values s)
     (thn (bnd (at s (\<lambda>y. SYMBOL_AUTO \<in> flags y)) (\<lambda>a. unless (\<not> a) (clear_flags s {SYMBOL_WRITE})))
       (bnd (at s (\<lambda>y. SYMBOL_NEED_SET_CHOICE_VALUES \<in> flags y)) (\<lambda>n.
          unless (\<not> n) (set_all_choice_values s)))))"
  have k: "\<not> sym_is_choice (symtab ?k s)" "stype (symtab ?k s) = stype (symtab k s)"
    using ch by (simp_all add: put_sym_def sym_is_choice_def)
  have range: "sym_validate_range calc s ?k = Ok ((), ?k)"
    using ty k(2) by (auto simp: sym_validate_range_def at_def gets_def bnd_def ret_def)
  have "?rest ?k = Ok (u, l)"
    using ok k(1) range
    by (simp add: finish_value_def set_curr_def upd_def modify_def thn_def bnd_def at_def gets_def
        unless_def ret_def)
  moreover have "runs False (\<lambda>_. True) same_value_fields ?rest"
    by (intro vf.runs_rules vf_note_change vf_mark vf_at vf_flags vf_set_all) simp
  ultimately have "same_value_fields ?k l" by (auto simp: runs_def)
  then show "curr (symtab l s) = new" "rev_dep (symtab l s) = rev_dep (symtab k s)"
    by (simp_all add: same_value_fields_def put_sym_def)
qed

lemma warn_same: "warn_unmet s k = Ok (u, l) \<Longrightarrow> l = k"
  by (auto simp: warn_unmet_def bnd_Ok split: if_splits option.splits)

lemma EXPR_OR_upper: "b \<le> EXPR_OR a b"
  by (simp add: EXPR_OR_max)

lemma calc_selected_bound:
  "calc_selected calc s k = Ok (t, l) \<Longrightarrow> vtri (rev_dep (symtab l s)) \<le> t"
  by (auto simp: calc_selected_def bnd_Ok thn_Ok at_def EXPR_OR_upper)

lemma calc_tristate_bound:
  assumes "calc_tristate calc s k = Ok (t, l)" and "\<not> sym_is_choice_value (symtab k s)"
  shows "vtri (rev_dep (symtab l s)) \<le> t" and "stype (symtab l s) = S_BOOLEAN \<Longrightarrow> t \<noteq> Mod"
proof -
  from assms obtain a where
    t: "t = (if a = Mod \<and> sym_get_type l s = S_BOOLEAN then Yes else a)"
    and a: "calc_selected calc s k = Ok (a, l)"
    by (auto simp: calc_tristate_def bnd_Ok at_def simp del: if_split)
  from calc_selected_bound [OF a] show "vtri (rev_dep (symtab l s)) \<le> t" by (simp add: t)
  show "t \<noteq> Mod" if "stype (symtab l s) = S_BOOLEAN"
    using that by (auto simp: t sym_get_type_def split: if_splits)
qed

lemma static_fields:
  assumes "same_static k l"
  shows "stype (symtab l s) = stype (symtab k s)"
    and "sym_is_choice (symtab l s) = sym_is_choice (symtab k s)"
    and "sym_is_choice_value (symtab l s) = sym_is_choice_value (symtab k s)"
  using assms unfolding same_static_def static_eq_def kept_flags_def sym_is_choice_def sym_is_choice_value_def
  by blast+

lemma frame_static: "frame X k l \<Longrightarrow> same_static k l"
  by (simp add: frame_def)

lemma calc_newval_tristate:
  assumes "calc_newval calc s v k = Ok (w, l)" and "stype (symtab k s) \<in> {S_BOOLEAN, S_TRISTATE}"
  obtains t where "calc_tristate calc s k = Ok (t, l)" and "w = v\<lparr>tri := t\<rparr>"
proof -
  have "sym_get_type k s \<in> {S_BOOLEAN, S_TRISTATE}" using assms(2) by (auto simp: sym_get_type_def)
  with assms(1) that show ?thesis by (auto simp: calc_newval_def bnd_Ok)
qed

lemma calc_typed_bound:
  assumes ok: "calc_typed (sym_calc_value n) s old k = Ok (u, l)"
    and ty: "stype (symtab k s) \<in> {S_BOOLEAN, S_TRISTATE}"
    and ch: "\<not> sym_is_choice (symtab k s)" "\<not> sym_is_choice_value (symtab k s)"
  shows "vtri (rev_dep (symtab l s)) \<le> tri (curr (symtab l s))
     \<and> (stype (symtab k s) = S_BOOLEAN \<longrightarrow> tri (curr (symtab l s)) \<noteq> Mod)"
proof -
  let ?new = "empty_value (stype (symtab k s))" and ?calc = "sym_calc_value n"
  from ok obtain v k1 w k2 where
    1: "reset_value ?calc s ?new k = Ok (v, k1)" and 2: "calc_newval ?calc s ?new k1 = Ok (w, k2)"
    and 3: "finish_value ?calc s old w k2 = Ok (u, l)"
    by (auto simp: calc_typed_def bnd_Ok thn_Ok at_def)
  have k1: "same_static k k1"
    by (rule frame_static) (rule runsD [OF calculated.runs_reset TrueI 1])
  have k2: "same_static k1 k2"
    by (rule frame_static) (rule runsD [OF calculated.runs_newval TrueI 2])
  note st = static_fields [OF k1, of s] static_fields [OF k2, of s]
  have ty1: "stype (symtab k1 s) \<in> {S_BOOLEAN, S_TRISTATE}" using ty by (simp add: st)
  obtain t where t: "calc_tristate ?calc s k1 = Ok (t, k2)" "w = ?new\<lparr>tri := t\<rparr>"
    by (rule calc_newval_tristate [OF 2 ty1])
  have "vtri (rev_dep (symtab k2 s)) \<le> t" "stype (symtab k2 s) = S_BOOLEAN \<Longrightarrow> t \<noteq> Mod"
    using calc_tristate_bound [OF t(1)] ch by (auto simp: st)
  moreover have "curr (symtab l s) = w" "rev_dep (symtab l s) = rev_dep (symtab k2 s)"
    using finish_value_keeps [OF 3] ty ch by (auto simp: st)
  ultimately show ?thesis by (auto simp: t(2) st)
qed

lemma calc_value_bound:
  assumes ok: "sym_calc_value n s k = Ok (u, l)" and v: "\<not> is_valid k s"
    and ty: "stype (symtab k s) \<in> {S_BOOLEAN, S_TRISTATE}"
    and ch: "\<not> sym_is_choice (symtab k s)" "\<not> sym_is_choice_value (symtab k s)"
  shows "vtri (rev_dep (symtab l s)) \<le> tri (curr (symtab l s))
     \<and> (stype (symtab k s) = S_BOOLEAN \<longrightarrow> tri (curr (symtab l s)) \<noteq> Mod)"
proof -
  from ok obtain m where n: "n = Suc m" by (cases n) auto
  let ?k = "put_sym s mark_valid k"
  have k: "same_static k ?k"
    by (rule frame_static, rule frame_put_self) (auto simp: static_eq_def mark_valid_def kept_flags_def)
  note st = static_fields [OF k, of s]
  have "calc_choice_first (sym_calc_value m) s (flags (symtab k s)) k = Ok ((), k)"
    using ch by (simp add: choice_first_phases)
  then have "calc_by_type (sym_calc_value m) s ?k = Ok (u, l)"
    using ok v by (auto simp: n body_phases thn_Ok upd_def)
  then have "calc_typed (sym_calc_value m) s (curr (symtab ?k s)) ?k = Ok (u, l)"
    using ty by (auto simp: calc_by_type_def bnd_Ok at_def st)
  from calc_typed_bound [OF this] ty ch show ?thesis by (simp add: st)
qed

section \<open>Values respect their range\<close>

lemma calc_value_valid_noop: "is_valid k s \<Longrightarrow> sym_calc_value (Suc n) s k = Ok ((), k)"
  by (simp add: body_phases)

lemma strtoll_bounds: "LLONG_MIN \<le> strtoll b s" "strtoll b s \<le> LLONG_MAX"
  by (auto simp: strtoll_def Let_def clamp_ll_def LLONG_MIN_def LLONG_MAX_def)

text \<open>The number a limit of a range stands for, read in the base of the limit itself if it has one.\<close>

definition limit_val :: "kconf \<Rightarrow> nat \<Rightarrow> sym \<Rightarrow> int" where
  "limit_val k b s =
     (case val (curr (symtab k s)) of
        V_str x \<Rightarrow> strtoll (if stype (symtab k s) = S_INT then 10
                           else if stype (symtab k s) = S_HEX then 16 else b) x
      | _ \<Rightarrow> 0)"

definition num_val :: "kconf \<Rightarrow> sym \<Rightarrow> int" where
  "num_val k s =
     (case val (curr (symtab k s)) of V_str x \<Rightarrow> strtoll (range_base (stype (symtab k s))) x | _ \<Rightarrow> 0)"

lemma range_val_valid:
  assumes "is_valid k s" and "sym_get_range_val (sym_calc_value (Suc n)) s b k = Ok (v, l)"
  shows "l = k \<and> v = limit_val k b s"
  using assms calc_value_valid_noop [of k s n]
  by (auto simp: sym_get_range_val_def thn_Ok bnd_Ok at_def strtoll_sval_def limit_val_def
      split: sval.splits simp del: sym_calc_value.simps)

lemma limit_val_bounds: "LLONG_MIN \<le> limit_val k b s" "limit_val k b s \<le> LLONG_MAX"
  using strtoll_bounds by (auto simp: limit_val_def LLONG_MIN_def LLONG_MAX_def split: sval.splits)

lemma range_clamp_valid:
  assumes "is_valid k lo" and "is_valid k hi"
    and "range_clamp (sym_calc_value (Suc n)) b lo hi v k = Ok (w, l)"
    and "limit_val k b lo \<le> limit_val k b hi"
  shows "l = k" and "limit_val k b lo \<le> (case w of None \<Rightarrow> v | Some x \<Rightarrow> x)"
    and "(case w of None \<Rightarrow> v | Some x \<Rightarrow> x) \<le> limit_val k b hi"
    and "w = Some x \<Longrightarrow> x = limit_val k b lo \<or> x = limit_val k b hi"
  using assms(3,4)
  by (auto simp: range_clamp_def bnd_Ok dest!: range_val_valid [OF assms(1)] range_val_valid [OF assms(2)]
      split: if_splits simp del: sym_calc_value.simps)

lemma strtoll_fmt_number:
  assumes "ty = S_INT \<or> ty = S_HEX \<and> 0 \<le> v" and "LLONG_MIN \<le> v" and "v \<le> LLONG_MAX"
  shows "strtoll (range_base ty) (fmt_number ty v) = v"
  using assms by (auto simp: range_base_def fmt_number_def strtoll_fmt_lld strtoll_fmt_0xllx)

lemma validate_range_within:
  assumes ok: "sym_validate_range (sym_calc_value (Suc n)) s k = Ok (u, l)"
    and ty: "stype (symtab k s) = ty" "b = range_base ty"
    and num: "ty = S_INT \<or> ty = S_HEX \<and> 0 \<le> limit_val k' b lo"
    and p: "sym_get_range_prop (sym_calc_value (Suc n)) s k = Ok (Some (p, t), k')"
    and lh: "range_syms p = Some (lo, hi)" and v: "is_valid k' lo" "is_valid k' hi"
    and le: "limit_val k' b lo \<le> limit_val k' b hi"
  shows "limit_val k' b lo \<le> num_val l s \<and> num_val l s \<le> limit_val k' b hi"
proof -
  have st: "stype (symtab k' s) = ty"
    using static_fields(1) [OF frame_static [OF runsD [OF unchanged.runs_range_prop TrueI p]]] ty(1) by simp
  from ok num ty(1) p lh obtain x w k2 where
    x: "val (curr (symtab k' s)) = V_str x"
    and w: "range_clamp (sym_calc_value (Suc n)) b lo hi (strtoll b x) k' = Ok (w, k2)"
    and l: "(case w of None \<Rightarrow> ret () | Some v2 \<Rightarrow>
        upd s (\<lambda>y. y\<lparr>curr := (curr y)\<lparr>val := V_str (fmt_number ty v2)\<rparr>\<rparr>)) k2 = Ok (u, l)"
    unfolding ty(2)
    by (auto simp: sym_validate_range_def bnd_Ok at_def strtoll_sval_def
        split: sval.splits if_splits simp del: sym_calc_value.simps)
  note c = range_clamp_valid [OF v w le]
  show ?thesis
  proof (cases w)
    case None
    with l c x st show ?thesis by (simp add: num_val_def ty(2))
  next
    case (Some v2)
    with l c(1) have l': "val (curr (symtab l s)) = V_str (fmt_number ty v2)" "stype (symtab l s) = ty"
      using st by (simp_all add: upd_def put_sym_def)
    have "v2 = limit_val k' b lo \<or> v2 = limit_val k' b hi" using c(4) Some by simp
    then have "strtoll (range_base ty) (fmt_number ty v2) = v2"
      using num le limit_val_bounds by (intro strtoll_fmt_number) auto
    with l' c(2,3) Some show ?thesis by (simp add: num_val_def)
  qed
qed

section \<open>Evaluation over calculated symbols\<close>

text \<open>
  Once every symbol of an expression is valid, evaluating it changes nothing and gives the value
  of \<open>expr_calc_value\<close>; the compared symbols must have strings.
\<close>

fun settled :: "kconf \<Rightarrow> expr \<Rightarrow> bool" where
  "settled k (And l r) \<longleftrightarrow> settled k l \<and> settled k r"
| "settled k (Or l r) \<longleftrightarrow> settled k l \<and> settled k r"
| "settled k (Not e) \<longleftrightarrow> settled k e"
| "settled k (Symbol s) \<longleftrightarrow> is_valid k s"
| "settled k (Equal a b) \<longleftrightarrow> is_valid k a \<and> is_valid k b
     \<and> (\<exists>x y. sym_get_string_value k a = V_str x \<and> sym_get_string_value k b = V_str y)"
| "settled k (Unequal a b) \<longleftrightarrow> is_valid k a \<and> is_valid k b
     \<and> (\<exists>x y. sym_get_string_value k a = V_str x \<and> sym_get_string_value k b = V_str y)"
| "settled k _ \<longleftrightarrow> True"

lemma string_value_settled:
  "is_valid k (modules_sym k) \<Longrightarrow>
     sym_get_string_value_st (sym_calc_value (Suc n)) s k = Ok (sym_get_string_value k s, k)"
  using calc_value_valid_noop [of k "modules_sym k" n]
  by (auto simp: sym_get_string_value_st_def sym_get_string_value_def sym_get_tristate_value_def
      at_def gets_def bnd_def thn_def ret_def split: tristate.splits simp del: sym_calc_value.simps)

lemma expr_calc_settled:
  assumes "is_valid k (modules_sym k)" and "settled k e"
  shows "expr_calc_value_st (sym_calc_value (Suc n)) e k = Ok (expr_calc_value k e, k)"
  using assms(2)
  by (induction e)
     (auto simp: bnd_def thn_def at_def gets_def ret_def compare_syms_def strcmp_eq_def
        calc_value_valid_noop string_value_settled [OF assms(1)] simp del: sym_calc_value.simps)

section \<open>Properties\<close>

text \<open>Two boolean symbols that default to each other, the first one selected by a third.\<close>

definition cyclic_symbol :: "nat \<Rightarrow> symbol" where
  "cyclic_symbol n = (if n < 2 then (new_symbol (Some ''A'') {})
     \<lparr>stype := S_BOOLEAN,
      props := [\<lparr>ptype = P_DEFAULT, ptext = None, pvisible = no_expr, pexpr = Some (Symbol (Sym (1 - n))), ppos = (''Config.in'', 1), pmenu = None\<rparr>],
      rev_dep := \<lparr>vexpr = Some (Symbol (Sym 2)), vtri = No\<rparr>\<rparr>
   else valued_symbol S_TRISTATE Mod)"

definition cyclic_kconf :: kconf where
  "cyclic_kconf = mk_kconf cyclic_symbol"

lemma cyclic_pending: "pending {Sym 0, Sym 1} cyclic_kconf"
proof -
  have "weight cyclic_kconf s = 0" if "s \<notin> {Sym 0, Sym 1}" for s
    using that by (cases s) (auto simp: weight_def is_valid_def needs_set_def cyclic_kconf_def cyclic_symbol_def)
  then show ?thesis by (simp add: pending_def)
qed

lemma cyclic_weight: "total_weight {Sym 0, Sym 1} cyclic_kconf = 2"
  by (simp add: total_weight_def weight_def is_valid_def needs_set_def cyclic_kconf_def cyclic_symbol_def
      new_symbol_def)

text \<open>A boolean symbol that a tristate symbol with the value m selects.\<close>

definition selected_symbol :: "nat \<Rightarrow> symbol" where
  "selected_symbol n = (if n = 0 then (new_symbol (Some ''A'') {})
     \<lparr>stype := S_BOOLEAN, rev_dep := \<lparr>vexpr = Some (Symbol (Sym 2)), vtri = No\<rparr>\<rparr>
   else valued_symbol S_TRISTATE Mod)"

definition selected_kconf :: kconf where
  "selected_kconf = mk_kconf selected_symbol"

lemmas eval_access = prog_defs at_def upd_def put_sym_def set_flags_def clear_flags_def unless_def
  set_curr_def sym_is_choice_value_def sym_is_choice_def sym_has_value_def sym_get_type_def

lemmas eval_calc = sym_calc_value_body_def calc_choice_first_def calc_by_type_def calc_typed_def
  reset_value_def empty_value_def calc_newval_def calc_tristate_def calc_selected_def calc_user_def
  calc_default_def sym_get_default_prop_def prop_indices_def warn_unmet_def sym_calc_visibility_def
  store_tri_def sym_set_changed_def finish_value_def sym_validate_range_def note_change_def
  mark_choice_values_def

lemma selected_run: "\<exists>l. sym_calc_value 2 (Sym 0) selected_kconf = Ok ((), l)"
  by (simp add: numeral_2_eq_2 eval_access eval_calc selected_kconf_def selected_symbol_def
      new_symbol_def no_expr_def EXPR_OR_def tri_order)

text \<open>
  C1. The calculation of a symbol's value ends for every dependency structure, circular ones
  included: a recursion as deep as the number of symbols still to be calculated, with a choice
  whose values are to be set counted three times, is enough.
\<close>

theorem calc_value_terminates:
  assumes "finite U" and "pending U k" and "total_weight U k < n"
  shows "sym_calc_value n s k \<noteq> NoFuel"
  using assms by (rule calc_value_ends)

theorem calc_value_terminates_witness: "sym_calc_value 3 (Sym 0) cyclic_kconf \<noteq> NoFuel"
  using cyclic_weight by (intro calc_value_terminates [OF _ cyclic_pending]) simp_all

text \<open>
  C2. Calculating a symbol leaves every calculated value as it is and valid, and never changes
  the types, names, properties, dependencies and table of the symbols.
\<close>

theorem calc_value_keeps:
  assumes "sym_calc_value n s k = Ok (u, l)"
  shows "same_static k l
     \<and> (\<forall>t. is_valid k t \<longrightarrow> is_valid l t \<and> curr (symtab l t) = curr (symtab k t))"
  using runsD [OF calc_value_frame TrueI assms] by (simp add: frame_def)

theorem calc_value_keeps_witness:
  "\<exists>l. sym_calc_value 2 (Sym 0) selected_kconf = Ok ((), l) \<and> tri (curr (symtab l (Sym 2))) = Mod"
proof -
  obtain l where l: "sym_calc_value 2 (Sym 0) selected_kconf = Ok ((), l)" using selected_run by blast
  have "is_valid selected_kconf (Sym 2)" "tri (curr (symtab selected_kconf (Sym 2))) = Mod"
    by (simp_all add: is_valid_def selected_kconf_def selected_symbol_def)
  with l calc_value_keeps [OF l] show ?thesis by auto
qed

text \<open>
  After its calculation a symbol is valid, unless the values of its choice were still to be
  set, in which case it is calculated once more.
\<close>

lemma calc_value_makes_valid:
  assumes "sym_calc_value n s k = Ok (u, l)" and "\<not> needs_set k s"
  shows "is_valid l s"
  using assms by (rule calc_value_valid)

lemma calc_value_makes_valid_witness:
  "\<exists>l. sym_calc_value 2 (Sym 0) selected_kconf = Ok ((), l) \<and> is_valid l (Sym 0)"
proof -
  obtain l where l: "sym_calc_value 2 (Sym 0) selected_kconf = Ok ((), l)" using selected_run by blast
  have "\<not> needs_set selected_kconf (Sym 0)"
    by (simp add: needs_set_def selected_kconf_def selected_symbol_def new_symbol_def)
  with l calc_value_makes_valid [OF l] show ?thesis by blast
qed



text \<open>
  C9. \<^verbatim>\<open>sym_validate_range\<close> leaves an integer symbol with a number between the limits of the
  range that applies, and a hexadecimal one if the lower limit is not negative.
\<close>

theorem validate_range_correct:
  assumes "sym_validate_range (sym_calc_value (Suc n)) s k = Ok (u, l)"
    and "stype (symtab k s) = ty" and "b = range_base ty"
    and "ty = S_INT \<or> ty = S_HEX \<and> 0 \<le> limit_val k' b lo"
    and "sym_get_range_prop (sym_calc_value (Suc n)) s k = Ok (Some (p, t), k')"
    and "range_syms p = Some (lo, hi)" and "is_valid k' lo" and "is_valid k' hi"
    and "limit_val k' b lo \<le> limit_val k' b hi"
  shows "limit_val k' b lo \<le> num_val l s \<and> num_val l s \<le> limit_val k' b hi"
  using assms by (rule validate_range_within)

definition ranged_kconf :: kconf where
  "ranged_kconf = mk_kconf (\<lambda>n.
     if n = 0 then (new_symbol (Some ''SIZE'') {SYMBOL_VALID})
       \<lparr>stype := S_INT, curr := \<lparr>val = V_str ''900'', tri = No\<rparr>,
        props := [\<lparr>ptype = P_RANGE, ptext = None, pvisible = no_expr, pexpr = Some (Range (Sym 1) (Sym 2)), ppos = (''Config.in'', 1), pmenu = None\<rparr>]\<rparr>
     else (new_symbol (Some (if n = 1 then ''1'' else ''64'')) {SYMBOL_CONST, SYMBOL_VALID})
       \<lparr>curr := \<lparr>val = V_str (if n = 1 then ''1'' else ''64''), tri = No\<rparr>\<rparr>)"

lemma ranged_numbers: "strtoll 10 ''900'' = 900" "strtoll 10 ''1'' = 1" "strtoll 10 ''64'' = 64"
  by code_simp+

lemmas eval_range = sym_get_range_prop_def prop_indices_def prop_visible_def eval_null_def
  set_prop_tri_def range_syms_def ranged_kconf_def new_symbol_def no_expr_def

lemma ranged_run: "\<exists>l. sym_validate_range (sym_calc_value (Suc 0)) (Sym 0) ranged_kconf = Ok ((), l)"
  by (simp add: eval_access sym_validate_range_def eval_range strtoll_sval_def range_clamp_def
      range_base_def sym_get_range_val_def sym_calc_value_body_def ranged_numbers)

lemma ranged_prop:
  obtains p k' where "sym_get_range_prop (sym_calc_value (Suc 0)) (Sym 0) ranged_kconf = Ok (Some (p, Yes), k')"
    and "range_syms p = Some (Sym 1, Sym 2)" and "is_valid k' (Sym 1)" and "is_valid k' (Sym 2)"
    and "limit_val k' 10 (Sym 1) = 1" and "limit_val k' 10 (Sym 2) = 64"
proof -
  have "\<exists>p k'. sym_get_range_prop (sym_calc_value (Suc 0)) (Sym 0) ranged_kconf = Ok (Some (p, Yes), k')
    \<and> range_syms p = Some (Sym 1, Sym 2) \<and> is_valid k' (Sym 1) \<and> is_valid k' (Sym 2)
    \<and> limit_val k' 10 (Sym 1) = 1 \<and> limit_val k' 10 (Sym 2) = 64"
    by (simp add: eval_access eval_range is_valid_def limit_val_def ranged_numbers)
  then show ?thesis using that by blast
qed

theorem validate_range_correct_witness:
  "\<exists>l. sym_validate_range (sym_calc_value (Suc 0)) (Sym 0) ranged_kconf = Ok ((), l)
     \<and> 1 \<le> num_val l (Sym 0) \<and> num_val l (Sym 0) \<le> 64"
proof -
  obtain l where l: "sym_validate_range (sym_calc_value (Suc 0)) (Sym 0) ranged_kconf = Ok ((), l)"
    using ranged_run by blast
  obtain p k' where
    p: "sym_get_range_prop (sym_calc_value (Suc 0)) (Sym 0) ranged_kconf = Ok (Some (p, Yes), k')"
    and r: "range_syms p = Some (Sym 1, Sym 2)" "is_valid k' (Sym 1)" "is_valid k' (Sym 2)"
      "limit_val k' 10 (Sym 1) = 1" "limit_val k' 10 (Sym 2) = 64"
    by (rule ranged_prop)
  have ty: "stype (symtab ranged_kconf (Sym 0)) = S_INT" "10 = range_base S_INT"
    by (simp_all add: ranged_kconf_def range_base_def)
  have "limit_val k' 10 (Sym 1) \<le> num_val l (Sym 0) \<and> num_val l (Sym 0) \<le> limit_val k' 10 (Sym 2)"
    by (rule validate_range_correct [OF l ty _ p]) (use r in simp_all)
  with l r show ?thesis by auto
qed



end
