(* ===== verification/Kconfig_Set.thy ===== *)
theory Kconfig_Set
  imports Kconfig_Calc
begin

text \<open>
  Setting symbol values (\<^verbatim>\<open>support/kconfig/symbol.c\<close>): what values a symbol accepts, how a
  user value is stored and the calculated values are invalidated, and that an accepted value is
  the one the next calculation gives.
\<close>

section \<open>Invalidating all symbols\<close>

definition sym_add_change_count :: "int \<Rightarrow> unit kprog" where
  "sym_add_change_count c = modify (\<lambda>k. k\<lparr>sym_change_count := sym_change_count k + c\<rparr>)"

definition sym_clear_all_valid :: "calc \<Rightarrow> unit kprog" where
  "sym_clear_all_valid calc =
     thn (upd_all (\<lambda>y. y\<lparr>flags := flags y - {SYMBOL_VALID}\<rparr>))
     (thn (sym_add_change_count 1)
     (bnd (gets modules_sym) calc))"

section \<open>Tristate values\<close>

definition sym_tristate_within_range :: "kconf \<Rightarrow> sym \<Rightarrow> tristate \<Rightarrow> bool" where
  "sym_tristate_within_range k s v =
     (let y = symtab k s; ty = sym_get_type k s in
      if visible y = No then False
      else if ty \<noteq> S_BOOLEAN \<and> ty \<noteq> S_TRISTATE then False
      else if ty = S_BOOLEAN \<and> v = Mod then False
      else if visible y \<le> vtri (rev_dep y) then False
      else if sym_is_choice_value y \<and> visible y = Yes then v = Yes
      else v \<ge> vtri (rev_dep y) \<and> v \<le> visible y)"

definition set_user_flag :: "sym \<Rightarrow> unit kprog" where
  "set_user_flag s =
     bnd (at s sym_has_value) (\<lambda>h. unless h
       (thn (set_flags s {SYMBOL_DEF_USER}) (sym_set_changed s)))"

text \<open>Choosing a choice value is remembered in the choice and marks its visible values as set.\<close>

definition set_choice_user :: "sym \<Rightarrow> unit kprog" where
  "set_choice_user s =
     bnd (choice_of s) (\<lambda>c. bnd (deref c) (\<lambda>cs.
     thn (upd cs (\<lambda>y. y\<lparr>def_user := (def_user y)\<lparr>val := V_sym s\<rparr>\<rparr>))
     (thn (set_flags cs {SYMBOL_DEF_USER})
     (bnd (choice_syms cs) (\<lambda>es. for_each es (\<lambda>e.
        bnd (at e visible) (\<lambda>v. unless (v = No) (set_flags e {SYMBOL_DEF_USER}))))))))"

definition sym_set_tristate_value :: "calc \<Rightarrow> sym \<Rightarrow> tristate \<Rightarrow> bool kprog" where
  "sym_set_tristate_value calc s v =
     bnd (gets (\<lambda>k. sym_get_tristate_value k s)) (\<lambda>oldval.
     bnd (gets (\<lambda>k. sym_tristate_within_range k s v)) (\<lambda>within.
       if oldval \<noteq> v \<and> \<not> within then ret False
       else
         thn (set_user_flag s)
         (bnd (at s sym_is_choice_value) (\<lambda>cv.
         thn (unless (\<not> (cv \<and> v = Yes)) (set_choice_user s))
         (thn (upd s (\<lambda>y. y\<lparr>def_user := (def_user y)\<lparr>tri := v\<rparr>\<rparr>))
         (thn (unless (oldval = v) (sym_clear_all_valid calc))
           (ret True)))))))"

fun next_tri :: "tristate \<Rightarrow> tristate" where
  "next_tri No = Mod"
| "next_tri Mod = Yes"
| "next_tri Yes = No"

text \<open>The loop ends at the latest when it is back at the old value, which is always accepted.\<close>

primrec toggle_loop :: "nat \<Rightarrow> calc \<Rightarrow> sym \<Rightarrow> tristate \<Rightarrow> tristate \<Rightarrow> tristate kprog" where
  "toggle_loop 0 calc s oldval newval = no_fuel"
| "toggle_loop (Suc n) calc s oldval newval =
     bnd (sym_set_tristate_value calc s (next_tri newval)) (\<lambda>ok.
       if ok then ret (next_tri newval)
       else if oldval \<noteq> next_tri newval then toggle_loop n calc s oldval (next_tri newval)
       else ret (next_tri newval))"

definition sym_toggle_tristate_value :: "calc \<Rightarrow> sym \<Rightarrow> tristate kprog" where
  "sym_toggle_tristate_value calc s =
     bnd (gets (\<lambda>k. sym_get_tristate_value k s)) (\<lambda>oldval. toggle_loop 3 calc s oldval oldval)"

section \<open>String values\<close>

text \<open>The digits from the first one on; a leading zero must be the only digit.\<close>

definition valid_digits :: "string \<Rightarrow> bool" where
  "valid_digits str = (case str of [] \<Rightarrow> False
     | ch # rest \<Rightarrow> is_digit ch \<and> \<not> (ch = CHR ''0'' \<and> rest \<noteq> []) \<and> list_all is_digit rest)"

definition valid_hex :: "string \<Rightarrow> bool" where
  "valid_hex str =
     (let s = (case str of z # x # r \<Rightarrow>
                if z = CHR ''0'' \<and> (x = CHR ''x'' \<or> x = CHR ''X'') then r else str
              | _ \<Rightarrow> str)
      in s \<noteq> [] \<and> list_all is_xdigit s)"

definition first_tri :: "string \<Rightarrow> tristate option" where
  "first_tri str = (case str of [] \<Rightarrow> None
     | c # _ \<Rightarrow> if c \<in> {CHR ''y'', CHR ''Y''} then Some Yes
               else if c \<in> {CHR ''m'', CHR ''M''} then Some Mod
               else if c \<in> {CHR ''n'', CHR ''N''} then Some No else None)"

definition sym_string_valid :: "symbol_type \<Rightarrow> string \<Rightarrow> bool" where
  "sym_string_valid ty str = (case ty of
       S_STRING \<Rightarrow> True
     | S_INT \<Rightarrow> valid_digits (case str of c # r \<Rightarrow> if c = CHR ''-'' then r else str | [] \<Rightarrow> [])
     | S_HEX \<Rightarrow> valid_hex str
     | S_BOOLEAN \<Rightarrow> first_tri str \<noteq> None
     | S_TRISTATE \<Rightarrow> first_tri str \<noteq> None
     | _ \<Rightarrow> False)"

definition sym_string_within_range :: "calc \<Rightarrow> sym \<Rightarrow> string \<Rightarrow> bool kprog" where
  "sym_string_within_range calc s str =
     bnd (at s stype) (\<lambda>ty.
       if ty = S_STRING then ret (sym_string_valid ty str)
       else if ty = S_INT \<or> ty = S_HEX then
         (if \<not> sym_string_valid ty str then ret False
          else bnd (sym_get_range_prop calc s) (\<lambda>prop. case prop of None \<Rightarrow> ret True
          | Some (p, _) \<Rightarrow>
            bnd (deref (range_syms p)) (\<lambda>(lo, hi).
            bnd (sym_get_range_val calc lo (range_base ty)) (\<lambda>l.
              if strtoll (range_base ty) str \<ge> l then
                bnd (sym_get_range_val calc hi (range_base ty)) (\<lambda>h.
                  ret (strtoll (range_base ty) str \<le> h))
              else ret False))))
       else if ty = S_BOOLEAN \<or> ty = S_TRISTATE then
         (case first_tri str of None \<Rightarrow> ret False
          | Some t \<Rightarrow> gets (\<lambda>k. sym_tristate_within_range k s t))
       else ret False)"

text \<open>
  A hexadecimal value is stored with its prefix. An unchanged string is left alone, unless the
  prefix had to be added.
\<close>

definition has_0x :: "string \<Rightarrow> bool" where
  "has_0x str = (case str of z # x # _ \<Rightarrow> z = CHR ''0'' \<and> (x = CHR ''x'' \<or> x = CHR ''X'') | _ \<Rightarrow> False)"

definition set_user_string :: "sym \<Rightarrow> string \<Rightarrow> unit kprog" where
  "set_user_string s str = upd s (\<lambda>y. y\<lparr>def_user := (def_user y)\<lparr>val := V_str str\<rparr>\<rparr>)"

definition sym_set_string_value :: "calc \<Rightarrow> sym \<Rightarrow> string \<Rightarrow> bool kprog" where
  "sym_set_string_value calc s newval =
     bnd (at s stype) (\<lambda>ty.
       if ty = S_BOOLEAN \<or> ty = S_TRISTATE then
         (case first_tri newval of None \<Rightarrow> ret False | Some t \<Rightarrow> sym_set_tristate_value calc s t)
       else
         bnd (sym_string_within_range calc s newval) (\<lambda>within.
           if \<not> within then ret False
           else
             thn (set_user_flag s)
             (bnd (at s (\<lambda>y. val (def_user y))) (\<lambda>oldval.
               if ty = S_HEX \<and> \<not> has_0x newval then
                 thn (set_user_string s (''0x'' @ newval)) (thn (sym_clear_all_valid calc) (ret True))
               else if oldval \<noteq> V_str newval then
                 thn (set_user_string s newval) (thn (sym_clear_all_valid calc) (ret True))
               else ret True))))"

definition sym_get_string_default :: "calc \<Rightarrow> sym \<Rightarrow> sval kprog" where
  "sym_get_string_default calc s =
     thn (sym_calc_visibility calc s)
     (bnd (gets modules_sym) (\<lambda>m. thn (calc m)
     (bnd (at s stype) (\<lambda>ty.
     bnd (sym_get_default_prop calc s) (\<lambda>prop.
     bnd (case prop of None \<Rightarrow> ret (No, V_str [])
          | Some (p, vis) \<Rightarrow>
             if ty = S_BOOLEAN \<or> ty = S_TRISTATE then
               bnd (eval_null calc (pexpr p)) (\<lambda>t. ret (EXPR_AND t vis, V_str []))
             else (case prop_get_symbol p of None \<Rightarrow> ret (No, V_str [])
               | Some ds \<Rightarrow> thn (calc ds) (at ds (\<lambda>y. (No, val (curr y)))))) (\<lambda>(t, str).
     gets (\<lambda>k.
       let t1 = EXPR_OR t (vtri (rev_dep (symtab k s)));
           t2 = (if t1 = Mod \<and> \<not> sym_is_choice_value (symtab k s)
                     \<and> tri (curr (symtab k (modules_sym k))) = No then Yes else t1);
           t3 = (if ty = S_BOOLEAN \<and> t2 = Mod then Yes else t2)
       in if ty = S_BOOLEAN \<or> ty = S_TRISTATE then V_str (tri_str t3)
          else if ty = S_INT \<or> ty = S_HEX \<or> ty = S_STRING then str
          else V_str [])))))))"

definition sym_is_changable :: "kconf \<Rightarrow> sym \<Rightarrow> bool" where
  "sym_is_changable k s \<longleftrightarrow> visible (symtab k s) > vtri (rev_dep (symtab k s))"

section \<open>An accepted value is the calculated one\<close>

lemma within_range_bounds:
  assumes "sym_tristate_within_range k s v" and "\<not> sym_is_choice_value (symtab k s)"
  shows "visible (symtab k s) \<noteq> No" and "vtri (rev_dep (symtab k s)) \<le> v" and "v \<le> visible (symtab k s)"
    and "v = Mod \<Longrightarrow> sym_get_type k s \<noteq> S_BOOLEAN"
  using assms by (auto simp: sym_tristate_within_range_def Let_def split: if_splits)

lemma within_range_changable: "sym_tristate_within_range k s v \<Longrightarrow> sym_is_changable k s"
  by (auto simp: sym_tristate_within_range_def sym_is_changable_def Let_def split: if_splits)

lemma tri_squeeze: "lo \<le> v \<Longrightarrow> v \<le> hi \<Longrightarrow> EXPR_OR (EXPR_AND v hi) lo = v"
  by (simp add: EXPR_OR_max EXPR_AND_min min_def max_def)

definition warns :: "kconf \<Rightarrow> sym \<Rightarrow> bool" where
  "warns k s \<longleftrightarrow> vtri (dir_dep (symtab k s)) = No \<and> vtri (rev_dep (symtab k s)) \<noteq> No"

lemma user_value_effective:
  assumes "sym_tristate_within_range k s v" and "\<not> sym_is_choice_value (symtab k s)"
    and "sym_has_value (symtab k s)" and "tri (def_user (symtab k s)) = v" and "\<not> warns k s"
  shows "\<exists>l. calc_tristate calc s k = Ok (v, l)"
proof -
  let ?k = "put_sym s (\<lambda>y. y\<lparr>flags := flags y \<union> {SYMBOL_WRITE}\<rparr>) k"
  have k: "sym_has_value (symtab ?k s)" "sym_get_type ?k s = sym_get_type k s"
    "vtri (dir_dep (symtab ?k s)) = vtri (dir_dep (symtab k s))" "rev_dep (symtab ?k s) = rev_dep (symtab k s)"
    "def_user (symtab ?k s) = def_user (symtab k s)" "visible (symtab ?k s) = visible (symtab k s)"
    using assms(2,3) by (auto simp: put_sym_def sym_has_value_def sym_get_type_def sym_is_choice_value_def)
  note b = within_range_bounds [OF assms(1,2)]
  have user: "calc_user calc s k = Ok (EXPR_AND v (visible (symtab k s)), ?k)"
    using b(1) k assms(4)
    by (simp add: calc_user_def bnd_def thn_def at_def gets_def unless_def set_flags_def upd_def modify_def)
  have warn: "warn_unmet s ?k = Ok ((), ?k)"
    using assms(5) k by (auto simp: warn_unmet_def warns_def bnd_def gets_def ret_def)
  have "calc_selected calc s k = Ok (v, ?k)"
    using user warn tri_squeeze [OF b(2,3)] k(4)
    by (simp add: calc_selected_def bnd_def thn_def at_def gets_def)
  then show ?thesis
    using b(4) k(2) assms(2)
    by (auto simp: calc_tristate_def bnd_def at_def gets_def)
qed

text \<open>A rejected value leaves the state as it was.\<close>

lemma set_tristate_rejected:
  "sym_set_tristate_value calc s v k = Ok (False, l) \<Longrightarrow>
     l = k \<and> tri (curr (symtab k s)) \<noteq> v \<and> \<not> sym_tristate_within_range k s v"
  by (auto simp: sym_set_tristate_value_def bnd_Ok thn_Ok sym_get_tristate_value_def split: if_splits)

section \<open>Setting a value ends\<close>

text \<open>
  Invalidating all symbols makes at most the symbols of the table pending again, so a recursion
  depth above three times their number is always enough.
\<close>

definition in_universe :: "sym set \<Rightarrow> kconf \<Rightarrow> bool" where
  "in_universe U k \<longleftrightarrow> (\<forall>s. in_table k s \<longrightarrow> s \<in> U) \<and> pending U k"

definition keeps_universe :: "sym set \<Rightarrow> kconf \<Rightarrow> kconf \<Rightarrow> bool" where
  "keeps_universe U k l \<longleftrightarrow> (in_universe U k \<longrightarrow> in_universe U l)"

interpretation uni: state_relation True "in_universe U" "keeps_universe U" for U
  by unfold_locales (auto simp: keeps_universe_def)

lemma in_table_static: "same_static k l \<Longrightarrow> in_table l s = in_table k s"
  by (simp add: in_table_def same_static_def static_eq_def)

lemma total_weight_le: "total_weight U k \<le> 3 * card U"
proof -
  have "total_weight U k \<le> (\<Sum>s \<in> U. 3)"
    unfolding total_weight_def by (rule sum_mono) (simp add: weight_def)
  then show ?thesis by simp
qed

lemma uni_calc:
  assumes "finite U" and "3 * card U < n"
  shows "runs True (in_universe U) (keeps_universe U) (sym_calc_value n s)"
  unfolding runs_def
proof (intro allI impI conjI)
  fix k assume k: "in_universe U k"
  then have l: "lighter U n k"
    using total_weight_le [of U k] assms(2) by (simp add: lighter_def in_universe_def)
  show "sym_calc_value n s k \<noteq> NoFuel" by (rule runs_fuelD [OF calc_value_runs [OF assms(1)] l])
  fix u l' assume ok: "sym_calc_value n s k = Ok (u, l')"
  have w: "wle k l'" by (rule runsD [OF calc_value_runs [OF assms(1)] l ok])
  have "pending U l'" using lighter_closed [OF l w] by (simp add: lighter_def)
  moreover have st: "same_static k l'" by (rule frame_static) (rule runsD [OF calc_value_frame TrueI ok])
  ultimately show "keeps_universe U k l'"
    by (auto simp: keeps_universe_def in_universe_def in_table_static [OF st])
qed

lemma same_static_put: "own f \<Longrightarrow> same_static k (put_sym s f k)"
  by (auto simp: same_static_def put_sym_def own_def static_eq_refl)

lemma uni_upd: "own f \<Longrightarrow> runs True (in_universe U) (keeps_universe U) (upd s f)"
  unfolding upd_def
  by (rule uni.runs_modify)
     (auto simp: keeps_universe_def in_universe_def in_table_static [OF same_static_put] pending_def weight_put_own)

lemma own_def_user: "own (\<lambda>y. y\<lparr>def_user := g y\<rparr>)"
  by (simp add: own_def static_eq_def)

lemma uni_flags:
  "F \<inter> (kept_flags \<union> calc_flags) = {} \<Longrightarrow> runs True (in_universe U) (keeps_universe U) (set_flags s F)"
  by (simp add: set_flags_def uni_upd quiet_own quiet_flags)

lemma uni_at: "runs True (in_universe U) (keeps_universe U) (at s f)"
  by (simp add: at_def uni.runs_gets)

lemma uni_clear_all:
  assumes "finite U" and "3 * card U < n"
  shows "runs True (in_universe U) (keeps_universe U) (sym_clear_all_valid (sym_calc_value n))"
proof -
  have "runs True (in_universe U) (keeps_universe U) (upd_all (\<lambda>y. y\<lparr>flags := flags y - {SYMBOL_VALID}\<rparr>))"
    unfolding upd_all_def
    by (rule uni.runs_modify)
       (auto simp: keeps_universe_def in_universe_def in_table_def pending_def weight_def is_valid_def needs_set_def)
  moreover have "runs True (in_universe U) (keeps_universe U) (sym_add_change_count c)" for c
    unfolding sym_add_change_count_def
    by (rule uni.runs_modify)
       (auto simp: keeps_universe_def in_universe_def in_table_def pending_def weight_def is_valid_def needs_set_def)
  ultimately show ?thesis
    unfolding sym_clear_all_valid_def by (intro uni.runs_rules uni_calc assms)
qed

lemma uni_set_tristate:
  assumes "finite U" and "3 * card U < n"
  shows "runs True (in_universe U) (keeps_universe U) (sym_set_tristate_value (sym_calc_value n) s v)"
  unfolding sym_set_tristate_value_def set_user_flag_def set_choice_user_def sym_set_changed_def
    choice_of_def choice_syms_def
  by (intro uni.runs_rules uni_at uni_flags flags_disjoint uni_upd own_def_user uni_clear_all assms)

lemma toggle_loop_fuel:
  assumes "finite U" and "3 * card U < n" and k: "in_universe U k" and old: "tri (curr (symtab k s)) = old"
  shows "toggle_loop 3 (sym_calc_value n) s old old k \<noteq> NoFuel"
proof -
  let ?set = "sym_set_tristate_value (sym_calc_value n) s"
  have fuel: "?set v k \<noteq> NoFuel" for v by (rule runs_fuelD [OF uni_set_tristate [OF assms(1,2)] k])
  have rej: "?set v k = Ok (False, l) \<Longrightarrow> l = k \<and> v \<noteq> old" for v l
    using set_tristate_rejected old by blast
  show ?thesis
    using fuel
    by (cases old)
       (auto simp: numeral_3_eq_3 bnd_NoFuel ret_def dest!: rej split: if_splits)
qed

section \<open>The accepted integers are the printed ones\<close>

lemma char_of_zero [simp]: "char_of (48 :: nat) = CHR ''0''"
  by code_simp

lemma digit_char_val: "is_digit c \<Longrightarrow> digit_char (digit_val c) = c"
  by (auto simp: is_digit_def digit_val_def digit_char_def ascii_def)

lemma digit_val_less: "is_digit c \<Longrightarrow> digit_val c < 10"
  by (auto simp: is_digit_def digit_val_def)

lemma digit_val_zero: "is_digit c \<Longrightarrow> digit_val c = 0 \<longleftrightarrow> c = CHR ''0''"
  using digit_char_val [of c] by (auto simp: digit_char_def digit_val_def is_digit_def ascii_def)

lemma digits_val_snoc:
  "list_all is_digit (s @ [c]) \<Longrightarrow> digits_val 10 0 (s @ [c]) = digits_val 10 0 s * 10 + digit_val c"
proof -
  assume a: "list_all is_digit (s @ [c])"
  then have "\<forall>x \<in> set s. digit_val x < 10" by (auto simp: list_all_iff digit_val_less)
  with a show ?thesis by (simp add: digits_val_append digit_val_less)
qed

lemma digits_val_pos:
  "list_all is_digit s \<Longrightarrow> s \<noteq> [] \<Longrightarrow> hd s \<noteq> CHR ''0'' \<Longrightarrow> 0 < digits_val 10 0 s"
proof (induction s rule: rev_induct)
  case (snoc c s)
  show ?case
  proof (cases s)
    case Nil
    with snoc show ?thesis using digit_val_zero [of c] by (simp add: digit_val_less)
  next
    case Cons
    have "digits_val 10 0 (s @ [c]) = digits_val 10 0 s * 10 + digit_val c"
      using snoc.prems(1) by (rule digits_val_snoc)
    moreover have "0 < digits_val 10 0 s" using snoc.prems Cons by (intro snoc.IH) auto
    ultimately show ?thesis by linarith
  qed
qed simp

lemma valid_digits_show: "valid_digits ds \<Longrightarrow> show_nat 10 (digits_val 10 0 ds) = ds"
proof (induction ds rule: rev_induct)
  case (snoc c s)
  then have d: "list_all is_digit (s @ [c])" by (cases s) (auto simp: valid_digits_def)
  have c: "is_digit c" "digit_val c < 10" using d by (auto simp: digit_val_less)
  show ?case
  proof (cases s)
    case Nil
    with c show ?thesis by (simp add: show_nat.simps digit_char_val)
  next
    case (Cons x xs)
    with snoc.prems have s: "valid_digits s" "hd s \<noteq> CHR ''0''" by (auto simp: valid_digits_def)
    then have "0 < digits_val 10 0 s" using d Cons by (intro digits_val_pos) auto
    with c s(1) snoc.IH show ?thesis
      by (simp add: digits_val_snoc [OF d] show_nat.simps [of 10 "digits_val 10 0 s * 10 + digit_val c"]
          digit_char_val)
  qed
qed (simp add: valid_digits_def)

lemma digit_char_digit: "d < 10 \<Longrightarrow> is_digit (digit_char d)"
  by (simp add: digit_char_def is_digit_def ascii_def)

lemma digit_char_zero: "d < 10 \<Longrightarrow> digit_char d = CHR ''0'' \<longleftrightarrow> d = 0"
  using digit_val_zero [OF digit_char_digit, of d] by simp

lemma show_nat_all_digits: "list_all is_digit (show_nat 10 n)"
  using show_nat_digits [of 10 n] by (auto simp: list_all_iff digit_char_digit)

lemma show_nat_hd_pos: "0 < n \<Longrightarrow> hd (show_nat 10 n) \<noteq> CHR ''0''"
proof (induction n rule: less_induct)
  case (less n)
  show ?case
  proof (cases "n < 10")
    case True
    with less show ?thesis by (simp add: show_nat.simps [of 10 n] digit_char_zero)
  next
    case False
    with less.IH [of "n div 10"] show ?thesis by (simp add: show_nat.simps [of 10 n])
  qed
qed

lemma show_nat_valid: "valid_digits (show_nat 10 n)"
proof (cases "n = 0")
  case True
  then show ?thesis by (simp add: show_nat.simps valid_digits_def digit_char_def is_digit_def ascii_def)
next
  case False
  then have "hd (show_nat 10 n) \<noteq> CHR ''0''" by (simp add: show_nat_hd_pos)
  with show_nat_all_digits [of n] show ?thesis
    by (cases "show_nat 10 n") (auto simp: valid_digits_def)
qed

lemma valid_digits_iff: "valid_digits ds \<longleftrightarrow> (\<exists>n. ds = show_nat 10 n)"
  using valid_digits_show [of ds] show_nat_valid by metis

lemma show_nat_no_minus: "hd (show_nat 10 n) \<noteq> CHR ''-''"
  by (rule show_nat_hd [of 10 n]) (use digit_char_plain in auto)

lemma minus_not_show_nat: "CHR ''-'' # r \<noteq> show_nat 10 n"
  using show_nat_no_minus [of n] by (metis list.sel(1))

lemma int_string_valid_iff:
  "sym_string_valid S_INT str \<longleftrightarrow> (\<exists>v. str = fmt_lld v) \<or> str = ''-0''"
proof (cases "str \<noteq> [] \<and> hd str = CHR ''-''")
  case True
  then obtain r where r: "str = CHR ''-'' # r" by (cases str) auto
  have zero: "show_nat 10 0 = ''0''" by (simp add: show_nat.simps digit_char_def)
  have "(\<exists>n. r = show_nat 10 n) \<longleftrightarrow> (\<exists>v. str = fmt_lld v) \<or> str = ''-0''"
  proof
    assume "\<exists>n. r = show_nat 10 n"
    then obtain n where n: "r = show_nat 10 n" ..
    show "(\<exists>v. str = fmt_lld v) \<or> str = ''-0''"
    proof (cases "n = 0")
      case False
      then have "str = fmt_lld (- int n)" using r n by (simp add: fmt_lld_def)
      then show ?thesis by blast
    qed (use r n zero in simp)
  next
    assume "(\<exists>v. str = fmt_lld v) \<or> str = ''-0''"
    then show "\<exists>n. r = show_nat 10 n"
    proof
      assume "\<exists>v. str = fmt_lld v"
      then obtain v where v: "str = fmt_lld v" ..
      then show ?thesis using r minus_not_show_nat by (auto simp: fmt_lld_def split: if_splits)
    qed (use r zero in \<open>auto intro: exI [of _ 0]\<close>)
  qed
  then show ?thesis using r by (simp add: sym_string_valid_def valid_digits_iff)
next
  case False
  have "(\<exists>n. str = show_nat 10 n) \<longleftrightarrow> (\<exists>v. str = fmt_lld v)"
  proof
    assume "\<exists>n. str = show_nat 10 n"
    then obtain n where "str = fmt_lld (int n)" by (auto simp: fmt_lld_def)
    then show "\<exists>v. str = fmt_lld v" ..
  qed (use False in \<open>auto simp: fmt_lld_def split: if_splits\<close>)
  moreover have "sym_string_valid S_INT str \<longleftrightarrow> valid_digits str"
    using False by (cases str) (auto simp: sym_string_valid_def)
  ultimately show ?thesis using False by (auto simp: valid_digits_iff)
qed

section \<open>Properties\<close>


definition user_kconf :: kconf where
  "user_kconf = mk_kconf (\<lambda>_. (new_symbol (Some ''A'') {SYMBOL_DEF_USER})
     \<lparr>stype := S_TRISTATE, visible := Yes, def_user := \<lparr>val = V_null, tri = Mod\<rparr>\<rparr>)"


text \<open>
  C20. \<^verbatim>\<open>sym_set_tristate_value\<close> refuses a value only if it differs from the current one and
  is out of range, and then changes nothing.
\<close>

theorem rejected_value_unchanged:
  assumes "sym_set_tristate_value calc s v k = Ok (False, l)"
  shows "l = k \<and> tri (curr (symtab k s)) \<noteq> v \<and> \<not> sym_tristate_within_range k s v"
  using assms by (rule set_tristate_rejected)

theorem rejected_value_unchanged_witness:
  "\<not> sym_tristate_within_range (mk_kconf (\<lambda>_. valued_symbol S_BOOLEAN No)) (Sym 0) Yes"
proof -
  have "sym_set_tristate_value (sym_calc_value 0) (Sym 0) Yes (mk_kconf (\<lambda>_. valued_symbol S_BOOLEAN No))
      = Ok (False, mk_kconf (\<lambda>_. valued_symbol S_BOOLEAN No))"
    by (simp add: sym_set_tristate_value_def eval_access sym_get_tristate_value_def
        sym_tristate_within_range_def Let_def valued_symbol_def new_symbol_def)
  from rejected_value_unchanged [OF this] show ?thesis by simp
qed

text \<open>
  C19. The strings \<^verbatim>\<open>sym_string_valid\<close> accepts for an integer symbol are exactly the canonical
  decimal numbers that \<^verbatim>\<open>sprintf\<close> prints, and \<^verbatim>\<open>-0\<close>.
\<close>

theorem int_strings_canonical:
  "sym_string_valid S_INT str \<longleftrightarrow> (\<exists>v. str = fmt_lld v) \<or> str = ''-0''"
  by (rule int_string_valid_iff)

text \<open>
  C14. Toggling a tristate symbol ends: the loop over the values returns to an accepted one after
  at most three steps, and the recalculation in each of them ends when the recursion depth is
  above three times the number of symbols of the table.
\<close>

theorem toggle_terminates:
  assumes "finite U" and "3 * card U < n" and "in_universe U k"
  shows "sym_toggle_tristate_value (sym_calc_value n) s k \<noteq> NoFuel"
  using toggle_loop_fuel [OF assms, of s]
  by (simp add: sym_toggle_tristate_value_def bnd_def gets_def sym_get_tristate_value_def)

theorem toggle_terminates_witness:
  "sym_toggle_tristate_value (sym_calc_value 7) (Sym 0) cyclic_kconf \<noteq> NoFuel"
proof (rule toggle_terminates)
  show "in_universe {Sym 0, Sym 1} cyclic_kconf"
    using cyclic_pending by (auto simp: in_universe_def in_table_def cyclic_kconf_def mk_kconf_def)
qed simp_all

end
