(* ===== verification/Kconfig_Text.thy ===== *)
theory Kconfig_Text
  imports Kconfig_Table Kconfig_Set Kconfig_Print
begin

text \<open>
  Text values: quoting and expanding strings (\<^verbatim>\<open>sym_escape_string_value\<close> and
  \<^verbatim>\<open>sym_expand_string_value\<close> of \<^verbatim>\<open>symbol.c\<close>, \<^verbatim>\<open>conf_expand_value\<close> of
  \<^verbatim>\<open>confdata.c\<close>) and reading a value back (\<^verbatim>\<open>conf_set_sym_val\<close>). Sizes of the
  buffers are part of the model: writing past one is a crash.
\<close>

declare sym_calc_value.simps [simp del]

section \<open>Quoting\<close>

definition plain :: "char \<Rightarrow> bool" where
  "plain c \<longleftrightarrow> c \<noteq> CHR 0x22 \<and> c \<noteq> CHR 0x5C"

text \<open>The first loop counts the characters to escape, the second one copies.\<close>

function escape_count :: "string \<Rightarrow> nat \<Rightarrow> nat" where
  "escape_count p reslen = (case dropWhile plain p of [] \<Rightarrow> reslen
     | c # q \<Rightarrow> escape_count q (reslen + 1))"
  by auto

function escape_copy :: "string \<Rightarrow> string \<Rightarrow> string" where
  "escape_copy p res = (case dropWhile plain p of [] \<Rightarrow> res @ takeWhile plain p
     | c # q \<Rightarrow> escape_copy q (res @ takeWhile plain p @ [CHR 0x5C] @ [c]))"
  by auto

lemma dropWhile_Cons_less: "dropWhile P p = c # q \<Longrightarrow> length q < length p"
  by (metis Suc_le_eq length_Cons length_dropWhile_le)

termination escape_count
  by (relation "measure (length \<circ> fst)") (auto dest!: sym [THEN dropWhile_Cons_less] dropWhile_Cons_less)

termination escape_copy
  by (relation "measure (length \<circ> fst)") (auto dest!: sym [THEN dropWhile_Cons_less] dropWhile_Cons_less)

declare escape_count.simps [simp del] escape_copy.simps [simp del]

text \<open>The allocated size and the string built in the allocated buffer.\<close>

definition sym_escape_string_value :: "string \<Rightarrow> nat \<times> string" where
  "sym_escape_string_value inp =
     (escape_count inp (length inp + 2 + 1), escape_copy inp [CHR 0x22] @ [CHR 0x22])"

text \<open>
  The text after an opening quote, up to the closing one, with each backslash removed and the
  character behind it kept: the loop around \<^verbatim>\<open>strpbrk\<close> in \<^verbatim>\<open>conf_set_sym_val\<close>.
  A backslash at the end moves the terminator, and no closing quote is found.
\<close>

fun unquote :: "string \<Rightarrow> string option" where
  "unquote [] = None"
| "unquote (c # cs) =
     (if c = CHR 0x22 then Some []
      else if c = CHR 0x5C then (case cs of [] \<Rightarrow> None | d # ds \<Rightarrow> map_option ((#) d) (unquote ds))
      else map_option ((#) c) (unquote cs))"

section \<open>Expanding symbol names\<close>

definition SYMBOL_MAXLENGTH :: nat where
  "SYMBOL_MAXLENGTH = 256"

definition name_char :: "char \<Rightarrow> bool" where
  "name_char c \<longleftrightarrow> is_alnum c \<or> c = CHR ''_''"

text \<open>A string is stored with its terminator.\<close>

definition fits :: "string \<Rightarrow> nat \<Rightarrow> unit kprog" where
  "fits s cap = (if length s < cap then ret () else crash)"

definition string_of :: "sval \<Rightarrow> string kprog" where
  "string_of v = deref (sval_str v)"

definition symval :: "calc \<Rightarrow> string \<Rightarrow> string kprog" where
  "symval calc name =
     bnd (gets (sym_find (Some name))) (\<lambda>sy. case sy of None \<Rightarrow> ret []
       | Some s \<Rightarrow> thn (calc s) (bnd (sym_get_string_value_st calc s) string_of))"

definition before_dollar :: "string \<Rightarrow> string" where
  "before_dollar inp = takeWhile (\<lambda>c. c \<noteq> CHR ''$'') inp"

function expand_loop :: "calc \<Rightarrow> string \<Rightarrow> string \<Rightarrow> nat \<Rightarrow> string kprog" where
  "expand_loop calc inp res reslen =
     (case dropWhile (\<lambda>c. c \<noteq> CHR ''$'') inp of
        [] \<Rightarrow> thn (fits (res @ inp) reslen) (ret (res @ inp))
      | _ # src \<Rightarrow>
         let res1 = res @ before_dollar inp; name = takeWhile name_char src; rest = dropWhile name_char src in
         thn (fits res1 reslen)
         (thn (fits name SYMBOL_MAXLENGTH)
         (bnd (symval calc name) (\<lambda>v.
            let newlen = length res1 + length v + length rest + 1;
                reslen1 = (if newlen > reslen then newlen else reslen)
            in thn (fits (res1 @ v) reslen1) (expand_loop calc rest (res1 @ v) reslen1)))))"
  by auto

text \<open>The buffer of \<^verbatim>\<open>conf_expand_value\<close> is static; an unknown name is entered in the table.\<close>

function conf_expand_loop :: "calc \<Rightarrow> string \<Rightarrow> string \<Rightarrow> string kprog" where
  "conf_expand_loop calc inp res =
     (case dropWhile (\<lambda>c. c \<noteq> CHR ''$'') inp of
        [] \<Rightarrow> thn (fits (res @ inp) SYMBOL_MAXLENGTH) (ret (res @ inp))
      | _ # src \<Rightarrow>
         let res1 = res @ before_dollar inp; name = takeWhile name_char src; rest = dropWhile name_char src in
         thn (fits res1 SYMBOL_MAXLENGTH)
         (thn (fits name SYMBOL_MAXLENGTH)
         (bnd (\<lambda>k. Ok (sym_lookup (Some name) {} k)) (\<lambda>s.
          thn (calc s)
         (bnd (sym_get_string_value_st calc s) (\<lambda>sv.
          bnd (string_of sv) (\<lambda>v.
            thn (fits (res1 @ v) SYMBOL_MAXLENGTH) (conf_expand_loop calc rest (res1 @ v)))))))))"
  by auto

lemma dropWhile_rest_less: "dropWhile P p = c # q \<Longrightarrow> length (dropWhile Q q) < length p"
  by (meson dropWhile_Cons_less le_less_trans length_dropWhile_le)

termination expand_loop
  by (relation "measure (length \<circ> fst \<circ> snd)") (auto dest: dropWhile_rest_less)

termination conf_expand_loop
  by (relation "measure (length \<circ> fst \<circ> snd)") (auto dest: dropWhile_rest_less)

declare expand_loop.simps [simp del] conf_expand_loop.simps [simp del]

definition sym_expand_string_value :: "calc \<Rightarrow> string \<Rightarrow> string kprog" where
  "sym_expand_string_value calc inp = expand_loop calc inp [] (length inp + 1)"

definition conf_expand_value :: "calc \<Rightarrow> string \<Rightarrow> string kprog" where
  "conf_expand_value calc inp = conf_expand_loop calc inp []"

section \<open>Reading a value\<close>

text \<open>
  A symbol has a user value and a value read back from the generated files. Only the former is
  reported when it is wrong.
\<close>

datatype def_index = S_DEF_USER | S_DEF_AUTO

fun def_flag :: "def_index \<Rightarrow> sym_flag" where
  "def_flag S_DEF_USER = SYMBOL_DEF_USER"
| "def_flag S_DEF_AUTO = SYMBOL_DEF_AUTO"

fun get_def :: "def_index \<Rightarrow> symbol \<Rightarrow> symbol_value" where
  "get_def S_DEF_USER y = def_user y"
| "get_def S_DEF_AUTO y = def_auto y"

fun put_def :: "def_index \<Rightarrow> symbol_value \<Rightarrow> symbol \<Rightarrow> symbol" where
  "put_def S_DEF_USER v y = y\<lparr>def_user := v\<rparr>"
| "put_def S_DEF_AUTO v y = y\<lparr>def_auto := v\<rparr>"

definition store_def :: "def_index \<Rightarrow> (symbol_value \<Rightarrow> symbol_value) \<Rightarrow> symbol \<Rightarrow> symbol" where
  "store_def d f y = put_def d (f (get_def d y)) (y\<lparr>flags := insert (def_flag d) (flags y)\<rparr>)"

text \<open>The new contents of the symbol, or none where the value is refused.\<close>

definition store_string :: "def_index \<Rightarrow> string \<Rightarrow> symbol \<Rightarrow> symbol option" where
  "store_string d p y =
     (if sym_string_valid (stype y) p then Some (store_def d (\<lambda>v. v\<lparr>val := V_str p\<rparr>) y) else None)"

definition store_tristate :: "def_index \<Rightarrow> string \<Rightarrow> symbol \<Rightarrow> symbol option" where
  "store_tristate d p y =
     (if take 1 p = ''y'' then Some (store_def d (\<lambda>v. v\<lparr>tri := Yes\<rparr>) y)
      else if take 1 p = ''n'' then Some (store_def d (\<lambda>v. v\<lparr>tri := No\<rparr>) y)
      else None)"

definition store_quoted :: "def_index \<Rightarrow> string \<Rightarrow> symbol \<Rightarrow> symbol option" where
  "store_quoted d p y = (case p of [] \<Rightarrow> Some y
     | c # r \<Rightarrow> if c \<noteq> CHR 0x22 then Some y
               else (case unquote r of None \<Rightarrow> None | Some q \<Rightarrow> store_string d q y))"

definition conf_set_sym_val :: "def_index \<Rightarrow> string \<Rightarrow> symbol \<Rightarrow> symbol option" where
  "conf_set_sym_val d p y = (case stype y of
       S_TRISTATE \<Rightarrow>
         if take 1 p = ''m'' then Some (store_def d (\<lambda>v. v\<lparr>tri := Mod\<rparr>) y) else store_tristate d p y
     | S_BOOLEAN \<Rightarrow> store_tristate d p y
     | S_OTHER \<Rightarrow>
         if take 1 p \<noteq> [CHR 0x22] then store_string d p (y\<lparr>stype := S_STRING\<rparr>) else store_quoted d p y
     | S_STRING \<Rightarrow> store_quoted d p y
     | S_INT \<Rightarrow> store_string d p y
     | S_HEX \<Rightarrow> store_string d p y
     | S_UNKNOWN \<Rightarrow> Some y)"

section \<open>Quoting is undone by reading\<close>

lemma takeWhile_all_dropWhile: "dropWhile P p = [] \<Longrightarrow> takeWhile P p = p"
  by (metis append_Nil2 takeWhile_dropWhile_id)

lemma escape_count_val: "escape_count p n = n + length (filter (\<lambda>c. \<not> plain c) p)"
proof (induction p n rule: escape_count.induct)
  case (1 p n)
  have f: "filter (\<lambda>c. \<not> plain c) p = filter (\<lambda>c. \<not> plain c) (dropWhile plain p)"
    by (induction p) auto
  show ?case
  proof (cases "dropWhile plain p")
    case Nil
    then show ?thesis by (simp add: escape_count.simps [of p] f del: dropWhile_eq_Nil_conv)
  next
    case (Cons c q)
    moreover have "\<not> plain c" using Cons hd_dropWhile [of plain p] by force
    ultimately show ?thesis using 1 by (simp add: escape_count.simps [of p] f)
  qed
qed

fun escaped :: "string \<Rightarrow> string" where
  "escaped [] = []"
| "escaped (c # s) = (if plain c then c # escaped s else CHR 0x5C # c # escaped s)"

lemma escaped_split: "dropWhile plain p = c # q \<Longrightarrow> escaped p = takeWhile plain p @ CHR 0x5C # c # escaped q"
  by (induction p) (auto split: if_splits)

lemma escaped_plain: "dropWhile plain p = [] \<Longrightarrow> escaped p = p"
  by (induction p) (auto split: if_splits)

lemma escape_copy_val: "escape_copy p res = res @ escaped p"
proof (induction p res rule: escape_copy.induct)
  case (1 p res)
  show ?case
  proof (cases "dropWhile plain p")
    case Nil
    then show ?thesis
      by (simp add: escape_copy.simps [of p] escaped_plain takeWhile_all_dropWhile del: dropWhile_eq_Nil_conv)
  next
    case (Cons c q)
    then show ?thesis
      using "1.IH" [OF Cons] by (simp add: escape_copy.simps [of p] escaped_split)
  qed
qed

lemma escape_value: "snd (sym_escape_string_value inp) = CHR 0x22 # escaped inp @ [CHR 0x22]"
  by (simp add: sym_escape_string_value_def escape_copy_val)

lemma unquote_escaped: "unquote (escaped s @ CHR 0x22 # t) = Some s"
  by (induction s) (auto simp: plain_def)

lemma length_escaped: "length (escaped s) = length s + length (filter (\<lambda>c. \<not> plain c) s)"
  by (induction s) auto

lemma escape_size: "fst (sym_escape_string_value inp) = Suc (length (snd (sym_escape_string_value inp)))"
  by (simp add: sym_escape_string_value_def escape_count_val escape_copy_val length_escaped)

section \<open>Expansion of a calculated configuration\<close>

text \<open>
  What the expansion gives once all values are calculated: none where a name is too long or a
  value is null.
\<close>

definition name_value :: "kconf \<Rightarrow> string \<Rightarrow> string option" where
  "name_value k name = (case sym_find (Some name) k of None \<Rightarrow> Some []
     | Some s \<Rightarrow> sval_str (sym_get_string_value k s))"

function expansion :: "kconf \<Rightarrow> string \<Rightarrow> string option" where
  "expansion k inp = (case dropWhile (\<lambda>c. c \<noteq> CHR ''$'') inp of [] \<Rightarrow> Some inp
     | _ # src \<Rightarrow>
        if length (takeWhile name_char src) < SYMBOL_MAXLENGTH then
          (case name_value k (takeWhile name_char src) of None \<Rightarrow> None
           | Some v \<Rightarrow> map_option (\<lambda>r. before_dollar inp @ v @ r) (expansion k (dropWhile name_char src)))
        else None)"
  by auto
termination expansion
  by (relation "measure (length \<circ> snd)") (auto dest: dropWhile_rest_less)

declare expansion.simps [simp del]

definition all_valid :: "kconf \<Rightarrow> bool" where
  "all_valid k \<longleftrightarrow> (\<forall>s. is_valid k s)"

lemma symval_settled:
  assumes "all_valid k"
  shows "symval (sym_calc_value (Suc n)) name k =
    (case name_value k name of None \<Rightarrow> Crash | Some v \<Rightarrow> Ok (v, k))"
proof -
  have v: "is_valid k s" for s using assms by (simp add: all_valid_def)
  note c = calc_value_valid_noop [OF v, of n] string_value_settled [OF v, of n]
  show ?thesis
    by (auto simp: symval_def name_value_def prog_defs string_of_def c
        split: option.splits)
qed

lemma length_split: "dropWhile P inp = c # src \<Longrightarrow> length inp = length (takeWhile P inp) + Suc (length src)"
  by (metis length_Cons length_append takeWhile_dropWhile_id)

lemma length_drop_le: "length src = length (takeWhile P src) + length (dropWhile P src)"
  by (metis length_append takeWhile_dropWhile_id)

lemma expand_loop_settled:
  assumes k: "all_valid k" and "length res + length inp < reslen"
  shows "expand_loop (sym_calc_value (Suc n)) inp res reslen k =
    (case expansion k inp of None \<Rightarrow> Crash | Some r \<Rightarrow> Ok (res @ r, k))"
  using assms(2)
proof (induction inp arbitrary: res reslen rule: measure_induct_rule [of length])
  case (less inp)
  let ?c = "sym_calc_value (Suc n)"
  show ?case
  proof (cases "dropWhile (\<lambda>c. c \<noteq> CHR ''$'') inp")
    case Nil
    then show ?thesis using less.prems
      by (simp add: expand_loop.simps [of ?c inp] expansion.simps [of k inp] prog_defs fits_def
          del: dropWhile_eq_Nil_conv)
  next
    case (Cons d src)
    let ?name = "takeWhile name_char src" and ?rest = "dropWhile name_char src"
    have len: "length inp = length (before_dollar inp) + Suc (length ?name + length ?rest)"
      using length_split [OF Cons] length_drop_le [of src name_char] by (simp add: before_dollar_def)
    have IH: "expand_loop ?c ?rest (res @ before_dollar inp @ v) m k =
        (case expansion k ?rest of None \<Rightarrow> Crash | Some r \<Rightarrow> Ok ((res @ before_dollar inp @ v) @ r, k))"
      if "length res + length (before_dollar inp) + length v + length ?rest < m" for v m
      using less.IH [of ?rest "res @ before_dollar inp @ v" m] that len by simp
    show ?thesis using less.prems
      by (simp add: expand_loop.simps [of ?c inp] expansion.simps [of k inp] Cons Let_def prog_defs
          symval_settled [OF k] fits_def len IH split: option.splits)
  qed
qed

section \<open>Properties\<close>

text \<open>
  C27. A string value written by \<^verbatim>\<open>sym_escape_string_value\<close> is read back unchanged by
  \<^verbatim>\<open>conf_set_sym_val\<close>, whatever follows the closing quote, and the written string with its
  terminator fills the allocated buffer exactly.
\<close>

theorem escape_set_roundtrip:
  assumes "stype y = S_STRING"
  shows "conf_set_sym_val d (snd (sym_escape_string_value str) @ t) y
       = Some (store_def d (\<lambda>v. v\<lparr>val := V_str str\<rparr>) y)
     \<and> fst (sym_escape_string_value str) = Suc (length (snd (sym_escape_string_value str)))"
  using assms escape_size
  by (simp add: conf_set_sym_val_def store_quoted_def store_string_def escape_value unquote_escaped sym_string_valid_def)

theorem escape_set_roundtrip_witness:
  "conf_set_sym_val S_DEF_USER (snd (sym_escape_string_value [CHR 0x22, CHR ''a'', CHR 0x5C]))
      (valued_symbol S_STRING No)
    = Some (store_def S_DEF_USER (\<lambda>v. v\<lparr>val := V_str [CHR 0x22, CHR ''a'', CHR 0x5C]\<rparr>) (valued_symbol S_STRING No))"
  using escape_set_roundtrip [of "valued_symbol S_STRING No" S_DEF_USER "[CHR 0x22, CHR ''a'', CHR 0x5C]" "[]"]
  by simp

text \<open>
  C26. In a calculated configuration \<^verbatim>\<open>sym_expand_string_value\<close> replaces each name by its
  value. The growing buffer always suffices: it fails only on a null value or on a name of
  \<^verbatim>\<open>SYMBOL_MAXLENGTH\<close> or more characters, which overruns the array \<^verbatim>\<open>name\<close>.
\<close>

theorem expand_string_exact:
  assumes "all_valid k"
  shows "sym_expand_string_value (sym_calc_value (Suc n)) inp k =
    (case expansion k inp of None \<Rightarrow> Crash | Some r \<Rightarrow> Ok (r, k))"
  using expand_loop_settled [OF assms, of "[]" inp "length inp + 1" n]
  by (simp add: sym_expand_string_value_def append_Nil split: option.splits)

theorem expand_string_exact_witness:
  "sym_expand_string_value (sym_calc_value 1) ''to $m/x'' (mk_kconf (\<lambda>_. symbol_empty))
     = Ok (''to m/x'', mk_kconf (\<lambda>_. symbol_empty))"
proof -
  let ?k = "mk_kconf (\<lambda>_. symbol_empty)"
  have "is_valid ?k s" for s
    by (cases s) (simp_all add: is_valid_def symbol_empty_def new_symbol_def)
  then have v: "all_valid ?k" by (simp add: all_valid_def)
  have "name_value ?k ''m'' = Some ''m''"
    by (simp add: name_value_def sym_find_def const_by_name_def sym_get_string_value_def)
  then have "expansion ?k ''to $m/x'' = Some ''to m/x''"
    by (simp add: expansion.simps name_char_def is_alnum_def is_digit_def is_upper_def is_lower_def ascii_def
        before_dollar_def SYMBOL_MAXLENGTH_def)
  with expand_string_exact [OF v, of 0 "''to $m/x''"] show ?thesis by simp
qed

end
