(* ===== verification/Kconfig_Conf.thy ===== *)
theory Kconfig_Conf
  imports Kconfig_Text
begin

text \<open>
  Reading and writing configuration files (\<^verbatim>\<open>support/kconfig/confdata.c\<close>): the lines of a
  file, what each line stores in the symbol table, the checks of \<^verbatim>\<open>conf_read\<close>, and the
  printers. The prefix \<^verbatim>\<open>CONFIG_\<close> and what opening a file gives are arguments. A line
  is the string up to its terminator.
\<close>

section \<open>Lines of a file\<close>

text \<open>The capacity of the line buffer after making room for the byte at \<open>slen\<close>.\<close>

definition LINE_GROWTH :: nat where
  "LINE_GROWTH = 16"

definition add_byte :: "nat \<Rightarrow> nat \<Rightarrow> nat" where
  "add_byte slen n = (if slen + 1 > n then (slen + 1 + (LINE_GROWTH - 1)) * 2 else n)"

text \<open>The line, the capacity of its buffer, and the rest of the stream; none at the end.\<close>

fun compat_getline :: "string \<Rightarrow> nat \<Rightarrow> string \<Rightarrow> (string \<times> nat \<times> string) option" where
  "compat_getline line n [] =
     (if line = [] then None else Some (line, add_byte (length line) n, []))"
| "compat_getline line n (c # s) =
     (let n1 = add_byte (length line) n in
      if c = CHR 0x0A then Some (line @ [c], add_byte (length line + 1) n1, s)
      else compat_getline (line @ [c]) n1 s)"

lemma getline_concat: "compat_getline line n s = Some (l, m, r) \<Longrightarrow> l @ r = line @ s"
  by (induction line n s rule: compat_getline.induct) (auto simp: Let_def split: if_splits)

lemma getline_nonempty: "compat_getline line n s = Some (l, m, r) \<Longrightarrow> l \<noteq> []"
  by (induction line n s rule: compat_getline.induct) (auto simp: Let_def split: if_splits)

lemma getline_less: "compat_getline [] n s = Some (l, m, r) \<Longrightarrow> length r < length s"
  using getline_concat [of "[]" n s l m r] getline_nonempty [of "[]" n s l m r] by auto

function read_lines :: "nat \<Rightarrow> string \<Rightarrow> (string \<times> nat) list" where
  "read_lines n s = (case compat_getline [] n s of None \<Rightarrow> []
     | Some (l, m, r) \<Rightarrow> (l, m) # read_lines m r)"
  by auto
termination read_lines
  by (relation "measure (length \<circ> snd)") (auto dest: getline_less)

declare read_lines.simps [simp del]

definition file_lines :: "string \<Rightarrow> string list" where
  "file_lines s = map fst (read_lines 0 s)"

section \<open>What a line stores\<close>

definition conf_warning :: "unit kprog" where
  "conf_warning = modify (\<lambda>k. k\<lparr>conf_warnings := conf_warnings k + 1\<rparr>)"

text \<open>A string cut at the first occurrence of a character, which is replaced by the terminator.\<close>

definition cut :: "char \<Rightarrow> string \<Rightarrow> (string \<times> string) option" where
  "cut c s = (case dropWhile (\<lambda>x. x \<noteq> c) s of [] \<Rightarrow> None | _ # r \<Rightarrow> Some (takeWhile (\<lambda>x. x \<noteq> c) s, r))"

text \<open>The value behind the equals sign, without the end of the line.\<close>

definition line_value :: "string \<Rightarrow> string" where
  "line_value p = (case cut (CHR 0x0A) p of None \<Rightarrow> p
     | Some (v, _) \<Rightarrow> if v \<noteq> [] \<and> last v = CHR 0x0D then butlast v else v)"

text \<open>Names of user values are only searched, those of generated files are entered.\<close>

definition line_sym :: "def_index \<Rightarrow> symbol_type \<Rightarrow> string \<Rightarrow> sym option kprog" where
  "line_sym d ty name = (case d of
       S_DEF_USER \<Rightarrow>
         bnd (gets (sym_find (Some name))) (\<lambda>sy. case sy of
             None \<Rightarrow> thn (sym_add_change_count 1) (ret None)
           | Some s \<Rightarrow> ret (Some s))
     | S_DEF_AUTO \<Rightarrow>
         bnd (\<lambda>k. Ok (sym_lookup (Some name) {} k)) (\<lambda>s.
         thn (upd s (\<lambda>y. if stype y = S_UNKNOWN then y\<lparr>stype := ty\<rparr> else y)) (ret (Some s))))"

definition warn_reassign :: "def_index \<Rightarrow> sym \<Rightarrow> unit kprog" where
  "warn_reassign d s = bnd (at s (\<lambda>y. def_flag d \<in> flags y)) (\<lambda>b. unless (\<not> b) conf_warning)"

definition read_unset :: "def_index \<Rightarrow> string \<Rightarrow> sym option kprog" where
  "read_unset d name =
     bnd (line_sym d S_BOOLEAN name) (\<lambda>sy. case sy of None \<Rightarrow> ret None
       | Some s \<Rightarrow>
          thn (warn_reassign d s)
          (thn (upd s (\<lambda>y. if stype y \<in> {S_BOOLEAN, S_TRISTATE} then store_def d (\<lambda>v. v\<lparr>tri := No\<rparr>) y else y))
            (ret (Some s))))"

text \<open>A refused value is reported for the user's file only, and the line has no further effect.\<close>

definition read_value :: "def_index \<Rightarrow> string \<Rightarrow> string \<Rightarrow> sym option kprog" where
  "read_value d name p =
     bnd (line_sym d S_OTHER name) (\<lambda>sy. case sy of None \<Rightarrow> ret None
       | Some s \<Rightarrow>
          thn (warn_reassign d s)
          (bnd (at s (conf_set_sym_val d p)) (\<lambda>r. case r of
              None \<Rightarrow> thn (unless (d = S_DEF_AUTO) conf_warning) (ret None)
            | Some y \<Rightarrow> thn (upd s (\<lambda>_. y)) (ret (Some s)))))"

definition upd_def :: "def_index \<Rightarrow> (symbol_value \<Rightarrow> symbol_value) \<Rightarrow> sym \<Rightarrow> unit kprog" where
  "upd_def d f s = upd s (\<lambda>y. put_def d (f (get_def d y)) y)"

text \<open>The value of a member of a choice also goes to the choice.\<close>

definition set_choice :: "def_index \<Rightarrow> sym \<Rightarrow> unit kprog" where
  "set_choice d s =
     bnd (at s sym_is_choice_value) (\<lambda>cv. unless (\<not> cv)
       (bnd (choice_of s) (\<lambda>c. bnd (deref c) (\<lambda>cs.
        bnd (at s (\<lambda>y. tri (get_def d y))) (\<lambda>t.
        bnd (at cs (\<lambda>y. tri (get_def d y))) (\<lambda>ct.
        thn (case t of
               No \<Rightarrow> ret ()
             | Mod \<Rightarrow> unless (ct \<noteq> Yes) (thn conf_warning (clear_flags cs {def_flag d}))
             | Yes \<Rightarrow> thn (unless (ct = No) conf_warning) (upd_def d (\<lambda>v. v\<lparr>val := V_sym s\<rparr>) cs))
          (upd_def d (\<lambda>v. v\<lparr>tri := EXPR_OR (tri v) t\<rparr>) cs)))))))"

definition setsym :: "def_index \<Rightarrow> sym option \<Rightarrow> unit kprog" where
  "setsym d sy = (case sy of None \<Rightarrow> ret () | Some s \<Rightarrow> set_choice d s)"

definition conf_line :: "string \<Rightarrow> def_index \<Rightarrow> string \<Rightarrow> unit kprog" where
  "conf_line pre d line =
     (if take 1 line = ''#'' then
        (if take (length pre) (drop 2 line) \<noteq> pre then ret ()
         else (case cut (CHR '' '') (drop (2 + length pre) line) of None \<Rightarrow> ret ()
           | Some (name, p) \<Rightarrow>
              if take 10 p \<noteq> ''is not set'' then ret () else bnd (read_unset d name) (setsym d)))
      else if take (length pre) line = pre then
        (case cut (CHR ''='') (drop (length pre) line) of None \<Rightarrow> ret ()
         | Some (name, p) \<Rightarrow> bnd (read_value d name (line_value p)) (setsym d))
      else unless (take 1 line = [CHR 0x0D] \<or> take 1 line = [CHR 0x0A]) conf_warning)"

section \<open>Reading a file\<close>

definition reset_def :: "def_index \<Rightarrow> symbol \<Rightarrow> symbol" where
  "reset_def d y =
     (let F = (flags y \<union> {SYMBOL_CHANGED}) - {def_flag d, SYMBOL_VALID} in
      put_def d no_value (y\<lparr>flags := (if sym_is_choice y then insert (def_flag d) F else F)\<rparr>))"

definition conf_load :: "string \<Rightarrow> calc \<Rightarrow> def_index \<Rightarrow> string \<Rightarrow> unit kprog" where
  "conf_load pre calc d content =
     thn (modify (\<lambda>k. k\<lparr>conf_warnings := 0, conf_unsaved := 0\<rparr>))
     (thn (upd_all (reset_def d))
     (thn (for_each (file_lines content) (conf_line pre d))
       (bnd (gets modules_sym) calc)))"

text \<open>The files named by the defaults of \<^verbatim>\<open>option defconfig_list\<close>, in their order.\<close>

primrec open_default :: "(string \<Rightarrow> string option) \<Rightarrow> calc \<Rightarrow> property list \<Rightarrow> string option kprog" where
  "open_default fopen calc [] = ret None"
| "open_default fopen calc (p # ps) =
     bnd (eval_null calc (vexpr (pvisible p))) (\<lambda>v.
       if v = No then open_default fopen calc ps
       else bnd (deref (pexpr p)) (\<lambda>e. case e of
           Symbol s \<Rightarrow>
             bnd (at s sname) (\<lambda>nm. bnd (deref nm) (\<lambda>n. bnd (conf_expand_value calc n) (\<lambda>f.
               case fopen f of Some content \<Rightarrow> ret (Some content) | None \<Rightarrow> open_default fopen calc ps)))
         | _ \<Rightarrow> open_default fopen calc ps))"

text \<open>The result is whether reading failed; \<open>confname\<close> is \<^verbatim>\<open>conf_get_configname()\<close>.\<close>

definition conf_read_simple ::
    "string \<Rightarrow> (string \<Rightarrow> string option) \<Rightarrow> calc \<Rightarrow> string \<Rightarrow> sym option \<Rightarrow> string option \<Rightarrow> def_index \<Rightarrow> bool kprog" where
  "conf_read_simple pre fopen calc confname sym_defconfig_list name d =
     (case name of
        Some nm \<Rightarrow> (case fopen nm of None \<Rightarrow> ret True
          | Some content \<Rightarrow> thn (conf_load pre calc d content) (ret False))
      | None \<Rightarrow> (case fopen confname of
            Some content \<Rightarrow> thn (conf_load pre calc d content) (ret False)
          | None \<Rightarrow>
             thn (sym_add_change_count 1)
             (case sym_defconfig_list of
                None \<Rightarrow> thn (bnd (gets modules_sym) calc) (ret True)
              | Some s \<Rightarrow>
                 bnd (at s (\<lambda>y. filter (\<lambda>p. ptype p = P_DEFAULT) (props y))) (\<lambda>ps.
                 bnd (open_default fopen calc ps) (\<lambda>r. case r of None \<Rightarrow> ret True
                   | Some content \<Rightarrow> thn (conf_load pre calc d content) (ret False))))))"

definition sym_set_change_count :: "int \<Rightarrow> unit kprog" where
  "sym_set_change_count c = modify (\<lambda>k. k\<lparr>sym_change_count := c\<rparr>)"

definition conf_get_changed :: "kconf \<Rightarrow> bool" where
  "conf_get_changed k \<longleftrightarrow> sym_change_count k \<noteq> 0"

definition all_syms :: "kconf \<Rightarrow> sym list" where
  "all_syms k = concat (map (symbol_hash k) [0..<SYMBOL_HASHSIZE])"

definition for_all_symbols :: "(sym \<Rightarrow> unit kprog) \<Rightarrow> unit kprog" where
  "for_all_symbols body =
     bnd (gets all_syms) (\<lambda>ss. for_each ss (\<lambda>s.
       bnd (at s stype) (\<lambda>ty. unless (ty = S_OTHER) (body s))))"

definition add_unsaved :: "unit kprog" where
  "add_unsaved = modify (\<lambda>k. k\<lparr>conf_unsaved := conf_unsaved k + 1\<rparr>)"

text \<open>A calculated value that differs from the stored one, or only one of the two, is unsaved.\<close>

definition value_agrees :: "sym \<Rightarrow> bool kprog" where
  "value_agrees s =
     bnd (gets (\<lambda>k. symtab k s)) (\<lambda>y.
       if stype y \<in> {S_BOOLEAN, S_TRISTATE} then
         (if tri (def_user y) \<noteq> tri (curr y) then ret False
          else if \<not> sym_is_choice y then ret True
          else strcmp_eq (val (curr y)) (val (def_user y)))
       else strcmp_eq (val (curr y)) (val (def_user y)))"

definition check_saved :: "calc \<Rightarrow> sym \<Rightarrow> unit kprog" where
  "check_saved calc s =
     thn (calc s)
     (bnd (gets (\<lambda>k. symtab k s)) (\<lambda>y.
       if sym_is_choice y \<or> SYMBOL_AUTO \<in> flags y then ret ()
       else if sym_has_value y \<and> SYMBOL_WRITE \<in> flags y then
         bnd (value_agrees s) (\<lambda>b. unless b add_unsaved)
       else unless (\<not> sym_has_value y \<and> SYMBOL_WRITE \<notin> flags y) add_unsaved))"

definition user_in_range :: "calc \<Rightarrow> sym \<Rightarrow> bool kprog" where
  "user_in_range calc s =
     bnd (gets (\<lambda>k. symtab k s)) (\<lambda>y.
       if stype y = S_STRING then ret True
       else bnd (string_of (val (def_user y))) (sym_string_within_range calc s))"

definition check_user :: "calc \<Rightarrow> sym \<Rightarrow> unit kprog" where
  "check_user calc s =
     bnd (gets (\<lambda>k. (symtab k s, conf_unsaved k))) (\<lambda>(y, unsaved).
       unless (\<not> sym_has_value y \<or> sym_is_choice_value y)
         (thn (unless (\<not> (visible y = No \<and> unsaved = 0)) (clear_flags s {SYMBOL_DEF_USER}))
         (unless (stype y \<notin> {S_STRING, S_INT, S_HEX})
           (bnd (user_in_range calc s) (\<lambda>ok. unless ok
             (thn (clear_flags s {SYMBOL_VALID, SYMBOL_DEF_USER}) add_unsaved))))))"

definition conf_read ::
    "string \<Rightarrow> (string \<Rightarrow> string option) \<Rightarrow> calc \<Rightarrow> string \<Rightarrow> sym option \<Rightarrow> string option \<Rightarrow> bool kprog" where
  "conf_read pre fopen calc confname dl name =
     thn (sym_set_change_count 0)
     (bnd (conf_read_simple pre fopen calc confname dl name S_DEF_USER) (\<lambda>failed.
       if failed then ret True
       else
         thn (for_all_symbols (check_saved calc))
         (thn (for_all_symbols (check_user calc))
         (bnd (gets (\<lambda>k. conf_warnings k \<noteq> 0 \<or> conf_unsaved k \<noteq> 0)) (\<lambda>b.
          thn (sym_add_change_count (if b then 1 else 0)) (ret False))))))"

section \<open>Printing symbols\<close>

text \<open>A printer gives the text for a symbol with a value; a null name is a crash.\<close>

type_synonym printer = "symbol \<Rightarrow> string \<Rightarrow> string option"

definition newline :: string where
  "newline = [CHR 0x0A]"

definition kconfig_print_symbol :: "string \<Rightarrow> bool \<Rightarrow> printer" where
  "kconfig_print_symbol pre skip_unset y value =
     (if stype y \<in> {S_BOOLEAN, S_TRISTATE} \<and> take 1 value = ''n'' then
        (if skip_unset then Some []
         else map_option (\<lambda>nm. ''# '' @ pre @ nm @ '' is not set'' @ newline) (sname y))
      else map_option (\<lambda>nm. pre @ nm @ ''='' @ value @ newline) (sname y))"

definition header_print_symbol :: "string \<Rightarrow> printer" where
  "header_print_symbol pre y value =
     (if stype y \<in> {S_BOOLEAN, S_TRISTATE} then
        (if take 1 value = ''n'' then Some []
         else map_option (\<lambda>nm. ''#define '' @ pre @ nm
           @ (if take 1 value = ''m'' then ''_MODULE'' else []) @ '' 1'' @ newline) (sname y))
      else if stype y = S_HEX then
        map_option (\<lambda>nm. ''#define '' @ pre @ nm @ '' '' @ (if has_0x value then [] else ''0x'') @ value @ newline) (sname y)
      else if stype y \<in> {S_STRING, S_INT} then
        map_option (\<lambda>nm. ''#define '' @ pre @ nm @ '' '' @ value @ newline) (sname y)
      else Some [])"

definition toupper :: "char \<Rightarrow> char" where
  "toupper c = (if is_lower c then char_of (ascii c - 32) else c)"

definition tristate_print_symbol :: "string \<Rightarrow> printer" where
  "tristate_print_symbol pre y value =
     (if stype y = S_TRISTATE \<and> take 1 value \<noteq> ''n'' then
        map_option (\<lambda>nm. pre @ nm @ ''='' @ map toupper (take 1 value) @ newline) (sname y)
      else Some [])"

text \<open>The comment printers: one line per line of the text, also for an empty one.\<close>

function comment_lines :: "string \<Rightarrow> string \<Rightarrow> string" where
  "comment_lines lead p =
     lead @ (case takeWhile (\<lambda>c. c \<noteq> CHR 0x0A) p of [] \<Rightarrow> [] | l \<Rightarrow> '' '' @ l) @ newline
       @ (case dropWhile (\<lambda>c. c \<noteq> CHR 0x0A) p of [] \<Rightarrow> [] | _ # q \<Rightarrow> comment_lines lead q)"
  by auto
termination comment_lines
  by (relation "measure (length \<circ> snd)") (auto dest: dropWhile_Cons_less)

declare comment_lines.simps [simp del]

definition kconfig_print_comment :: "string \<Rightarrow> string" where
  "kconfig_print_comment value = comment_lines ''#'' value"

definition header_print_comment :: "string \<Rightarrow> string" where
  "header_print_comment value = ''/*'' @ newline @ comment_lines '' *'' value @ '' */'' @ newline"

definition conf_write_symbol :: "calc \<Rightarrow> printer \<Rightarrow> sym \<Rightarrow> string kprog" where
  "conf_write_symbol calc print_symbol s =
     bnd (at s stype) (\<lambda>ty.
       if ty = S_OTHER \<or> ty = S_UNKNOWN then ret []
       else bnd (sym_get_string_value_st calc s) (\<lambda>sv. bnd (string_of sv) (\<lambda>str.
         bnd (gets (\<lambda>k. symtab k s)) (\<lambda>y.
           deref (print_symbol y (if ty = S_STRING then snd (sym_escape_string_value str) else str))))))"

text \<open>The heading is built in a buffer of 256 bytes and cut to it.\<close>

definition conf_write_heading :: "(string \<Rightarrow> string) \<Rightarrow> string \<Rightarrow> string" where
  "conf_write_heading print_comment prompt =
     print_comment (take 255 (newline @ ''Automatically generated file; DO NOT EDIT.'' @ newline @ prompt @ newline))"

section \<open>The lines of a written file\<close>

lemma add_byte_fits: "slen < add_byte slen n"
  by (simp add: add_byte_def LINE_GROWTH_def)

lemma getline_fits: "compat_getline line n s = Some (l, m, r) \<Longrightarrow> length l < m"
  by (induction line n s rule: compat_getline.induct) (auto simp: Let_def add_byte_fits split: if_splits)

lemma getline_total: "s \<noteq> [] \<or> line \<noteq> [] \<Longrightarrow> compat_getline line n s \<noteq> None"
  by (induction line n s rule: compat_getline.induct) (auto simp: Let_def)

lemma getline_line:
  "CHR 0x0A \<notin> set w \<Longrightarrow> \<exists>m. compat_getline acc n (w @ CHR 0x0A # r) = Some (acc @ w @ [CHR 0x0A], m, r)"
proof (induction w arbitrary: acc n)
  case (Cons a w)
  then show ?case using Cons.IH [of "acc @ [a]" "add_byte (length acc) n"] by (auto simp: Let_def)
qed (simp add: Let_def)

definition is_line :: "string \<Rightarrow> bool" where
  "is_line l \<longleftrightarrow> (\<exists>w. l = w @ newline \<and> CHR 0x0A \<notin> set w)"

lemma read_lines_concat: "list_all is_line ls \<Longrightarrow> map fst (read_lines n (concat ls)) = ls"
proof (induction ls arbitrary: n)
  case Nil
  show ?case by (simp add: read_lines.simps [of n "[]"])
next
  case (Cons l ls)
  then obtain w where w: "l = w @ newline" "CHR 0x0A \<notin> set w" by (auto simp: is_line_def)
  obtain m where "compat_getline [] n (w @ CHR 0x0A # concat ls) = Some (w @ [CHR 0x0A], m, concat ls)"
    using getline_line [OF w(2), of "[]" n "concat ls"] by auto
  then show ?case
    using Cons by (simp add: read_lines.simps [of n "w @ CHR 0x0A # concat ls"] w newline_def)
qed

lemma file_lines_concat: "list_all is_line ls \<Longrightarrow> file_lines (concat ls) = ls"
  by (simp add: file_lines_def read_lines_concat)

lemma cut_append [simp]: "c \<notin> set a \<Longrightarrow> cut c (a @ c # b) = Some (a, b)"
proof -
  assume "c \<notin> set a"
  then have "dropWhile (\<lambda>x. x \<noteq> c) (a @ c # b) = c # b" "takeWhile (\<lambda>x. x \<noteq> c) (a @ c # b) = a"
    by (induction a) auto
  then show ?thesis by (simp add: cut_def)
qed

lemma line_value_line: "CHR 0x0A \<notin> set v \<Longrightarrow> CHR 0x0D \<noteq> last v \<Longrightarrow> line_value (v @ newline) = v"
  by (simp add: line_value_def newline_def)

section \<open>Reading changes only stored values\<close>

definition same_shape :: "kconf \<Rightarrow> kconf \<Rightarrow> bool" where
  "same_shape k l \<longleftrightarrow> symbol_hash l = symbol_hash k
     \<and> (\<forall>s. sname (symtab l s) = sname (symtab k s) \<and> stype (symtab l s) = stype (symtab k s)
          \<and> props (symtab l s) = props (symtab k s)
          \<and> flags (symtab l s) - {SYMBOL_DEF_USER} = flags (symtab k s) - {SYMBOL_DEF_USER})"

lemma same_shape_refl: "same_shape k k"
  by (simp add: same_shape_def)

lemma same_shape_trans: "same_shape k l \<Longrightarrow> same_shape l m \<Longrightarrow> same_shape k m"
  by (simp add: same_shape_def)

lemma same_shape_flag: "same_shape k l \<Longrightarrow> f \<noteq> SYMBOL_DEF_USER \<Longrightarrow> f \<in> flags (symtab l s) \<longleftrightarrow> f \<in> flags (symtab k s)"
  unfolding same_shape_def by blast

lemma same_shape_find: "same_shape k l \<Longrightarrow> sym_find nm l = sym_find nm k"
  using same_shape_flag [of k l SYMBOL_CONST]
  by (auto simp: sym_find_def same_shape_def split: option.splits intro!: find_cong)

lemma store_user [simp]:
  "store_def S_DEF_USER f y = y\<lparr>flags := insert SYMBOL_DEF_USER (flags y), def_user := f (def_user y)\<rparr>"
  by (simp add: store_def_def)

lemma warn_reassign_ok: "\<exists>w. warn_reassign d s k = Ok ((), k\<lparr>conf_warnings := w\<rparr>)"
  by (auto simp: warn_reassign_def conf_warning_def prog_defs at_def unless_def intro: exI [of _ "conf_warnings k"])

lemma read_unset_ok:
  assumes "sym_find (Some nm) l = Some s" and "stype (symtab l s) \<in> {S_BOOLEAN, S_TRISTATE}"
  obtains w where "read_unset S_DEF_USER nm l =
    Ok (Some s, put_sym s (store_def S_DEF_USER (\<lambda>v. v\<lparr>tri := No\<rparr>)) (l\<lparr>conf_warnings := w\<rparr>))"
proof -
  obtain w where "warn_reassign S_DEF_USER s l = Ok ((), l\<lparr>conf_warnings := w\<rparr>)"
    using warn_reassign_ok [of S_DEF_USER s l] by blast
  with assms that show ?thesis
    by (auto simp: read_unset_def line_sym_def prog_defs upd_def put_sym_def)
qed

lemma read_value_ok:
  assumes "sym_find (Some nm) l = Some s" and "conf_set_sym_val S_DEF_USER v (symtab l s) = Some y"
  obtains w where "read_value S_DEF_USER nm v l = Ok (Some s, put_sym s (\<lambda>_. y) (l\<lparr>conf_warnings := w\<rparr>))"
proof -
  obtain w where "warn_reassign S_DEF_USER s l = Ok ((), l\<lparr>conf_warnings := w\<rparr>)"
    using warn_reassign_ok [of S_DEF_USER s l] by blast
  with assms that show ?thesis
    by (auto simp: read_value_def line_sym_def prog_defs upd_def put_sym_def at_def)
qed

text \<open>The choice of a member, and that the user values of choices alone change.\<close>

definition in_choice :: "kconf \<Rightarrow> sym \<Rightarrow> bool" where
  "in_choice k s \<longleftrightarrow> (\<exists>p c. sym_get_choice_prop (symtab k s) = Some p \<and> prop_get_symbol p = Some c
      \<and> sym_is_choice (symtab k c))"

definition choices_only :: "kconf \<Rightarrow> kconf \<Rightarrow> bool" where
  "choices_only k l \<longleftrightarrow> same_shape k l \<and> (\<forall>t. \<not> sym_is_choice (symtab k t) \<longrightarrow> symtab l t = symtab k t)"

lemma choices_only_put:
  assumes "sym_is_choice (symtab l c)" and "\<And>y. sname (f y) = sname y \<and> stype (f y) = stype y
      \<and> props (f y) = props y \<and> flags (f y) - {SYMBOL_DEF_USER} = flags y - {SYMBOL_DEF_USER}"
  shows "choices_only l ((put_sym c f l)\<lparr>conf_warnings := w\<rparr>)"
  using assms by (auto simp: choices_only_def same_shape_def put_sym_def)

lemma set_choice_ok:
  assumes "sym_is_choice_value (symtab l s) \<Longrightarrow> in_choice l s"
  shows "\<exists>l'. set_choice S_DEF_USER s l = Ok ((), l') \<and> choices_only l l'"
proof (cases "sym_is_choice_value (symtab l s)")
  case False
  then show ?thesis
    by (auto simp: set_choice_def prog_defs at_def unless_def choices_only_def same_shape_refl)
next
  case True
  then obtain p c where c: "sym_get_choice_prop (symtab l s) = Some p" "prop_get_symbol p = Some c"
    "sym_is_choice (symtab l c)" using assms by (auto simp: in_choice_def)
  let ?t = "tri (def_user (symtab l s))" and ?ct = "tri (def_user (symtab l c))"
  let ?g = "\<lambda>y. if ?t = Mod \<and> ?ct = Yes then y\<lparr>flags := flags y - {SYMBOL_DEF_USER}\<rparr>
              else if ?t = Yes then y\<lparr>def_user := (def_user y)\<lparr>val := V_sym s\<rparr>\<rparr> else y"
  let ?f = "\<lambda>y. (?g y)\<lparr>def_user := (def_user (?g y))\<lparr>tri := EXPR_OR (tri (def_user (?g y))) ?t\<rparr>\<rparr>"
  let ?w = "if ?t = Mod \<and> ?ct = Yes \<or> ?t = Yes \<and> ?ct \<noteq> No then conf_warnings l + 1 else conf_warnings l"
  have "set_choice S_DEF_USER s l = Ok ((), (put_sym c ?f l)\<lparr>conf_warnings := ?w\<rparr>)"
    using True c
    by (cases ?t; cases ?ct)
       (simp_all add: set_choice_def prog_defs at_def unless_def choice_of_def upd_def_def upd_def clear_flags_def
          conf_warning_def put_sym_def)
  moreover have "choices_only l ((put_sym c ?f l)\<lparr>conf_warnings := ?w\<rparr>)"
    by (rule choices_only_put [OF c(3)]) auto
  ultimately show ?thesis by blast
qed

section \<open>A written line is read back\<close>

definition name_ok :: "string \<Rightarrow> string \<Rightarrow> bool" where
  "name_ok pre nm \<longleftrightarrow> CHR '' '' \<notin> set nm \<and> CHR ''='' \<notin> set nm \<and> CHR 0x0A \<notin> set nm
     \<and> CHR 0x0A \<notin> set pre \<and> take 1 (pre @ nm) \<noteq> ''#''"

definition value_ok :: "kconf \<Rightarrow> sym \<Rightarrow> bool" where
  "value_ok k s = (let c = curr (symtab k s) in case stype (symtab k s) of
       S_BOOLEAN \<Rightarrow> tri c \<noteq> Mod
     | S_TRISTATE \<Rightarrow> tri c = Mod \<longrightarrow> tri (curr (symtab k (modules_sym k))) \<noteq> No
     | S_INT \<Rightarrow> (case val c of V_str v \<Rightarrow> sym_string_valid S_INT v | _ \<Rightarrow> False)
     | S_HEX \<Rightarrow> (case val c of V_str v \<Rightarrow> sym_string_valid S_HEX v | _ \<Rightarrow> False)
     | S_STRING \<Rightarrow> (case val c of V_str v \<Rightarrow> CHR 0x0A \<notin> set v | _ \<Rightarrow> False)
     | _ \<Rightarrow> False)"

text \<open>
  The symbols \<^verbatim>\<open>conf_write\<close> writes, with values that make sense for their types: named,
  found under their name, not a choice, and if a member of a choice then of a known one.
\<close>

definition writable :: "string \<Rightarrow> kconf \<Rightarrow> sym \<Rightarrow> bool" where
  "writable pre k s \<longleftrightarrow> (case sname (symtab k s) of None \<Rightarrow> False
       | Some nm \<Rightarrow> name_ok pre nm \<and> sym_find (Some nm) k = Some s)
     \<and> \<not> sym_is_choice (symtab k s) \<and> (sym_is_choice_value (symtab k s) \<longrightarrow> in_choice k s) \<and> value_ok k s"

text \<open>The stored user value of \<open>s\<close> in \<open>l\<close> is the calculated one in \<open>k\<close>.\<close>

definition saved :: "kconf \<Rightarrow> kconf \<Rightarrow> sym \<Rightarrow> bool" where
  "saved k l s \<longleftrightarrow> sym_has_value (symtab l s)
     \<and> (if stype (symtab k s) \<in> {S_BOOLEAN, S_TRISTATE} then tri (def_user (symtab l s)) = tri (curr (symtab k s))
        else val (def_user (symtab l s)) = val (curr (symtab k s)))"

definition shown :: "kconf \<Rightarrow> sym \<Rightarrow> string" where
  "shown k s = (case sym_get_string_value k s of
       V_str v \<Rightarrow> if stype (symtab k s) = S_STRING then snd (sym_escape_string_value v) else v
     | _ \<Rightarrow> [])"

definition shown_line :: "string \<Rightarrow> kconf \<Rightarrow> sym \<Rightarrow> string" where
  "shown_line pre k s = (case kconfig_print_symbol pre False (symtab k s) (shown k s) of
       Some l \<Rightarrow> l | None \<Rightarrow> [])"

lemma digits_plain: "list_all is_digit v \<Longrightarrow> CHR 0x0A \<notin> set v \<and> CHR 0x0D \<notin> set v"
  by (induction v) (auto simp: is_digit_def ascii_def)

lemma xdigits_plain: "list_all is_xdigit v \<Longrightarrow> CHR 0x0A \<notin> set v \<and> CHR 0x0D \<notin> set v"
  by (induction v) (auto simp: is_xdigit_def digit_val_def is_digit_def ascii_def split: if_splits)

lemma valid_digitsD: "valid_digits v \<Longrightarrow> list_all is_digit v \<and> v \<noteq> []"
  by (auto simp: valid_digits_def split: list.splits)

lemma valid_hexD:
  assumes "valid_hex v"
  obtains p ds where "v = p @ ds" and "list_all is_xdigit ds" and "ds \<noteq> []" and "p = [] \<or> p = ''0x'' \<or> p = ''0X''"
proof -
  consider (pre) x ds where "v = CHR ''0'' # x # ds" "x = CHR ''x'' \<or> x = CHR ''X''"
    | (bare) "list_all is_xdigit v" "v \<noteq> []"
    using assms by (auto simp: valid_hex_def Let_def split: list.splits if_splits)
  then show ?thesis
  proof cases
    case pre
    then show ?thesis using assms that [of "[CHR ''0'', x]" ds] by (auto simp: valid_hex_def)
  next
    case bare
    then show ?thesis using that [of "[]" v] by simp
  qed
qed

lemma number_plain:
  assumes "sym_string_valid ty v" and "ty = S_INT \<or> ty = S_HEX"
  shows "CHR 0x0A \<notin> set v" and "CHR 0x0D \<notin> set v" and "v \<noteq> []"
proof -
  have "CHR 0x0A \<notin> set v \<and> CHR 0x0D \<notin> set v \<and> v \<noteq> []"
  proof (cases "ty = S_INT")
    case True
    then have "valid_digits v \<or> (\<exists>ds. v = CHR ''-'' # ds \<and> valid_digits ds)"
      using assms(1) by (cases v) (auto simp: sym_string_valid_def split: if_splits)
    then show ?thesis using digits_plain valid_digitsD by fastforce
  next
    case False
    then have "valid_hex v" using assms by (simp add: sym_string_valid_def)
    then obtain p ds where "v = p @ ds" "list_all is_xdigit ds" "ds \<noteq> []" "p = [] \<or> p = ''0x'' \<or> p = ''0X''"
      by (rule valid_hexD)
    then show ?thesis using xdigits_plain [of ds] by auto
  qed
  then show "CHR 0x0A \<notin> set v" and "CHR 0x0D \<notin> set v" and "v \<noteq> []" by auto
qed

lemma number_last: "sym_string_valid ty v \<Longrightarrow> ty = S_INT \<or> ty = S_HEX \<Longrightarrow> last v \<noteq> CHR 0x0D"
  using number_plain last_in_set by metis

lemma escaped_newline: "CHR 0x0A \<in> set (escaped v) \<Longrightarrow> CHR 0x0A \<in> set v"
  by (induction v) (auto split: if_splits)

lemma shown_plain:
  assumes "value_ok k s"
  shows "CHR 0x0A \<notin> set (shown k s)" and "last (shown k s) \<noteq> CHR 0x0D" and "shown k s \<noteq> []"
proof -
  have "CHR 0x0A \<notin> set (shown k s) \<and> last (shown k s) \<noteq> CHR 0x0D \<and> shown k s \<noteq> []"
    using assms
    by (auto simp: value_ok_def shown_def sym_get_string_value_def Let_def escape_value
        dest: number_plain number_last escaped_newline split: symbol_type.splits sval.splits tristate.splits if_splits)
  then show "CHR 0x0A \<notin> set (shown k s)" and "last (shown k s) \<noteq> CHR 0x0D" and "shown k s \<noteq> []" by auto
qed

lemma shown_line_text:
  assumes "writable pre k s" and "sname (symtab k s) = Some nm"
  shows "shown_line pre k s =
    (if stype (symtab k s) \<in> {S_BOOLEAN, S_TRISTATE} \<and> take 1 (shown k s) = ''n''
     then ''# '' @ pre @ nm @ '' is not set'' @ newline
     else pre @ nm @ ''='' @ shown k s @ newline)"
  using assms by (simp add: shown_line_def kconfig_print_symbol_def)

lemma is_line_I: "CHR 0x0A \<notin> set w \<Longrightarrow> l = w @ newline \<Longrightarrow> is_line l"
  by (auto simp: is_line_def)

lemma shown_is_line: "writable pre k s \<Longrightarrow> is_line (shown_line pre k s)"
proof -
  assume w: "writable pre k s"
  then obtain nm where nm: "sname (symtab k s) = Some nm" "name_ok pre nm"
    by (auto simp: writable_def split: option.splits)
  have "CHR 0x0A \<notin> set (shown k s)" using w shown_plain(1) by (simp add: writable_def)
  then have "CHR 0x0A \<notin> set (''# '' @ pre @ nm @ '' is not set'')"
    "CHR 0x0A \<notin> set (pre @ nm @ ''='' @ shown k s)" using nm(2) by (auto simp: name_ok_def)
  note this [THEN is_line_I, OF refl]
  then show ?thesis unfolding shown_line_text [OF w nm(1)] by simp
qed

text \<open>Reading the value of a symbol stores it.\<close>

lemma shown_is_unset:
  assumes "value_ok k s" and "stype (symtab k s) \<in> {S_BOOLEAN, S_TRISTATE}" and "take 1 (shown k s) = ''n''"
  shows "tri (curr (symtab k s)) = No"
  using assms
  by (auto simp: value_ok_def shown_def sym_get_string_value_def sym_get_tristate_value_def Let_def
      split: tristate.splits if_splits)

lemma shown_is_set:
  assumes "value_ok k s" and "\<not> (stype (symtab k s) \<in> {S_BOOLEAN, S_TRISTATE} \<and> take 1 (shown k s) = ''n'')"
    and "stype y = stype (symtab k s)"
  shows "\<exists>f. conf_set_sym_val S_DEF_USER (shown k s) y = Some (store_def S_DEF_USER f y)
    \<and> (if stype (symtab k s) \<in> {S_BOOLEAN, S_TRISTATE} then tri (f (def_user y)) = tri (curr (symtab k s))
       else val (f (def_user y)) = val (curr (symtab k s)))"
  using assms
  by (auto simp: value_ok_def shown_def sym_get_string_value_def sym_get_tristate_value_def Let_def conf_set_sym_val_def
      store_tristate_def store_quoted_def store_string_def escape_value unquote_escaped sym_string_valid_def
      simp del: store_user split: symbol_type.splits tristate.splits sval.splits if_splits
      intro: exI [of _ "\<lambda>v. v\<lparr>tri := Yes\<rparr>"] exI [of _ "\<lambda>v. v\<lparr>tri := Mod\<rparr>"])

lemma same_shape_store: "same_shape l (put_sym s (store_def S_DEF_USER f) (l\<lparr>conf_warnings := w\<rparr>))"
  by (auto simp: same_shape_def put_sym_def)

lemma same_shape_choice: "same_shape k l \<Longrightarrow> in_choice l s = in_choice k s"
  "same_shape k l \<Longrightarrow> sym_is_choice (symtab l s) = sym_is_choice (symtab k s)"
  "same_shape k l \<Longrightarrow> sym_is_choice_value (symtab l s) = sym_is_choice_value (symtab k s)"
  using same_shape_flag [of k l SYMBOL_CHOICE] same_shape_flag [of k l SYMBOL_CHOICEVAL]
  by (auto simp: in_choice_def sym_is_choice_def sym_is_choice_value_def sym_get_choice_prop_def same_shape_def)

lemma conf_line_unset:
  "name_ok pre nm \<Longrightarrow> conf_line pre d (''# '' @ pre @ nm @ '' is not set'' @ newline) = bnd (read_unset d nm) (setsym d)"
  by (simp add: conf_line_def name_ok_def)

lemma conf_line_set:
  "name_ok pre nm \<Longrightarrow> CHR 0x0A \<notin> set v \<Longrightarrow> last v \<noteq> CHR 0x0D \<Longrightarrow>
     conf_line pre d (pre @ nm @ ''='' @ v @ newline) = bnd (read_value d nm v) (setsym d)"
proof -
  assume nm: "name_ok pre nm" and v: "CHR 0x0A \<notin> set v" "last v \<noteq> CHR 0x0D"
  have "take 1 (pre @ nm @ ''='' @ v @ newline) \<noteq> ''#''"
    using nm by (cases pre; cases nm) (auto simp: name_ok_def)
  with nm line_value_line [OF v(1)] v(2) show ?thesis by (simp add: conf_line_def name_ok_def)
qed

lemma shown_line_stores:
  assumes w: "writable pre k s" and sh: "same_shape k l"
  obtains f c where "conf_line pre S_DEF_USER (shown_line pre k s) l
      = set_choice S_DEF_USER s (put_sym s (store_def S_DEF_USER f) (l\<lparr>conf_warnings := c\<rparr>))"
    and "if stype (symtab k s) \<in> {S_BOOLEAN, S_TRISTATE} then tri (f (def_user (symtab l s))) = tri (curr (symtab k s))
       else val (f (def_user (symtab l s))) = val (curr (symtab k s))"
proof -
  obtain nm where nm: "sname (symtab k s) = Some nm" "name_ok pre nm" and "sym_find (Some nm) k = Some s"
    using w by (auto simp: writable_def split: option.splits)
  then have find: "sym_find (Some nm) l = Some s" using same_shape_find [OF sh] by simp
  have v: "value_ok k s" using w by (simp add: writable_def)
  have ty: "stype (symtab l s) = stype (symtab k s)" using sh by (simp add: same_shape_def)
  show ?thesis
  proof (cases "stype (symtab k s) \<in> {S_BOOLEAN, S_TRISTATE} \<and> take 1 (shown k s) = ''n''")
    case True
    then obtain c where "read_unset S_DEF_USER nm l =
        Ok (Some s, put_sym s (store_def S_DEF_USER (\<lambda>v. v\<lparr>tri := No\<rparr>)) (l\<lparr>conf_warnings := c\<rparr>))"
      using read_unset_ok [OF find] ty by auto
    then have "conf_line pre S_DEF_USER (shown_line pre k s) l
        = set_choice S_DEF_USER s (put_sym s (store_def S_DEF_USER (\<lambda>v. v\<lparr>tri := No\<rparr>)) (l\<lparr>conf_warnings := c\<rparr>))"
      unfolding shown_line_text [OF w nm(1)] if_P [OF True] conf_line_unset [OF nm(2)]
      by (simp add: bnd_def setsym_def)
    then show ?thesis by (rule that) (use shown_is_unset [OF v] True in auto)
  next
    case False
    obtain f where f: "conf_set_sym_val S_DEF_USER (shown k s) (symtab l s) = Some (store_def S_DEF_USER f (symtab l s))"
      "if stype (symtab k s) \<in> {S_BOOLEAN, S_TRISTATE} then tri (f (def_user (symtab l s))) = tri (curr (symtab k s))
       else val (f (def_user (symtab l s))) = val (curr (symtab k s))"
      using shown_is_set [OF v False ty] by blast
    obtain c where "read_value S_DEF_USER nm (shown k s) l =
        Ok (Some s, put_sym s (\<lambda>_. store_def S_DEF_USER f (symtab l s)) (l\<lparr>conf_warnings := c\<rparr>))"
      using read_value_ok [OF find f(1)] by auto
    then have "conf_line pre S_DEF_USER (shown_line pre k s) l
        = set_choice S_DEF_USER s (put_sym s (store_def S_DEF_USER f) (l\<lparr>conf_warnings := c\<rparr>))"
      unfolding shown_line_text [OF w nm(1)] if_not_P [OF False] conf_line_set [OF nm(2) shown_plain(1,2) [OF v]]
      by (simp add: bnd_def setsym_def put_sym_def)
    then show ?thesis using f(2) by (rule that)
  qed
qed

lemma shown_line_read:
  assumes w: "writable pre k s" and sh: "same_shape k l"
  shows "\<exists>l'. conf_line pre S_DEF_USER (shown_line pre k s) l = Ok ((), l') \<and> same_shape k l' \<and> saved k l' s
     \<and> (\<forall>t. t \<noteq> s \<and> \<not> sym_is_choice (symtab k t) \<longrightarrow> symtab l' t = symtab l t)"
proof -
  obtain f c where line: "conf_line pre S_DEF_USER (shown_line pre k s) l
      = set_choice S_DEF_USER s (put_sym s (store_def S_DEF_USER f) (l\<lparr>conf_warnings := c\<rparr>))"
    and val: "if stype (symtab k s) \<in> {S_BOOLEAN, S_TRISTATE} then tri (f (def_user (symtab l s))) = tri (curr (symtab k s))
       else val (f (def_user (symtab l s))) = val (curr (symtab k s))"
    by (rule shown_line_stores [OF w sh])
  let ?m = "put_sym s (store_def S_DEF_USER f) (l\<lparr>conf_warnings := c\<rparr>)"
  have m: "same_shape k ?m" by (rule same_shape_trans [OF sh same_shape_store])
  have "sym_is_choice_value (symtab ?m s) \<Longrightarrow> in_choice ?m s"
    unfolding same_shape_choice [OF m] using w by (simp add: writable_def)
  then obtain l' where l': "set_choice S_DEF_USER s ?m = Ok ((), l')" "choices_only ?m l'"
    using set_choice_ok by blast
  have keep: "\<not> sym_is_choice (symtab k t) \<Longrightarrow> symtab l' t = symtab ?m t" for t
    using l'(2) same_shape_choice(2) [OF m, of t] by (simp add: choices_only_def)
  have "saved k l' s"
    using keep [of s] w val by (simp add: writable_def saved_def put_sym_def sym_has_value_def)
  moreover have "same_shape k l'" using l'(2) same_shape_trans [OF m] by (simp add: choices_only_def)
  moreover have "\<forall>t. t \<noteq> s \<and> \<not> sym_is_choice (symtab k t) \<longrightarrow> symtab l' t = symtab l t"
    using keep by (simp add: put_sym_def)
  ultimately show ?thesis using l'(1) line by auto
qed

lemma shown_lines_read:
  assumes "\<forall>s \<in> set ss. writable pre k s" and "same_shape k l"
  shows "\<exists>l'. for_each (map (shown_line pre k) ss) (conf_line pre S_DEF_USER) l = Ok ((), l') \<and> same_shape k l'
     \<and> (\<forall>s \<in> set ss. saved k l' s)
     \<and> (\<forall>t. t \<notin> set ss \<and> \<not> sym_is_choice (symtab k t) \<longrightarrow> symtab l' t = symtab l t)"
  using assms
proof (induction ss arbitrary: l)
  case (Cons s ss)
  obtain m where m: "conf_line pre S_DEF_USER (shown_line pre k s) l = Ok ((), m)" "same_shape k m" "saved k m s"
    "\<forall>t. t \<noteq> s \<and> \<not> sym_is_choice (symtab k t) \<longrightarrow> symtab m t = symtab l t"
    using shown_line_read [of pre k s l] Cons.prems by auto
  obtain l' where l': "for_each (map (shown_line pre k) ss) (conf_line pre S_DEF_USER) m = Ok ((), l')"
    "same_shape k l'" "\<forall>s \<in> set ss. saved k l' s"
    "\<forall>t. t \<notin> set ss \<and> \<not> sym_is_choice (symtab k t) \<longrightarrow> symtab l' t = symtab m t"
    using Cons.IH [OF _ m(2)] Cons.prems(1) by auto
  have "saved k l' s"
  proof (cases "s \<in> set ss")
    case False
    then have "symtab l' s = symtab m s" using l'(4) Cons.prems(1) by (auto simp: writable_def)
    with m(3) show ?thesis by (simp add: saved_def)
  qed (use l'(3) in blast)
  with m l' show ?case by (auto simp: thn_def bnd_def)
qed (auto simp: ret_def same_shape_refl)

section \<open>Properties\<close>

text \<open>The text of a list of symbols, as \<^verbatim>\<open>conf_write\<close> emits it.\<close>

primrec write_symbols :: "calc \<Rightarrow> printer \<Rightarrow> sym list \<Rightarrow> string kprog" where
  "write_symbols calc print_symbol [] = ret []"
| "write_symbols calc print_symbol (s # ss) =
     bnd (conf_write_symbol calc print_symbol s) (\<lambda>a.
     bnd (write_symbols calc print_symbol ss) (\<lambda>b. ret (a @ b)))"

lemma value_ok_string:
  "value_ok k s \<Longrightarrow> \<exists>v. sym_get_string_value k s = V_str v \<and> stype (symtab k s) \<notin> {S_OTHER, S_UNKNOWN}"
  by (auto simp: value_ok_def sym_get_string_value_def Let_def
      split: symbol_type.splits sval.splits tristate.splits)

lemma write_symbol_shown:
  assumes "is_valid k (modules_sym k)" and "writable pre k s"
  shows "conf_write_symbol (sym_calc_value (Suc n)) (kconfig_print_symbol pre False) s k = Ok (shown_line pre k s, k)"
proof -
  obtain v where v: "sym_get_string_value k s = V_str v" and ty: "stype (symtab k s) \<notin> {S_OTHER, S_UNKNOWN}"
    using assms(2) value_ok_string [of k s] by (auto simp: writable_def)
  obtain nm where "sname (symtab k s) = Some nm" using assms(2) by (auto simp: writable_def split: option.splits)
  with v ty show ?thesis
    by (auto simp: conf_write_symbol_def prog_defs at_def string_value_settled [OF assms(1)] string_of_def
        shown_line_def shown_def kconfig_print_symbol_def)
qed

lemma write_symbols_shown:
  "is_valid k (modules_sym k) \<Longrightarrow> \<forall>s \<in> set ss. writable pre k s \<Longrightarrow>
     write_symbols (sym_calc_value (Suc n)) (kconfig_print_symbol pre False) ss k
       = Ok (concat (map (shown_line pre k) ss), k)"
  by (induction ss) (simp_all add: prog_defs write_symbol_shown)

text \<open>
  Reading a file line by line loses nothing: the lines are the file, and each one with its
  terminator fits the buffer it was read into.
\<close>

lemma read_lines_complete:
  "concat (map fst (read_lines n s)) = s \<and> list_all (\<lambda>(l, m). length l < m) (read_lines n s)"
proof (induction n s rule: read_lines.induct)
  case (1 n s)
  show ?case
  proof (cases "compat_getline [] n s")
    case None
    then have "s = []" using getline_total [of s "[]" n] by auto
    then show ?thesis by (simp add: read_lines.simps [of n])
  next
    case (Some a)
    obtain l m r where a: "a = (l, m, r)" by (cases a) auto
    with Some 1 getline_concat [of "[]" n s l m r] getline_fits [of "[]" n s l m r] show ?thesis
      by (simp add: read_lines.simps [of n s])
  qed
qed

text \<open>
  C23. The text written for any list of symbols, in a configuration whose values suit their types,
  is read back line by line by \<^verbatim>\<open>conf_read_simple\<close> into any table of the same shape without
  failing, and then the stored user value of every one of them is the value that was written, also
  for members of choices, while the symbols not written keep theirs, choices apart.
\<close>

theorem written_config_read_back:
  assumes "is_valid k (modules_sym k)" and "\<forall>s \<in> set ss. writable pre k s" and "same_shape k l"
  shows "\<exists>file l'. write_symbols (sym_calc_value (Suc n)) (kconfig_print_symbol pre False) ss k = Ok (file, k)
     \<and> for_each (file_lines file) (conf_line pre S_DEF_USER) l = Ok ((), l')
     \<and> (\<forall>s \<in> set ss. saved k l' s)
     \<and> (\<forall>t. t \<notin> set ss \<and> \<not> sym_is_choice (symtab k t) \<longrightarrow> symtab l' t = symtab l t)"
proof -
  have lines: "file_lines (concat (map (shown_line pre k) ss)) = map (shown_line pre k) ss"
    using assms(2) shown_is_line by (intro file_lines_concat) (auto simp: list_all_iff)
  show ?thesis
    using write_symbols_shown [OF assms(1,2), of n] shown_lines_read [OF assms(2,3)] by (auto simp: lines)
qed

text \<open>A boolean and a string symbol with values, entered in every bucket.\<close>

definition conf_symbol :: "nat \<Rightarrow> symbol" where
  "conf_symbol n = (if n = 0
     then (new_symbol (Some ''BR2_ARM'') {SYMBOL_VALID})\<lparr>stype := S_BOOLEAN, curr := \<lparr>val = V_null, tri = Yes\<rparr>\<rparr>
     else (new_symbol (Some ''BR2_OPT'') {SYMBOL_VALID})\<lparr>stype := S_STRING,
        curr := \<lparr>val = V_str [CHR ''-'', CHR 0x22, CHR ''O'', CHR 0x22], tri = No\<rparr>\<rparr>)"

definition conf_kconf :: kconf where
  "conf_kconf = (mk_kconf conf_symbol)\<lparr>symbol_hash := \<lambda>_. [Sym 0, Sym 1], next_sym := 2\<rparr>"

theorem written_config_read_back_witness:
  "\<exists>file l. write_symbols (sym_calc_value 1) (kconfig_print_symbol ''CONFIG_'' False) [Sym 0, Sym 1] conf_kconf
       = Ok (file, conf_kconf)
     \<and> for_each (file_lines file) (conf_line ''CONFIG_'' S_DEF_USER) conf_kconf = Ok ((), l)
     \<and> tri (def_user (symtab l (Sym 0))) = Yes
     \<and> val (def_user (symtab l (Sym 1))) = V_str [CHR ''-'', CHR 0x22, CHR ''O'', CHR 0x22]"
proof -
  have tab: "symtab conf_kconf (Sym n) = conf_symbol n" for n by (simp add: conf_kconf_def)
  have v: "is_valid conf_kconf (modules_sym conf_kconf)" by (simp add: is_valid_def conf_kconf_def)
  have w: "\<forall>s \<in> set [Sym 0, Sym 1]. writable ''CONFIG_'' conf_kconf s"
    by (simp add: writable_def tab conf_symbol_def new_symbol_def name_ok_def sym_find_def const_by_name_def
        sym_is_choice_def sym_is_choice_value_def value_ok_def conf_kconf_def)
  show ?thesis
    using written_config_read_back [OF v w same_shape_refl, of 0]
    by (auto simp: saved_def tab conf_symbol_def new_symbol_def)
qed

end
