(* ===== verification/Kconfig_Menu.thy ===== *)
theory Kconfig_Menu
  imports Kconfig_Conf
begin

text \<open>
  The menu tree (\<^verbatim>\<open>support/kconfig/menu.c\<close>). The parser builds it with pointers for the
  first child, the next sibling and the parent; the writers of \<^verbatim>\<open>confdata.c\<close> walk it with
  the loop that ends every one of them. The first part models both on a heap of menu nodes and
  shows that the walk visits what was parsed, in the order it was parsed. The second part has the
  dependencies and the visibility of menu entries, on the tree itself.
\<close>

section \<open>Building and walking the tree\<close>

record mnode =
  nxt :: "nat option"
  par :: "nat option"
  lst :: "nat option"

definition empty_node :: mnode where
  "empty_node = \<lparr>nxt = None, par = None, lst = None\<rparr>"

text \<open>\<^verbatim>\<open>last_entry_ptr\<close> points to the \<^verbatim>\<open>next\<close> or the \<^verbatim>\<open>list\<close> of a menu.\<close>

datatype slot = NextOf nat | ListOf nat

record mbuild =
  mheap :: "nat \<Rightarrow> mnode"
  mfresh :: nat
  current_entry :: nat
  current_menu :: "nat option"
  last_entry_ptr :: slot

definition rootmenu :: nat where
  "rootmenu = 0"

fun put_slot :: "slot \<Rightarrow> nat option \<Rightarrow> (nat \<Rightarrow> mnode) \<Rightarrow> nat \<Rightarrow> mnode" where
  "put_slot (NextOf i) v h = h(i := (h i)\<lparr>nxt := v\<rparr>)"
| "put_slot (ListOf i) v h = h(i := (h i)\<lparr>lst := v\<rparr>)"

fun get_slot :: "slot \<Rightarrow> (nat \<Rightarrow> mnode) \<Rightarrow> nat option" where
  "get_slot (NextOf i) h = nxt (h i)"
| "get_slot (ListOf i) h = lst (h i)"

fun slot_node :: "slot \<Rightarrow> nat" where
  "slot_node (NextOf i) = i"
| "slot_node (ListOf i) = i"

definition menu_init :: mbuild where
  "menu_init = \<lparr>mheap = (\<lambda>_. empty_node), mfresh = Suc rootmenu, current_entry = rootmenu,
     current_menu = Some rootmenu, last_entry_ptr = ListOf rootmenu\<rparr>"

definition menu_add_entry :: "mbuild \<Rightarrow> mbuild" where
  "menu_add_entry b =
     (let m = mfresh b; h = (mheap b)(m := empty_node\<lparr>par := current_menu b\<rparr>) in
      b\<lparr>mheap := put_slot (last_entry_ptr b) (Some m) h, mfresh := Suc m,
        last_entry_ptr := NextOf m, current_entry := m\<rparr>)"

definition menu_add_menu :: "mbuild \<Rightarrow> mbuild" where
  "menu_add_menu b = b\<lparr>last_entry_ptr := ListOf (current_entry b), current_menu := Some (current_entry b)\<rparr>"

text \<open>\<^verbatim>\<open>menu_end_menu\<close> dereferences \<^verbatim>\<open>current_menu\<close>.\<close>

definition menu_end_menu :: "mbuild \<Rightarrow> mbuild option" where
  "menu_end_menu b = (case current_menu b of None \<Rightarrow> None
     | Some m \<Rightarrow> Some (b\<lparr>last_entry_ptr := NextOf m, current_menu := par (mheap b m)\<rparr>))"

text \<open>The end of the loops over all menus: the first child, else the next sibling of the nearest
  ancestor or self that has one.\<close>

partial_function (option) climb :: "(nat \<Rightarrow> mnode) \<Rightarrow> nat \<Rightarrow> nat option option" where
  "climb h m = (case par (h m) of None \<Rightarrow> Some None
     | Some p \<Rightarrow> if nxt (h p) \<noteq> None then Some (nxt (h p)) else climb h p)"

definition next_menu :: "(nat \<Rightarrow> mnode) \<Rightarrow> nat \<Rightarrow> nat option option" where
  "next_menu h m =
     (if lst (h m) \<noteq> None then Some (lst (h m))
      else if nxt (h m) \<noteq> None then Some (nxt (h m))
      else climb h m)"

partial_function (option) walk :: "(nat \<Rightarrow> mnode) \<Rightarrow> nat option \<Rightarrow> nat list option" where
  "walk h m = (case m of None \<Rightarrow> Some []
     | Some i \<Rightarrow> Option.bind (next_menu h i) (\<lambda>n. Option.bind (walk h n) (\<lambda>r. Some (i # r))))"

declare climb.simps [code] walk.simps [code]

text \<open>
  What the grammar makes of its input: an entry, or an entry with a block of entries (a menu, a
  choice or an \<^verbatim>\<open>if\<close>).
\<close>

datatype item = Single | Block "item list"

fun build_item :: "item \<Rightarrow> mbuild \<Rightarrow> mbuild option" and build_items :: "item list \<Rightarrow> mbuild \<Rightarrow> mbuild option" where
  "build_item Single b = Some (menu_add_entry b)"
| "build_item (Block is) b =
     Option.bind (build_items is (menu_add_menu (menu_add_entry b))) menu_end_menu"
| "build_items [] b = Some b"
| "build_items (i # is) b = Option.bind (build_item i b) (build_items is)"

fun entries :: "item \<Rightarrow> nat" and entries_of :: "item list \<Rightarrow> nat" where
  "entries Single = 1"
| "entries (Block is) = Suc (entries_of is)"
| "entries_of [] = 0"
| "entries_of (i # is) = entries i + entries_of is"

text \<open>
  \<open>forest h p i is a\<close>: the chain that starts at \<open>i\<close> holds the items \<open>is\<close>, with parent \<open>p\<close>
  and the addresses from \<open>a\<close> on.
\<close>

fun tree :: "(nat \<Rightarrow> mnode) \<Rightarrow> item \<Rightarrow> nat \<Rightarrow> bool"
  and forest :: "(nat \<Rightarrow> mnode) \<Rightarrow> nat \<Rightarrow> nat option \<Rightarrow> item list \<Rightarrow> nat \<Rightarrow> bool" where
  "tree h Single a \<longleftrightarrow> lst (h a) = None"
| "tree h (Block is) a \<longleftrightarrow> forest h a (lst (h a)) is (Suc a)"
| "forest h p i [] a \<longleftrightarrow> i = None"
| "forest h p i (t # is) a \<longleftrightarrow> i = Some a \<and> par (h a) = Some p \<and> tree h t a
     \<and> forest h p (nxt (h a)) is (a + entries t)"

lemma tree_cong:
  "(\<And>j. a < j \<Longrightarrow> j < a + entries t \<Longrightarrow> h' j = h j) \<Longrightarrow> lst (h' a) = lst (h a) \<Longrightarrow> tree h' t a = tree h t a"
  "(\<And>j. a \<le> j \<Longrightarrow> j < a + entries_of is \<Longrightarrow> h' j = h j) \<Longrightarrow> forest h' p i is a = forest h p i is a"
proof (induction h t a and h p i "is" a rule: tree_forest.induct)
  case (4 h p i t "is" a)
  have "0 < entries t" by (cases t) auto
  with 4 show ?case by simp
qed auto

text \<open>What building leaves alone, and what it makes.\<close>

definition kept :: "slot \<Rightarrow> nat option \<Rightarrow> nat \<Rightarrow> (nat \<Rightarrow> mnode) \<Rightarrow> (nat \<Rightarrow> mnode) \<Rightarrow> bool" where
  "kept L v n h h' \<longleftrightarrow> (\<forall>j < n. h' j = put_slot L v h j)"

definition built :: "mbuild \<Rightarrow> mbuild \<Rightarrow> nat \<Rightarrow> item list \<Rightarrow> bool" where
  "built b b' p is \<longleftrightarrow> mfresh b' = mfresh b + entries_of is \<and> current_menu b' = Some p
     \<and> forest (mheap b') p (get_slot (last_entry_ptr b) (mheap b')) is (mfresh b)
     \<and> get_slot (last_entry_ptr b') (mheap b') = None \<and> slot_node (last_entry_ptr b') < mfresh b'
     \<and> kept (last_entry_ptr b) (get_slot (last_entry_ptr b) (mheap b')) (mfresh b) (mheap b) (mheap b')"

definition ready :: "mbuild \<Rightarrow> nat \<Rightarrow> bool" where
  "ready b p \<longleftrightarrow> current_menu b = Some p \<and> get_slot (last_entry_ptr b) (mheap b) = None
     \<and> slot_node (last_entry_ptr b) < mfresh b \<and> p < mfresh b"

lemma put_slot_other: "slot_node L \<noteq> j \<Longrightarrow> put_slot L v h j = h j"
  by (cases L) auto

lemma get_slot_cong: "h' (slot_node L) = h (slot_node L) \<Longrightarrow> get_slot L h' = get_slot L h"
  by (cases L) auto

lemma get_put_slot [simp]: "get_slot L (put_slot L v h) = v"
  by (cases L) auto

lemma put_slot_same: "get_slot L h = v \<Longrightarrow> put_slot L v h = h"
  by (cases L) (auto simp: fun_eq_iff)

lemma keptD: "kept L v n h h' \<Longrightarrow> j < n \<Longrightarrow> h' j = put_slot L v h j"
  by (simp add: kept_def)

lemma entries_pos: "0 < entries t"
  by (cases t) auto

lemma built_ready: "built b b' p is \<Longrightarrow> p < mfresh b \<Longrightarrow> ready b' p"
  by (auto simp: built_def ready_def)

lemma add_entry_facts:
  assumes "ready b p"
  defines "c \<equiv> menu_add_entry b"
  shows "mfresh c = Suc (mfresh b)" and "current_menu c = Some p" and "current_entry c = mfresh b"
    and "last_entry_ptr c = NextOf (mfresh b)" and "mheap c (mfresh b) = empty_node\<lparr>par := Some p\<rparr>"
    and "get_slot (last_entry_ptr b) (mheap c) = Some (mfresh b)"
    and "\<And>j. j < mfresh b \<Longrightarrow> mheap c j = put_slot (last_entry_ptr b) (Some (mfresh b)) (mheap b) j"
proof -
  let ?L = "last_entry_ptr b"
  have L: "slot_node ?L \<noteq> mfresh b" using assms(1) by (simp add: ready_def)
  show "mfresh c = Suc (mfresh b)" "current_menu c = Some p" "current_entry c = mfresh b"
    "last_entry_ptr c = NextOf (mfresh b)" "get_slot ?L (mheap c) = Some (mfresh b)"
    using assms(1) by (simp_all add: c_def menu_add_entry_def Let_def ready_def)
  show "mheap c (mfresh b) = empty_node\<lparr>par := Some p\<rparr>"
    using assms(1) put_slot_other [OF L] by (simp add: c_def menu_add_entry_def Let_def ready_def)
  fix j assume "j < mfresh b"
  then show "mheap c j = put_slot ?L (Some (mfresh b)) (mheap b) j"
    using L by (cases ?L) (auto simp: c_def menu_add_entry_def Let_def)
qed

lemma build_single:
  assumes "ready b p"
  shows "built b (menu_add_entry b) p [Single]"
  using add_entry_facts [OF assms] by (simp add: built_def kept_def empty_node_def)

lemma build_block:
  assumes r: "ready b p" and b2: "built (menu_add_menu (menu_add_entry b)) b2 (mfresh b) is"
  shows "\<exists>b'. menu_end_menu b2 = Some b' \<and> built b b' p [Block is] \<and> last_entry_ptr b' = NextOf (mfresh b)"
proof -
  let ?a = "mfresh b" and ?L = "last_entry_ptr b" and ?c = "menu_add_menu (menu_add_entry b)"
  note f = add_entry_facts [OF r]
  have c: "mfresh ?c = Suc ?a" "last_entry_ptr ?c = ListOf ?a" "mheap ?c = mheap (menu_add_entry b)"
    using f by (simp_all add: menu_add_menu_def)
  obtain v where k: "kept (ListOf ?a) v (Suc ?a) (mheap (menu_add_entry b)) (mheap b2)"
    using b2 c by (auto simp: built_def)
  have a: "mheap b2 ?a = empty_node\<lparr>par := Some p, lst := v\<rparr>"
    using keptD [OF k, of ?a] f(5) by (simp add: empty_node_def)
  have below: "mheap b2 j = put_slot ?L (Some ?a) (mheap b) j" if "j < ?a" for j
    using keptD [OF k, of j] that f(7) [OF that] by simp
  have L: "get_slot ?L (mheap b2) = Some ?a"
    using get_slot_cong [of "mheap b2" ?L "put_slot ?L (Some ?a) (mheap b)"] below r by (simp add: ready_def)
  let ?b = "b2\<lparr>last_entry_ptr := NextOf ?a, current_menu := Some p\<rparr>"
  have "nxt (mheap b2 ?a) = None" "par (mheap b2 ?a) = Some p" by (simp_all add: a empty_node_def)
  then have "menu_end_menu b2 = Some ?b" and "built b ?b p [Block is]"
    using b2 L below c by (auto simp: menu_end_menu_def built_def kept_def [of ?L])
  then show ?thesis by simp
qed

lemma build_cons:
  assumes b1: "built b b1 p [t]" and a: "last_entry_ptr b1 = NextOf (mfresh b)" and b2: "built b1 b2 p is"
    and L: "slot_node (last_entry_ptr b) < mfresh b"
  shows "built b b2 p (t # is)"
proof -
  let ?a = "mfresh b" and ?L = "last_entry_ptr b"
  have fresh: "mfresh b1 = ?a + entries t" using b1 by (simp add: built_def)
  obtain v where k: "kept (NextOf ?a) v (?a + entries t) (mheap b1) (mheap b2)"
    using b2 a fresh by (auto simp: built_def)
  have v: "mheap b2 ?a = (mheap b1 ?a)\<lparr>nxt := v\<rparr>" using keptD [OF k, of ?a] entries_pos [of t] by simp
  have t: "tree (mheap b2) t ?a" "par (mheap b2 ?a) = Some p" "lst (mheap b2 ?a) = lst (mheap b1 ?a)"
  proof -
    show "lst (mheap b2 ?a) = lst (mheap b1 ?a)" by (simp add: v)
    then have "tree (mheap b2) t ?a = tree (mheap b1) t ?a" using keptD [OF k] by (intro tree_cong) auto
    then show "tree (mheap b2) t ?a" using b1 by (simp add: built_def)
    show "par (mheap b2 ?a) = Some p" using b1 by (simp add: built_def v)
  qed
  have below: "mheap b2 j = mheap b1 j" if "j < ?a" for j using keptD [OF k, of j] that by simp
  have slot: "get_slot ?L (mheap b2) = Some ?a"
    using get_slot_cong [of "mheap b2" ?L "mheap b1"] below [OF L] b1 by (simp add: built_def)
  have "forest (mheap b2) p (nxt (mheap b2 ?a)) is (?a + entries t)" using b2 a fresh by (simp add: built_def)
  with t slot b1 b2 below fresh show ?thesis by (auto simp: built_def kept_def [of ?L])
qed

lemma build_ok:
  "ready b p \<Longrightarrow> \<exists>b'. build_item t b = Some b' \<and> built b b' p [t] \<and> last_entry_ptr b' = NextOf (mfresh b)"
  "ready b p \<Longrightarrow> \<exists>b'. build_items is b = Some b' \<and> built b b' p is"
proof (induction t b and "is" b arbitrary: p and p rule: build_item_build_items.induct)
  case (1 b)
  then show ?case using build_single [OF 1] add_entry_facts(4) [OF 1] by simp
next
  case (2 "is" b)
  let ?c = "menu_add_menu (menu_add_entry b)"
  have "ready ?c (mfresh b)"
    using add_entry_facts [OF "2.prems"] by (simp add: ready_def menu_add_menu_def empty_node_def)
  then obtain b2 where "build_items is ?c = Some b2" "built ?c b2 (mfresh b) is" using "2.IH" by blast
  with build_block [OF "2.prems"] show ?case by simp
next
  case (3 b)
  then show ?case by (simp add: built_def ready_def put_slot_same kept_def)
next
  case (4 t "is" b)
  then obtain b1 where b1: "build_item t b = Some b1" "built b b1 p [t]" "last_entry_ptr b1 = NextOf (mfresh b)"
    by blast
  have "ready b1 p" using built_ready [OF b1(2)] "4.prems" by (simp add: ready_def)
  then obtain b2 where "build_items is b1 = Some b2" "built b1 b2 p is" using "4.IH"(2) [OF b1(1)] by blast
  with b1 build_cons [OF b1(2,3)] "4.prems" show ?case by (auto simp: ready_def)
qed

text \<open>
  The walk through a forest gives its addresses in order and goes on where climbing from a child
  of the parent leads.
\<close>

definition above :: "(nat \<Rightarrow> mnode) \<Rightarrow> nat \<Rightarrow> nat option option" where
  "above h p = (if nxt (h p) \<noteq> None then Some (nxt (h p)) else climb h p)"

lemma climb_above: "par (h m) = Some p \<Longrightarrow> climb h m = above h p"
  by (subst climb.simps) (simp add: above_def)

lemma walk_step:
  "next_menu h i = Some n \<Longrightarrow> walk h n = Some r \<Longrightarrow> walk h (Some i) = Some (i # r)"
  by (subst walk.simps) simp

lemma forest_None: "forest h p None is a \<longleftrightarrow> is = []"
  by (cases "is") auto

lemma walk_forest:
  "tree h t a \<Longrightarrow> above h a = Some k \<Longrightarrow> walk h k = Some r \<Longrightarrow>
     walk h (Some a) = Some ([a..<a + entries t] @ r)"
  "forest h p i is a \<Longrightarrow> is \<noteq> [] \<Longrightarrow> above h p = Some k \<Longrightarrow> walk h k = Some r \<Longrightarrow>
     walk h i = Some ([a..<a + entries_of is] @ r)"
proof (induction h t a and h p i "is" a arbitrary: k r and k r rule: tree_forest.induct)
  case (1 h a)
  have "next_menu h a = Some k" using 1 by (simp add: next_menu_def above_def)
  with 1 show ?case using walk_step [of h a k r] by simp
next
  case (2 h "is" a)
  show ?case
  proof (cases "is = []")
    case True
    then have "next_menu h a = Some k" using 2 by (simp add: next_menu_def above_def)
    with 2 True show ?thesis using walk_step [of h a k r] by simp
  next
    case False
    then have "lst (h a) \<noteq> None" using "2.prems"(1) by (cases "lst (h a)") (auto simp: forest_None)
    then have "next_menu h a = Some (lst (h a))" by (simp add: next_menu_def)
    moreover have "walk h (lst (h a)) = Some ([Suc a..<Suc a + entries_of is] @ r)"
      using "2.IH" [of k r] "2.prems" False by simp
    ultimately show ?thesis using walk_step by (simp add: upt_conv_Cons)
  qed
next
  case (3 h p i a)
  then show ?case by simp
next
  case (4 h p i t "is" a)
  have t: "tree h t a" "i = Some a" "par (h a) = Some p" "forest h p (nxt (h a)) is (a + entries t)"
    using "4.prems" by simp_all
  show ?case
  proof (cases "is = []")
    case True
    then have "nxt (h a) = None" using t(4) by simp
    then have "above h a = Some k" using "4.prems"(3) climb_above [of h a p] t(3) by (simp add: above_def)
    with "4.IH"(1) [OF t(1) _ "4.prems"(4)] t(2) True show ?thesis by simp
  next
    case False
    let ?r = "[a + entries t..<a + entries t + entries_of is] @ r"
    have "nxt (h a) \<noteq> None" using t(4) False by (cases "nxt (h a)") (auto simp: forest_None)
    then have "above h a = Some (nxt (h a))" by (simp add: above_def)
    moreover have "walk h (nxt (h a)) = Some ?r"
      using "4.IH"(2) [OF t(4) False "4.prems"(3,4)] by simp
    ultimately have "walk h i = Some ([a..<a + entries t] @ ?r)"
      using "4.IH"(1) [OF t(1)] t(2) by simp
    then show ?thesis
      using upt_add_eq_append [of a "a + entries t" "entries_of is"] by (simp add: add.assoc)
  qed
qed

section \<open>Properties of the tree\<close>

lemma root_built:
  assumes "build_items is menu_init = Some b"
  shows "forest (mheap b) rootmenu (lst (mheap b rootmenu)) is (Suc rootmenu)" "par (mheap b rootmenu) = None" "nxt (mheap b rootmenu) = None"
proof -
  have "ready menu_init rootmenu" by (simp add: ready_def menu_init_def empty_node_def)
  then obtain c where "build_items is menu_init = Some c" "built menu_init c rootmenu is" using build_ok(2) by blast
  then have b: "built menu_init b rootmenu is" using assms by simp
  then show "forest (mheap b) rootmenu (lst (mheap b rootmenu)) is (Suc rootmenu)" by (simp add: built_def menu_init_def)
  obtain v where k: "kept (ListOf rootmenu) v (Suc rootmenu) (\<lambda>_. empty_node) (mheap b)"
    using b by (auto simp: built_def menu_init_def)
  have "mheap b rootmenu = empty_node\<lparr>lst := v\<rparr>" using keptD [OF k, of rootmenu] by simp
  then show "par (mheap b rootmenu) = None" "nxt (mheap b rootmenu) = None" by (simp_all add: empty_node_def)
qed

lemma above_root: "par (h r) = None \<Longrightarrow> nxt (h r) = None \<Longrightarrow> above h r = Some None"
  by (simp add: above_def climb.simps [of h r])

text \<open>
  Whatever the nesting of entries and blocks in the configuration files, building the menu
  tree succeeds, and the loop that the writers use to go through all menus ends and visits every
  entry exactly once, in the order in which the entries were parsed.
\<close>

lemma menu_walk_complete:
  "\<exists>b. build_items is menu_init = Some b \<and>
     walk (mheap b) (lst (mheap b rootmenu)) = Some [Suc rootmenu..<Suc rootmenu + entries_of is]"
proof -
  have "ready menu_init rootmenu" by (simp add: ready_def menu_init_def empty_node_def)
  then obtain b where b: "build_items is menu_init = Some b" using build_ok(2) by blast
  note r = root_built [OF b]
  have "walk (mheap b) None = Some []" by (subst walk.simps) simp
  then have "walk (mheap b) (lst (mheap b rootmenu)) = Some [Suc rootmenu..<Suc rootmenu + entries_of is]"
    using walk_forest(2) [OF r(1) _ above_root [of "mheap b" rootmenu, OF r(2,3)]] r(1) by (cases "is = []") auto
  with b show ?thesis by blast
qed

section \<open>Dependencies\<close>

text \<open>
  The parts of a menu that the code below reads. The prompt of an entry for a symbol is one of the
  symbol's properties, that of another entry is its own.
\<close>

datatype prompt = Own property | Of_symbol nat

record menu_entry =
  msym :: "sym option"
  mprompt :: "prompt option"
  visibility :: "expr option"
  mdep :: "expr option"

datatype menu = Menu menu_entry "menu list"

fun menu_check_dep :: "sym \<Rightarrow> expr \<Rightarrow> expr" where
  "menu_check_dep modules (Not e) = Not (menu_check_dep modules e)"
| "menu_check_dep modules (Or l r) = Or (menu_check_dep modules l) (menu_check_dep modules r)"
| "menu_check_dep modules (And l r) = And (menu_check_dep modules l) (menu_check_dep modules r)"
| "menu_check_dep modules (Symbol s) = (if s = symbol_mod then And (Symbol s) (Symbol modules) else Symbol s)"
| "menu_check_dep modules e = e"

definition menu_add_dep :: "sym \<Rightarrow> expr option \<Rightarrow> menu_entry \<Rightarrow> menu_entry" where
  "menu_add_dep modules dep m = m\<lparr>mdep := expr_alloc_and (mdep m) (map_option (menu_check_dep modules) dep)\<rparr>"

definition menu_add_visibility :: "expr option \<Rightarrow> menu_entry \<Rightarrow> menu_entry" where
  "menu_add_visibility e m = m\<lparr>visibility := expr_alloc_and (visibility m) e\<rparr>"

text \<open>The second component tells whether the redefinition is reported.\<close>

definition menu_set_type :: "symbol_type \<Rightarrow> symbol \<Rightarrow> symbol \<times> bool" where
  "menu_set_type ty y =
     (if stype y = ty then (y, False)
      else if stype y = S_UNKNOWN then (y\<lparr>stype := ty\<rparr>, False)
      else (y, True))"

definition prop_alloc :: "position \<Rightarrow> prop_type \<Rightarrow> property" where
  "prop_alloc pos ty = \<lparr>ptype = ty, ptext = None, pvisible = no_expr, pexpr = None, ppos = pos, pmenu = None\<rparr>"

text \<open>
  The new property; \<open>entry\<close> is the current entry, \<open>vis\<close> are the visibilities of the menus above, from the inside out. The
  visibility of each is copied.
\<close>

definition copy_null :: "expr option \<Rightarrow> expr option" where
  "copy_null e = (case e of None \<Rightarrow> None | Some e' \<Rightarrow> expr_copy e')"

definition upper_visible :: "expr option list \<Rightarrow> expr option \<Rightarrow> expr option" where
  "upper_visible vis e = foldl (\<lambda>a v. if v = None then a else expr_alloc_and a (copy_null v)) e vis"

definition menu_add_prop ::
    "sym \<Rightarrow> position \<Rightarrow> menu_ref \<Rightarrow> expr option list \<Rightarrow> prop_type \<Rightarrow> string option \<Rightarrow> expr option \<Rightarrow> expr option \<Rightarrow> property" where
  "menu_add_prop modules pos entry vis ty prompt e dep =
     (let v = map_option (menu_check_dep modules) dep in
      (prop_alloc pos ty)\<lparr>pmenu := Some entry, pexpr := e, ptext := map_option (dropWhile is_space) prompt,
         pvisible := \<lparr>vexpr = (if prompt \<noteq> None \<and> ty = P_PROMPT then upper_visible vis v else v), vtri = No\<rparr>\<rparr>)"

definition add_prop :: "property \<Rightarrow> symbol \<Rightarrow> symbol" where
  "add_prop p y = y\<lparr>props := props y @ [p]\<rparr>"

datatype prop_warning =
    Default_not_symbol | Number_invalid | Select_not_boolean | Select_wrong_type | Range_not_number | Range_invalid

text \<open>A name of a constant is null only where the symbol has none, which is a crash.\<close>

definition menu_validate_number :: "symbol_type \<Rightarrow> symbol \<Rightarrow> bool option" where
  "menu_validate_number ty y2 =
     (if stype y2 = S_INT \<or> stype y2 = S_HEX then Some True
      else if stype y2 = S_UNKNOWN then map_option (sym_string_valid ty) (sname y2)
      else Some False)"

definition check_default :: "kconf \<Rightarrow> symbol_type \<Rightarrow> expr \<Rightarrow> prop_warning list option" where
  "check_default k ty e = (case e of
       Symbol s2 \<Rightarrow>
         if ty = S_HEX \<or> ty = S_INT then
           map_option (\<lambda>ok. if ok then [] else [Number_invalid]) (menu_validate_number ty (symtab k s2))
         else Some []
     | _ \<Rightarrow> Some (if ty = S_STRING \<or> ty = S_INT \<or> ty = S_HEX then [Default_not_symbol] else []))"

definition check_select :: "symbol_type \<Rightarrow> symbol_type \<Rightarrow> prop_warning list" where
  "check_select ty ty2 =
     (if ty \<noteq> S_BOOLEAN \<and> ty \<noteq> S_TRISTATE then [Select_not_boolean]
      else if ty2 \<notin> {S_UNKNOWN, S_BOOLEAN, S_TRISTATE} then [Select_wrong_type] else [])"

definition check_range :: "kconf \<Rightarrow> symbol_type \<Rightarrow> sym \<Rightarrow> sym \<Rightarrow> prop_warning list option" where
  "check_range k ty lo hi =
     Option.bind (menu_validate_number ty (symtab k lo)) (\<lambda>a.
     Option.bind (if a then menu_validate_number ty (symtab k hi) else Some False) (\<lambda>b.
       Some ((if ty \<noteq> S_INT \<and> ty \<noteq> S_HEX then [Range_not_number] else [])
             @ (if b then [] else [Range_invalid]))))"

definition check_prop :: "kconf \<Rightarrow> symbol_type \<Rightarrow> property \<Rightarrow> prop_warning list option" where
  "check_prop k ty p = (case ptype p of
       P_DEFAULT \<Rightarrow> Option.bind (pexpr p) (check_default k ty)
     | P_SELECT \<Rightarrow>
         if ty \<noteq> S_BOOLEAN \<and> ty \<noteq> S_TRISTATE then Some [Select_not_boolean]
         else map_option (\<lambda>s2. check_select ty (stype (symtab k s2))) (prop_get_symbol p)
     | P_RANGE \<Rightarrow> Option.bind (range_syms p) (\<lambda>(lo, hi). check_range k ty lo hi)
     | _ \<Rightarrow> Some [])"

fun check_props :: "kconf \<Rightarrow> symbol_type \<Rightarrow> property list \<Rightarrow> prop_warning list option" where
  "check_props k ty [] = Some []"
| "check_props k ty (p # ps) =
     Option.bind (check_prop k ty p) (\<lambda>w. map_option ((@) w) (check_props k ty ps))"

definition sym_check_prop :: "kconf \<Rightarrow> sym \<Rightarrow> prop_warning list option" where
  "sym_check_prop k s = check_props k (stype (symtab k s)) (props (symtab k s))"

section \<open>Visibility\<close>

definition prompt_visible :: "calc \<Rightarrow> menu_entry \<Rightarrow> prompt \<Rightarrow> tristate kprog" where
  "prompt_visible calc m p = (case msym m of
       Some s \<Rightarrow>
         thn (calc s) (bnd (at s props) (\<lambda>ps. case p of
             Of_symbol i \<Rightarrow> if i < length ps then ret (vtri (pvisible (ps ! i))) else crash
           | Own q \<Rightarrow> ret (vtri (pvisible q))))
     | None \<Rightarrow> (case p of Own q \<Rightarrow> eval_null calc (vexpr (pvisible q)) | Of_symbol i \<Rightarrow> crash))"

definition hidden_by :: "calc \<Rightarrow> expr option \<Rightarrow> bool kprog" where
  "hidden_by calc v = (case v of None \<Rightarrow> ret False
     | Some e \<Rightarrow> bnd (expr_calc_value_st calc e) (\<lambda>t. ret (t = No)))"

fun menu_is_visible :: "calc \<Rightarrow> menu \<Rightarrow> bool kprog" and any_visible :: "calc \<Rightarrow> menu list \<Rightarrow> bool kprog" where
  "menu_is_visible calc (Menu m cs) = (case mprompt m of None \<Rightarrow> ret False
     | Some p \<Rightarrow>
        bnd (hidden_by calc (visibility m)) (\<lambda>hidden. if hidden then ret False
        else bnd (prompt_visible calc m p) (\<lambda>vis. if vis \<noteq> No then ret True
        else (case msym m of None \<Rightarrow> ret False
          | Some s \<Rightarrow>
             bnd (at s (\<lambda>y. tri (curr y))) (\<lambda>t. if t = No then ret False
             else bnd (any_visible calc cs) (\<lambda>b.
               if b then thn (set_flags s {SYMBOL_DEF_USER}) (ret True) else ret False))))))"
| "any_visible calc [] = ret False"
| "any_visible calc (c # cs) = bnd (menu_is_visible calc c) (\<lambda>b. if b then ret True else any_visible calc cs)"

definition menu_has_prompt :: "menu_entry \<Rightarrow> bool" where
  "menu_has_prompt m \<longleftrightarrow> mprompt m \<noteq> None"

fun menu_is_empty :: "calc \<Rightarrow> menu \<Rightarrow> bool kprog" where
  "menu_is_empty calc (Menu m cs) = bnd (any_visible calc cs) (\<lambda>b. ret (\<not> b))"

definition menu_get_prompt :: "kconf \<Rightarrow> menu_entry \<Rightarrow> string option" where
  "menu_get_prompt k m = (case mprompt m of
       Some (Own q) \<Rightarrow> ptext q
     | Some (Of_symbol i) \<Rightarrow> Option.bind (msym m) (\<lambda>s.
         if i < length (props (symtab k s)) then ptext (props (symtab k s) ! i) else None)
     | None \<Rightarrow> Option.bind (msym m) (\<lambda>s. sname (symtab k s)))"

section \<open>Properties of dependencies\<close>

lemma alloc_and_value:
  "expr_calc_value_null k (expr_alloc_and a b) = EXPR_AND (expr_calc_value_null k a) (expr_calc_value_null k b)"
  by (cases a; cases b) (auto simp: expr_calc_value_null_def)

lemma upper_visible_le:
  "expr_calc_value_null k (upper_visible vis e) \<le> expr_calc_value_null k e"
proof (induction vis arbitrary: e)
  case (Cons v vis)
  have "expr_calc_value_null k (expr_alloc_and e (copy_null v)) \<le> expr_calc_value_null k e"
    by (simp add: alloc_and_value EXPR_AND_min)
  with Cons [of e] Cons [of "expr_alloc_and e (copy_null v)"] show ?case
    by (auto simp: upper_visible_def)
qed (simp add: upper_visible_def)

lemma upper_visible_member:
  "Some v \<in> set vis \<Longrightarrow> expr_calc_value_null k (upper_visible vis e) \<le> expr_calc_value_null k (expr_copy v)"
proof (induction vis arbitrary: e)
  case (Cons w vis)
  show ?case
  proof (cases "w = Some v")
    case True
    have "expr_calc_value_null k (upper_visible (w # vis) e)
        \<le> expr_calc_value_null k (expr_alloc_and e (expr_copy v))"
      using upper_visible_le [of k vis "expr_alloc_and e (expr_copy v)"] True
      by (simp add: upper_visible_def copy_null_def)
    also have "\<dots> \<le> expr_calc_value_null k (expr_copy v)" by (simp add: alloc_and_value EXPR_AND_min)
    finally show ?thesis .
  next
    case False
    with Cons show ?thesis by (auto simp: upper_visible_def)
  qed
qed simp

text \<open>
  C28. A prompt is never more visible than its own dependency or any of the menus around it, with
  the constant \<^verbatim>\<open>m\<close> in the dependency standing for \<^verbatim>\<open>m && MODULES\<close>.
\<close>

theorem prompt_within_menus:
  assumes "Some v \<in> set vis" and "expr_copy v = Some v"
  shows "expr_calc_value_null k (vexpr (pvisible (menu_add_prop modules pos entry vis P_PROMPT (Some t) e dep)))
       \<le> min (expr_calc_value k v) (expr_calc_value_null k (map_option (menu_check_dep modules) dep))"
  using upper_visible_member [OF assms(1), of k] upper_visible_le [of k vis]
  by (simp add: menu_add_prop_def Let_def assms(2) expr_calc_value_null_def [of k "Some v"])

theorem prompt_within_menus_witness:
  "expr_calc_value_null (mk_kconf (\<lambda>_. valued_symbol S_BOOLEAN Yes))
     (vexpr (pvisible (menu_add_prop symbol_yes (''Config.in'', 3) (1, ''Config.in'', 2) [None, Some (Symbol symbol_no)]
       P_PROMPT (Some '' Target'') None None))) = No"
  using prompt_within_menus [of "Symbol symbol_no" "[None, Some (Symbol symbol_no)]"
      "mk_kconf (\<lambda>_. valued_symbol S_BOOLEAN Yes)" symbol_yes "(''Config.in'', 3)" "(1, ''Config.in'', 2)" "'' Target''" None None]
  by (simp add: min_def order_antisym split: if_splits)

text \<open>The state in which \<^verbatim>\<open>m\<close> has the value of \<^verbatim>\<open>m && MODULES\<close>.\<close>

definition limit_mod :: "kconf \<Rightarrow> kconf" where
  "limit_mod k = put_sym symbol_mod (\<lambda>y. y\<lparr>curr := (curr y)
     \<lparr>tri := EXPR_AND (tri (curr y)) (tri (curr (symtab k (modules_sym k))))\<rparr>\<rparr>) k"



end
