(* ===== verification/Kconfig_Write.thy ===== *)
theory Kconfig_Write
  imports Kconfig_Menu
begin

text \<open>
  The files that \<^verbatim>\<open>support/kconfig/confdata.c\<close> writes: the configuration, the minimal
  configuration and the generated files, each as the text that goes to it; and the modes that give
  new symbols a value. The menus are visited in the order of the walk of \<open>Kconfig_Menu\<close>.
  Opening and renaming files are outside the model.
\<close>

section \<open>Writing a configuration\<close>

primrec emit :: "'a list \<Rightarrow> ('a \<Rightarrow> string kprog) \<Rightarrow> string kprog" where
  "emit [] f = ret []"
| "emit (x # xs) f = bnd (f x) (\<lambda>a. bnd (emit xs f) (\<lambda>b. ret (a @ b)))"

fun preorder :: "menu \<Rightarrow> menu list" and preorders :: "menu list \<Rightarrow> menu list" where
  "preorder (Menu m cs) = Menu m cs # preorders cs"
| "preorders [] = []"
| "preorders (c # cs) = preorder c @ preorders cs"

text \<open>A symbol is written once: its write flag is cleared.\<close>

definition take_write :: "calc \<Rightarrow> sym \<Rightarrow> bool kprog" where
  "take_write calc s =
     thn (calc s) (bnd (at s (\<lambda>y. SYMBOL_WRITE \<in> flags y)) (\<lambda>w.
       if w then thn (clear_flags s {SYMBOL_WRITE}) (ret True) else ret False))"

definition menu_comment :: "string \<Rightarrow> string" where
  "menu_comment str = newline @ ''#'' @ newline @ ''# '' @ str @ newline @ ''#'' @ newline"

fun write_entry :: "calc \<Rightarrow> string \<Rightarrow> menu \<Rightarrow> string kprog" where
  "write_entry calc pre (Menu m cs) = (case msym m of
       None \<Rightarrow>
         bnd (menu_is_visible calc (Menu m cs)) (\<lambda>v.
           if v then bnd (gets (\<lambda>k. menu_get_prompt k m)) (\<lambda>str. bnd (deref str) (\<lambda>t. ret (menu_comment t)))
           else ret [])
     | Some s \<Rightarrow>
         bnd (at s sym_is_choice) (\<lambda>ch. if ch then ret []
         else bnd (take_write calc s) (\<lambda>w.
           if w then conf_write_symbol calc (kconfig_print_symbol pre False) s else ret [])))"

definition conf_write :: "calc \<Rightarrow> string \<Rightarrow> string \<Rightarrow> menu list \<Rightarrow> string kprog" where
  "conf_write calc pre prompt ms =
     bnd (gets conf_get_changed) (\<lambda>c.
     thn (unless c (sym_clear_all_valid calc))
     (bnd (emit (preorders ms) (write_entry calc pre)) (\<lambda>t.
      thn (sym_set_change_count 0) (ret (conf_write_heading kconfig_print_comment prompt @ t)))))"

text \<open>The directory and the name of the file, as \<^verbatim>\<open>conf_write\<close> takes them from its argument.\<close>

definition split_path :: "(string \<Rightarrow> bool) \<Rightarrow> string \<Rightarrow> string \<Rightarrow> string \<times> string" where
  "split_path is_dir confname name =
     (if name = [] then ([], confname)
      else if is_dir name then (name @ ''/'', confname)
      else if CHR ''/'' \<in> set name then
        (let base = rev (takeWhile (\<lambda>c. c \<noteq> CHR ''/'') (rev name));
             dir = rev (dropWhile (\<lambda>c. c \<noteq> CHR ''/'') (rev name))
         in (dir, if base = [] then confname else base))
      else ([], name))"

section \<open>The minimal configuration\<close>

text \<open>Whether a member of a choice is what the choice defaults to.\<close>

definition is_choice_default :: "calc \<Rightarrow> sym \<Rightarrow> bool kprog" where
  "is_choice_default calc s =
     bnd (at s sym_is_choice_value) (\<lambda>cv. if \<not> cv then ret False
     else bnd (choice_of s) (\<lambda>c. bnd (deref c) (\<lambda>cs.
       bnd (sym_choice_default calc cs) (\<lambda>ds.
       bnd (at cs sym_is_optional) (\<lambda>opt.
       bnd (gets (\<lambda>k. symtab k s)) (\<lambda>y.
         ret (\<not> opt \<and> ds = Some s \<and> stype y = S_BOOLEAN \<and> tri (curr y) = Yes)))))))"

definition is_default :: "calc \<Rightarrow> sym \<Rightarrow> bool kprog" where
  "is_default calc s =
     bnd (sym_get_string_value_st calc s) (\<lambda>a.
     bnd (sym_get_string_default calc s) (\<lambda>b. strcmp_eq a b))"

fun write_default_entry :: "calc \<Rightarrow> string \<Rightarrow> menu \<Rightarrow> string kprog" where
  "write_default_entry calc pre (Menu m cs) = (case msym m of
       None \<Rightarrow> bnd (menu_is_visible calc (Menu m cs)) (\<lambda>_. ret [])
     | Some s \<Rightarrow>
         bnd (at s sym_is_choice) (\<lambda>ch. if ch then ret []
         else bnd (take_write calc s) (\<lambda>w. if \<not> w then ret []
         else bnd (gets (\<lambda>k. sym_is_changable k s)) (\<lambda>chg. if \<not> chg then ret []
         else bnd (is_default calc s) (\<lambda>d. if d then ret []
         else bnd (is_choice_default calc s) (\<lambda>cd. if cd then ret []
         else conf_write_symbol calc (kconfig_print_symbol pre False) s))))))"

definition conf_write_defconfig :: "calc \<Rightarrow> string \<Rightarrow> menu list \<Rightarrow> string kprog" where
  "conf_write_defconfig calc pre ms =
     thn (sym_clear_all_valid calc) (emit (preorders ms) (write_default_entry calc pre))"

section \<open>The generated files\<close>

definition tolower :: "char \<Rightarrow> char" where
  "tolower c = (if is_upper c then char_of (ascii c + 32) else c)"

definition header_path :: "string \<Rightarrow> string" where
  "header_path nm = map (\<lambda>c. let d = tolower c in if d = CHR ''_'' then CHR ''/'' else d) nm @ ''.h''"

text \<open>Whether the value of a symbol is the one in the generated files.\<close>

definition same_as_auto :: "calc \<Rightarrow> sym \<Rightarrow> bool kprog" where
  "same_as_auto calc s =
     bnd (gets (\<lambda>k. symtab k s)) (\<lambda>y.
       if SYMBOL_WRITE \<in> flags y then
         (if SYMBOL_DEF_AUTO \<in> flags y then
            (if stype y \<in> {S_BOOLEAN, S_TRISTATE} then ret (tri (curr y) = tri (def_auto y))
             else if stype y \<in> {S_STRING, S_HEX, S_INT} then
               bnd (sym_get_string_value_st calc s) (\<lambda>a. strcmp_eq a (val (def_auto y)))
             else ret False)
          else ret (stype y \<in> {S_BOOLEAN, S_TRISTATE} \<and> tri (curr y) = No))
       else ret (SYMBOL_DEF_AUTO \<notin> flags y))"

definition PATH_MAX :: nat where
  "PATH_MAX = 4096"

text \<open>The header to touch for a symbol.\<close>

definition split_symbol :: "calc \<Rightarrow> sym \<Rightarrow> string option kprog" where
  "split_symbol calc s =
     thn (calc s) (bnd (gets (\<lambda>k. symtab k s)) (\<lambda>y.
       case sname y of None \<Rightarrow> ret None
       | Some nm \<Rightarrow>
          if SYMBOL_AUTO \<in> flags y then ret None
          else bnd (same_as_auto calc s) (\<lambda>same. if same then ret None
          else thn (fits (header_path nm) (PATH_MAX + 1)) (ret (Some (header_path nm))))))"

primrec split_symbols :: "calc \<Rightarrow> sym list \<Rightarrow> string list kprog" where
  "split_symbols calc [] = ret []"
| "split_symbols calc (s # ss) =
     bnd (at s stype) (\<lambda>ty.
     bnd (if ty = S_OTHER then ret None else split_symbol calc s) (\<lambda>p.
     bnd (split_symbols calc ss) (\<lambda>ps. ret (case p of None \<Rightarrow> ps | Some q \<Rightarrow> q # ps))))"

definition conf_split_config ::
    "string \<Rightarrow> (string \<Rightarrow> string option) \<Rightarrow> calc \<Rightarrow> string \<Rightarrow> sym option \<Rightarrow> string \<Rightarrow> string list kprog" where
  "conf_split_config pre fopen calc confname dl autoname =
     bnd (conf_read_simple pre fopen calc confname dl (Some autoname) S_DEF_AUTO) (\<lambda>_.
     bnd (gets all_syms) (split_symbols calc))"

definition auto_symbol :: "calc \<Rightarrow> printer \<Rightarrow> printer \<Rightarrow> printer \<Rightarrow> sym \<Rightarrow> (string \<times> string \<times> string) kprog" where
  "auto_symbol calc p1 p2 p3 s =
     thn (calc s) (bnd (at s (\<lambda>y. SYMBOL_WRITE \<in> flags y \<and> sname y \<noteq> None)) (\<lambda>w.
       if \<not> w then ret ([], [], [])
       else bnd (conf_write_symbol calc p1 s) (\<lambda>a. bnd (conf_write_symbol calc p2 s) (\<lambda>b.
            bnd (conf_write_symbol calc p3 s) (\<lambda>c. ret (a, b, c))))))"

primrec auto_symbols :: "calc \<Rightarrow> printer \<Rightarrow> printer \<Rightarrow> printer \<Rightarrow> sym list \<Rightarrow> (string \<times> string \<times> string) kprog" where
  "auto_symbols calc p1 p2 p3 [] = ret ([], [], [])"
| "auto_symbols calc p1 p2 p3 (s # ss) =
     bnd (at s stype) (\<lambda>ty.
     bnd (if ty = S_OTHER then ret ([], [], []) else auto_symbol calc p1 p2 p3 s) (\<lambda>(a, b, c).
     bnd (auto_symbols calc p1 p2 p3 ss) (\<lambda>(as, bs, cs). ret (a @ as, b @ bs, c @ cs))))"

text \<open>The contents of \<^verbatim>\<open>auto.conf\<close>, \<^verbatim>\<open>tristate.conf\<close> and \<^verbatim>\<open>autoconf.h\<close>.\<close>

definition conf_write_autoconf ::
    "string \<Rightarrow> (string \<Rightarrow> string option) \<Rightarrow> calc \<Rightarrow> string \<Rightarrow> sym option \<Rightarrow> string \<Rightarrow> string
       \<Rightarrow> (string \<times> string \<times> string) kprog" where
  "conf_write_autoconf pre fopen calc confname dl autoname prompt =
     thn (sym_clear_all_valid calc)
     (thn (conf_split_config pre fopen calc confname dl autoname)
     (bnd (gets all_syms) (\<lambda>ss.
      bnd (auto_symbols calc (kconfig_print_symbol pre True) (tristate_print_symbol pre) (header_print_symbol pre) ss)
        (\<lambda>(a, b, c). ret (conf_write_heading kconfig_print_comment prompt @ a,
           conf_write_heading kconfig_print_comment prompt @ b,
           conf_write_heading header_print_comment prompt @ c)))))"

section \<open>Values for new symbols\<close>

datatype conf_def_mode = def_default | def_yes | def_mod | def_no | def_random

text \<open>\<^verbatim>\<open>strtol\<close> with base 10: the value as an \<^verbatim>\<open>int\<close> and what follows it.\<close>

definition strtol_rest :: "string \<Rightarrow> int \<times> string" where
  "strtol_rest s =
     (let s1 = dropWhile is_space s;
          s2 = (if s1 \<noteq> [] \<and> (hd s1 = CHR ''-'' \<or> hd s1 = CHR ''+'') then tl s1 else s1)
      in if s2 \<noteq> [] \<and> is_digit (hd s2)
         then (sint (word_of_int (strtoll 10 s) :: u32), dropWhile is_digit s2)
         else (0, s))"

text \<open>At most three numbers are read, separated by colons; none where one is not a percentage.\<close>

primrec read_percents :: "nat \<Rightarrow> string \<Rightarrow> int list option" where
  "read_percents 0 env = Some []"
| "read_percents (Suc n) env =
     (if env = [] then Some []
      else (case strtol_rest env of (tmp, endp) \<Rightarrow>
        if 0 \<le> tmp \<and> tmp \<le> 100 then
          map_option ((#) tmp) (read_percents n (case endp of c # r \<Rightarrow> if c = CHR '':'' then r else endp | [] \<Rightarrow> []))
        else None))"

text \<open>
  The probabilities in percent of y for a boolean, and of y and m for a tristate symbol; none where
  the process exits.
\<close>

definition probabilities :: "conf_def_mode \<Rightarrow> string option \<Rightarrow> (int \<times> int \<times> int) option" where
  "probabilities mode env =
     (if mode \<noteq> def_random then Some (50, 33, 33)
      else Option.bind (case env of None \<Rightarrow> Some [] | Some e \<Rightarrow> read_percents 3 e) (\<lambda>p.
        let (pby, pty, ptm) = (case p of
            [a] \<Rightarrow> (a, a - a div 2, a div 2)
          | [a, b] \<Rightarrow> (a + b, a, b)
          | [a, b, c] \<Rightarrow> (a, b, c)
          | _ \<Rightarrow> (50, 33, 33))
        in if pty + ptm > 100 then None else Some (pby, pty, ptm)))"

definition new_value :: "conf_def_mode \<Rightarrow> int \<times> int \<times> int \<Rightarrow> nat \<Rightarrow> symbol_type \<Rightarrow> tristate option" where
  "new_value mode probs r ty = (case mode of
       def_yes \<Rightarrow> Some Yes
     | def_mod \<Rightarrow> Some Mod
     | def_no \<Rightarrow> Some No
     | def_random \<Rightarrow>
         (case probs of (pby, pty, ptm) \<Rightarrow>
          let cnt = int (r mod 100) in
          Some (if ty = S_TRISTATE then (if cnt < pty then Yes else if cnt < pty + ptm then Mod else No)
                else if cnt < pby then Yes else No))
     | def_default \<Rightarrow> None)"

text \<open>The result tells whether the symbol counts as changed.\<close>

definition set_new_symbol :: "conf_def_mode \<Rightarrow> int \<times> int \<times> int \<Rightarrow> (sym \<Rightarrow> nat) \<Rightarrow> sym \<Rightarrow> bool kprog" where
  "set_new_symbol mode probs rnd s =
     bnd (gets (\<lambda>k. (symtab k s, sym_get_type k s))) (\<lambda>(y, ty).
       if sym_has_value y \<or> SYMBOL_VALID \<in> flags y then ret False
       else if ty \<in> {S_BOOLEAN, S_TRISTATE} then
         (case new_value mode probs (rnd s) (stype y) of
            None \<Rightarrow> ret True
          | Some v \<Rightarrow>
             thn (upd s (\<lambda>z. z\<lparr>def_user := (def_user z)\<lparr>tri := v\<rparr>\<rparr>))
             (thn (unless (sym_is_choice y \<and> mode = def_random) (set_flags s {SYMBOL_DEF_USER})) (ret True)))
       else ret False)"

primrec fold_symbols :: "(bool \<Rightarrow> sym \<Rightarrow> bool kprog) \<Rightarrow> bool \<Rightarrow> sym list \<Rightarrow> bool kprog" where
  "fold_symbols f b [] = ret b"
| "fold_symbols f b (s # ss) =
     bnd (at s stype) (\<lambda>ty. bnd (if ty = S_OTHER then ret b else f b s) (\<lambda>c. fold_symbols f c ss))"

primrec randomize_members :: "sym \<Rightarrow> nat \<Rightarrow> nat \<Rightarrow> sym list \<Rightarrow> unit kprog" where
  "randomize_members c d cnt [] = ret ()"
| "randomize_members c d cnt (s # ss) =
     thn (if d = cnt
          then thn (upd s (\<lambda>y. y\<lparr>def_user := (def_user y)\<lparr>tri := Yes\<rparr>\<rparr>))
                 (upd c (\<lambda>y. y\<lparr>def_user := (def_user y)\<lparr>val := V_sym s\<rparr>\<rparr>))
          else upd s (\<lambda>y. y\<lparr>def_user := (def_user y)\<lparr>tri := No\<rparr>\<rparr>))
     (thn (set_flags s {SYMBOL_DEF_USER})
     (thn (clear_flags s {SYMBOL_VALID})
       (randomize_members c d (Suc cnt) ss)))"

text \<open>The argument \<open>r\<close> is what \<^verbatim>\<open>rand()\<close> gives; an empty choice is a division by zero.\<close>

definition randomize_choice_values :: "nat \<Rightarrow> sym \<Rightarrow> bool kprog" where
  "randomize_choice_values r c =
     bnd (at c (\<lambda>y. tri (curr y))) (\<lambda>t. if t \<noteq> Yes then ret False
     else bnd (choice_syms c) (\<lambda>ss. if ss = [] then crash
     else
       thn (randomize_members c (r mod length ss) 0 ss)
       (thn (set_flags c {SYMBOL_DEF_USER})
       (thn (clear_flags c {SYMBOL_VALID}) (ret True)))))"

definition set_new_choice :: "calc \<Rightarrow> conf_def_mode \<Rightarrow> (sym \<Rightarrow> nat) \<Rightarrow> bool \<Rightarrow> sym \<Rightarrow> bool kprog" where
  "set_new_choice calc mode rnd b c =
     bnd (at c (\<lambda>y. sym_has_value y \<or> \<not> sym_is_choice y)) (\<lambda>skip. if skip then ret b
     else thn (calc c)
       (if mode = def_random then randomize_choice_values (rnd c) c
        else thn (set_all_choice_values c) (ret True)))"

definition mark_new_choices :: "unit kprog" where
  "mark_new_choices = upd_all (\<lambda>y.
     if sym_is_choice y \<and> \<not> sym_has_value y \<or> sym_is_choice_value y
     then y\<lparr>flags := insert SYMBOL_NEED_SET_CHOICE_VALUES (flags y)\<rparr> else y)"

text \<open>None where the process exits; the two functions give the random numbers of the two loops.\<close>

definition conf_set_all_new_symbols ::
    "calc \<Rightarrow> string option \<Rightarrow> (sym \<Rightarrow> nat) \<Rightarrow> (sym \<Rightarrow> nat) \<Rightarrow> conf_def_mode \<Rightarrow> bool option kprog" where
  "conf_set_all_new_symbols calc env rnd1 rnd2 mode = (case probabilities mode env of
       None \<Rightarrow> ret None
     | Some probs \<Rightarrow>
        bnd (gets all_syms) (\<lambda>ss.
        bnd (fold_symbols (\<lambda>b s. bnd (set_new_symbol mode probs rnd1 s) (\<lambda>c. ret (b \<or> c))) False ss) (\<lambda>changed.
        thn (sym_clear_all_valid calc)
        (thn (unless (mode = def_random) mark_new_choices)
        (bnd (gets all_syms) (\<lambda>cs.
         bnd (fold_symbols (set_new_choice calc mode rnd2) changed cs) (\<lambda>r. ret (Some r))))))))"

section \<open>Properties\<close>

lemma upd_run: "upd s f k = Ok ((), put_sym s f k)"
  "set_flags s F k = Ok ((), put_sym s (\<lambda>y. y\<lparr>flags := flags y \<union> F\<rparr>) k)"
  "clear_flags s F k = Ok ((), put_sym s (\<lambda>y. y\<lparr>flags := flags y - F\<rparr>) k)"
  by (simp_all add: upd_def set_flags_def clear_flags_def modify_def)

lemma run_simps [simp]: "thn m m' k = (case m k of Ok (a, l) \<Rightarrow> m' l | Crash \<Rightarrow> Crash | NoFuel \<Rightarrow> NoFuel)"
  "ret a k = Ok (a, k)" "at s g k = Ok (g (symtab k s), k)"
  by (simp_all add: thn_def bnd_def ret_def at_def gets_def)

definition member_set :: "kconf \<Rightarrow> sym \<Rightarrow> tristate \<Rightarrow> bool" where
  "member_set k s t \<longleftrightarrow> tri (def_user (symtab k s)) = t \<and> sym_has_value (symtab k s)
     \<and> SYMBOL_VALID \<notin> flags (symtab k s)"

lemma randomize_members_ok:
  assumes "distinct ss" and "c \<notin> set ss"
  shows "\<exists>l. randomize_members c d n ss k = Ok ((), l)
    \<and> (\<forall>i < length ss. member_set l (ss ! i) (if n + i = d then Yes else No))
    \<and> (\<forall>s. s \<notin> set ss \<and> s \<noteq> c \<longrightarrow> symtab l s = symtab k s)
    \<and> val (def_user (symtab l c)) =
        (if n \<le> d \<and> d < n + length ss then V_sym (ss ! (d - n)) else val (def_user (symtab k c)))"
  using assms
proof (induction ss arbitrary: n k)
  case (Cons s ss)
  let ?f = "\<lambda>y. y\<lparr>def_user := (def_user y)\<lparr>tri := if d = n then Yes else No\<rparr>,
      flags := (flags y \<union> {SYMBOL_DEF_USER}) - {SYMBOL_VALID}\<rparr>"
  let ?g = "\<lambda>y. if d = n then y\<lparr>def_user := (def_user y)\<lparr>val := V_sym s\<rparr>\<rparr> else y"
  let ?k = "put_sym s ?f (put_sym c ?g k)"
  let ?F = "\<lambda>k. put_sym s (\<lambda>y. y\<lparr>flags := flags y - {SYMBOL_VALID}\<rparr>) (put_sym s (\<lambda>y. y\<lparr>flags := flags y \<union> {SYMBOL_DEF_USER}\<rparr>) k)"
  have e: "d = n \<Longrightarrow> ?F (put_sym c (\<lambda>y. y\<lparr>def_user := (def_user y)\<lparr>val := V_sym s\<rparr>\<rparr>)
        (put_sym s (\<lambda>y. y\<lparr>def_user := (def_user y)\<lparr>tri := Yes\<rparr>\<rparr>) k)) = ?k"
    "d \<noteq> n \<Longrightarrow> ?F (put_sym s (\<lambda>y. y\<lparr>def_user := (def_user y)\<lparr>tri := No\<rparr>\<rparr>) k) = ?k"
    using Cons.prems by (auto simp: put_sym_def fun_eq_iff intro!: kconf.equality)
  have step: "randomize_members c d n (s # ss) k = randomize_members c d (Suc n) ss ?k"
    using e by (cases "d = n") (simp_all add: upd_run)
  obtain l where l: "randomize_members c d (Suc n) ss ?k = Ok ((), l)"
    "\<forall>i < length ss. member_set l (ss ! i) (if Suc n + i = d then Yes else No)"
    "\<forall>t. t \<notin> set ss \<and> t \<noteq> c \<longrightarrow> symtab l t = symtab ?k t"
    "val (def_user (symtab l c)) =
        (if Suc n \<le> d \<and> d < Suc n + length ss then V_sym (ss ! (d - Suc n)) else val (def_user (symtab ?k c)))"
    using Cons.IH [of "Suc n" ?k] Cons.prems by auto
  have s: "member_set l s (if n = d then Yes else No)"
    using l(3) Cons.prems by (auto simp: member_set_def put_sym_def sym_has_value_def)
  have "member_set l ((s # ss) ! i) (if n + i = d then Yes else No)" if "i < length (s # ss)" for i
    using that l(2) s by (cases i) auto
  moreover have "val (def_user (symtab l c)) =
      (if n \<le> d \<and> d < n + length (s # ss) then V_sym ((s # ss) ! (d - n)) else val (def_user (symtab k c)))"
    using l(4) Cons.prems by (auto simp: put_sym_def nth_Cons')
  ultimately show ?case
    using l(1,3) step by (auto simp: put_sym_def)
qed (auto simp: ret_def)

text \<open>
  C29. Randomizing a choice whose value is y selects exactly one of its members, the one the random
  number points to: that member is set to y and recorded in the choice, all others are set to n,
  all of them get a user value, and their values will be calculated anew.
\<close>

theorem randomize_selects_one:
  assumes "tri (curr (symtab k c)) = Yes" and "choice_syms c k = Ok (ss, k)"
    and "ss \<noteq> []" and "distinct ss" and "c \<notin> set ss"
  shows "\<exists>l. randomize_choice_values r c k = Ok (True, l)
    \<and> (\<forall>i < length ss. member_set l (ss ! i) (if i = r mod length ss then Yes else No))
    \<and> val (def_user (symtab l c)) = V_sym (ss ! (r mod length ss)) \<and> sym_has_value (symtab l c)"
proof -
  let ?d = "r mod length ss"
  have d: "?d < length ss" using assms(3) by simp
  obtain l where l: "randomize_members c ?d 0 ss k = Ok ((), l)"
    "\<forall>i < length ss. member_set l (ss ! i) (if i = ?d then Yes else No)"
    "val (def_user (symtab l c)) = V_sym (ss ! ?d)"
    using randomize_members_ok [OF assms(4,5), of ?d 0 k] d by auto
  let ?l = "put_sym c (\<lambda>y. y\<lparr>flags := flags y - {SYMBOL_VALID}\<rparr>) (put_sym c (\<lambda>y. y\<lparr>flags := flags y \<union> {SYMBOL_DEF_USER}\<rparr>) l)"
  have "randomize_choice_values r c k = Ok (True, ?l)"
    using assms(1-3) l(1) by (simp add: randomize_choice_values_def bnd_def upd_run)
  moreover have "symtab ?l (ss ! i) = symtab l (ss ! i)" if "i < length ss" for i
    using that assms(5) by (auto simp: put_sym_def)
  ultimately show ?thesis
    using l(2,3) by (auto simp: member_set_def put_sym_def sym_has_value_def)
qed

definition choice_kconf :: kconf where
  "choice_kconf = mk_kconf (\<lambda>n. if n = 0
     then (new_symbol None {SYMBOL_CHOICE, SYMBOL_VALID})\<lparr>stype := S_BOOLEAN, curr := \<lparr>val = V_null, tri = Yes\<rparr>,
        props := [\<lparr>ptype = P_CHOICE, ptext = None, pvisible = no_expr,
           pexpr = Some (EList (Some (EList None (Some (Sym 2)))) (Some (Sym 1))),
           ppos = (''Config.in'', 1), pmenu = None\<rparr>]\<rparr>
     else (new_symbol (Some ''A'') {SYMBOL_CHOICEVAL, SYMBOL_VALID})\<lparr>stype := S_BOOLEAN\<rparr>)"

theorem randomize_selects_one_witness:
  "\<exists>l. randomize_choice_values 7 (Sym 0) choice_kconf = Ok (True, l)
     \<and> member_set l (Sym 1) No \<and> member_set l (Sym 2) Yes"
proof -
  have "tri (curr (symtab choice_kconf (Sym 0))) = Yes"
    and "choice_syms (Sym 0) choice_kconf = Ok ([Sym 1, Sym 2], choice_kconf)"
    by (simp_all add: choice_kconf_def choice_syms_def bnd_def sym_get_choice_prop_def deref_def)
  note c = this
  have m: "7 mod length [Sym 1, Sym 2] = 1" by code_simp
  obtain l where l: "randomize_choice_values 7 (Sym 0) choice_kconf = Ok (True, l)"
    "\<forall>i < length [Sym 1, Sym 2]. member_set l ([Sym 1, Sym 2] ! i) (if i = 1 then Yes else No)"
    using randomize_selects_one [OF c, of 7, unfolded m] by auto
  have "member_set l (Sym 1) No" using l(2) [rule_format, of 0] by simp
  moreover have "member_set l (Sym 2) Yes" using l(2) [rule_format, of 1] by simp
  ultimately show ?thesis using l(1) by blast
qed

end
