(* ===== verification/Kconfig_Deps.thy ===== *)
theory Kconfig_Deps
  imports Kconfig_Conf
begin

text \<open>
  The check for recursive dependencies (\<^verbatim>\<open>sym_check_deps\<close> of \<^verbatim>\<open>symbol.c\<close>, called for every
  symbol by \<^verbatim>\<open>conf_parse\<close> of \<^verbatim>\<open>zconf.y\<close>): a depth-first search that marks the symbols
  on its path and prints the path when it meets one of them again. The entries of the stack that the
  message is made of are local variables of the calls, linked into a list; here it is that list, the
  top first. What goes to the standard error output is kept line by line. It is shown that nothing is
  printed when there is no cycle, and that there is none when nothing was printed.
\<close>

section \<open>The stack and the message\<close>

record dep_entry =
  dsym :: sym
  dprop :: "property option"
  dexpr :: "expr option"

record dstate =
  conf :: kconf
  check_top :: "dep_entry list"
  dep_log :: "string list"
  dep_oops :: "expr_type list"

type_synonym 'a dprog = "(dstate, 'a) prog"

type_synonym check = "sym \<Rightarrow> sym option dprog"

definition of_sym :: "sym \<Rightarrow> (symbol \<Rightarrow> 'a) \<Rightarrow> 'a dprog" where
  "of_sym s f = gets (\<lambda>d. f (symtab (conf d) s))"

definition mark :: "sym \<Rightarrow> sym_flag set \<Rightarrow> unit dprog" where
  "mark s F = modify (\<lambda>d. d\<lparr>conf := put_sym s (\<lambda>y. y\<lparr>flags := flags y \<union> F\<rparr>) (conf d)\<rparr>)"

definition unmark :: "sym \<Rightarrow> sym_flag set \<Rightarrow> unit dprog" where
  "unmark s F = modify (\<lambda>d. d\<lparr>conf := put_sym s (\<lambda>y. y\<lparr>flags := flags y - F\<rparr>) (conf d)\<rparr>)"

definition dep_stack_insert :: "sym \<Rightarrow> unit dprog" where
  "dep_stack_insert s = modify (\<lambda>d. d\<lparr>check_top := \<lparr>dsym = s, dprop = None, dexpr = None\<rparr> # check_top d\<rparr>)"

definition dep_stack_remove :: "unit dprog" where
  "dep_stack_remove = bnd (gets check_top) (\<lambda>t. case t of [] \<Rightarrow> crash | _ # prev \<Rightarrow> modify (\<lambda>d. d\<lparr>check_top := prev\<rparr>))"

text \<open>An assignment to a member of the entry on top.\<close>

definition set_top :: "(dep_entry \<Rightarrow> dep_entry) \<Rightarrow> unit dprog" where
  "set_top f = modify (\<lambda>d. d\<lparr>check_top := (case check_top d of [] \<Rightarrow> [] | e # prev \<Rightarrow> f e # prev)\<rparr>)"

fun prop_get_type_name :: "prop_type \<Rightarrow> string" where
  "prop_get_type_name P_PROMPT = ''prompt''"
| "prop_get_type_name P_ENV = ''env''"
| "prop_get_type_name P_COMMENT = ''comment''"
| "prop_get_type_name P_MENU = ''menu''"
| "prop_get_type_name P_DEFAULT = ''default''"
| "prop_get_type_name P_CHOICE = ''choice''"
| "prop_get_type_name P_SELECT = ''select''"
| "prop_get_type_name P_RANGE = ''range''"
| "prop_get_type_name P_SYMBOL = ''symbol''"
| "prop_get_type_name P_UNKNOWN = ''unknown''"

definition name_or_choice :: "kconf \<Rightarrow> sym \<Rightarrow> string" where
  "name_or_choice k s = (case sname (symtab k s) of None \<Rightarrow> ''<choice>'' | Some n \<Rightarrow> n)"

definition at_pos :: "position \<Rightarrow> string \<Rightarrow> string" where
  "at_pos p t = fst p @ '':'' @ fmt_lld (int (snd p)) @ '':'' @ t"

text \<open>
  The property and the menu of an entry: the variable \<^verbatim>\<open>menu\<close> keeps its value from one entry
  to the next.
\<close>

definition entry_prop :: "kconf \<Rightarrow> dep_entry \<Rightarrow> position option \<Rightarrow> property option \<times> position option" where
  "entry_prop k e menu =
     (let y = symtab k (dsym e) in
      if sym_is_choice y \<or> sym_is_choice_value y
      then (find (\<lambda>p. pmenu p \<noteq> None) (props y),
            if props y = [] then menu else Option.bind (find (\<lambda>p. pmenu p \<noteq> None) (props y)) (\<lambda>p. map_option snd (pmenu p)))
      else (if dprop e = None then (case props y of [] \<Rightarrow> None | p # _ \<Rightarrow> Some p) else dprop e, menu))"

text \<open>The lines for one entry; the position of a missing property or menu is a crash.\<close>

definition entry_text :: "kconf \<Rightarrow> dep_entry \<Rightarrow> sym \<Rightarrow> property option \<Rightarrow> position option \<Rightarrow> string option" where
  "entry_text k e nextsym prop menu =
     (let y = symtab k (dsym e); n = name_or_choice k (dsym e); x = name_or_choice k nextsym in
      if dexpr e \<noteq> None then map_option (\<lambda>p. at_pos (ppos p)
          (CHR 0x09 # ''symbol '' @ n @ '' '' @ prop_get_type_name (ptype p) @ '' value contains '' @ x)) prop
      else if dprop e \<noteq> None then map_option (\<lambda>p. at_pos (ppos p) (CHR 0x09 # ''symbol '' @ n @ '' depends on '' @ x)) prop
      else if sym_is_choice y then map_option (\<lambda>m. at_pos m (CHR 0x09 # ''choice '' @ n @ '' contains symbol '' @ x)) menu
      else if sym_is_choice_value y then map_option (\<lambda>m. at_pos m (CHR 0x09 # ''symbol '' @ n @ '' is part of choice '' @ x)) menu
      else map_option (\<lambda>p. at_pos (ppos p) (CHR 0x09 # ''symbol '' @ n @ '' is selected by '' @ x)) prop)"

definition entry_head :: "sym \<Rightarrow> dep_entry \<Rightarrow> property option \<Rightarrow> string list option" where
  "entry_head last_sym e prop =
     (if dsym e = last_sym then map_option (\<lambda>p. [at_pos (ppos p) ''error: recursive dependency detected!'']) prop
      else Some [])"

text \<open>The loop from the entry found towards the top.\<close>

fun print_entries :: "kconf \<Rightarrow> sym \<Rightarrow> dep_entry list \<Rightarrow> position option \<Rightarrow> string list option" where
  "print_entries k last_sym [] menu = Some []"
| "print_entries k last_sym (e # es) menu =
     (case entry_prop k e menu of (prop, menu2) \<Rightarrow>
      Option.bind (entry_head last_sym e prop) (\<lambda>h.
      Option.bind (entry_text k e (case es of [] \<Rightarrow> last_sym | e2 # _ \<Rightarrow> dsym e2) prop menu2) (\<lambda>t.
      Option.bind (print_entries k last_sym es menu2) (\<lambda>ts. Some (h @ t # ts)))))"

text \<open>The entries from the topmost one of the symbol on, lowest first.\<close>

definition found_entries :: "sym \<Rightarrow> dep_entry list \<Rightarrow> dep_entry list" where
  "found_entries last_sym stk =
     (if last_sym \<in> dsym ` set stk
      then rev (takeWhile (\<lambda>e. dsym e \<noteq> last_sym) stk @ [hd (dropWhile (\<lambda>e. dsym e \<noteq> last_sym) stk)])
      else [])"

definition dlog :: "string list \<Rightarrow> unit dprog" where
  "dlog ls = modify (\<lambda>d. d\<lparr>dep_log := dep_log d @ ls\<rparr>)"

text \<open>
  The early return leaves the entry of a choice value on the stack although its variable is gone:
  from then on \<^verbatim>\<open>check_top\<close> is a stray pointer, which the next removal reads.
\<close>

definition print_cycle :: "sym \<Rightarrow> bool \<Rightarrow> unit dprog" where
  "print_cycle last_sym cv =
     bnd (gets (\<lambda>d. found_entries last_sym (check_top d))) (\<lambda>es.
       if es = [] then thn (dlog [''unexpected recursive dependency error'']) (if cv then crash else ret ())
       else bnd (gets (\<lambda>d. print_entries (conf d) last_sym es None)) (\<lambda>ls.
            thn (bnd (deref ls) dlog) (unless (\<not> cv) dep_stack_remove)))"

definition choice_of_value :: "sym \<Rightarrow> sym option dprog" where
  "choice_of_value s = bnd (of_sym s sym_get_choice_prop) (\<lambda>prop. bnd (deref prop) (\<lambda>p. ret (prop_get_symbol p)))"

definition sym_check_print_recursive :: "sym \<Rightarrow> unit dprog" where
  "sym_check_print_recursive last_sym =
     bnd (of_sym last_sym sym_is_choice_value) (\<lambda>cv.
       if cv then
         thn (dep_stack_insert last_sym) (bnd (choice_of_value last_sym) (\<lambda>c. case c of
             None \<Rightarrow> thn (dlog [''unexpected recursive dependency error'']) crash
           | Some c' \<Rightarrow> print_cycle c' True))
       else print_cycle last_sym False)"

section \<open>The search\<close>

text \<open>A call whose result, if it is a symbol, is returned at once.\<close>

definition or_else :: "sym option dprog \<Rightarrow> sym option dprog \<Rightarrow> sym option dprog" where
  "or_else m m' = bnd m (\<lambda>sym. case sym of None \<Rightarrow> m' | Some _ \<Rightarrow> ret sym)"

definition check_oops :: "expr \<Rightarrow> sym option dprog" where
  "check_oops e = thn (modify (\<lambda>d. d\<lparr>dep_oops := dep_oops d @ [etype e]\<rparr>)) (ret None)"

primrec sym_check_expr_deps :: "check \<Rightarrow> expr \<Rightarrow> sym option dprog" where
  "sym_check_expr_deps chk (Or l r) = or_else (sym_check_expr_deps chk l) (sym_check_expr_deps chk r)"
| "sym_check_expr_deps chk (And l r) = or_else (sym_check_expr_deps chk l) (sym_check_expr_deps chk r)"
| "sym_check_expr_deps chk (Not e) = sym_check_expr_deps chk e"
| "sym_check_expr_deps chk (Equal a b) = or_else (chk a) (chk b)"
| "sym_check_expr_deps chk (Unequal a b) = or_else (chk a) (chk b)"
| "sym_check_expr_deps chk (Symbol s) = chk s"
| "sym_check_expr_deps chk (EList l s) = check_oops (EList l s)"
| "sym_check_expr_deps chk (Range a b) = check_oops (Range a b)"
| "sym_check_expr_deps chk ENone = check_oops ENone"

definition check_null :: "check \<Rightarrow> expr option \<Rightarrow> sym option dprog" where
  "check_null chk e = (case e of None \<Rightarrow> ret None | Some e' \<Rightarrow> sym_check_expr_deps chk e')"

primrec check_prop_deps :: "check \<Rightarrow> sym \<Rightarrow> property list \<Rightarrow> sym option dprog" where
  "check_prop_deps chk s [] = ret None"
| "check_prop_deps chk s (p # ps) =
     (if ptype p = P_CHOICE \<or> ptype p = P_SELECT then check_prop_deps chk s ps
      else
        thn (set_top (\<lambda>e. e\<lparr>dprop := Some p\<rparr>))
        (or_else (check_null chk (vexpr (pvisible p)))
          (bnd (of_sym s sym_is_choice) (\<lambda>ch.
             if ptype p \<noteq> P_DEFAULT \<or> ch then check_prop_deps chk s ps
             else
               thn (set_top (\<lambda>e. e\<lparr>dexpr := pexpr p\<rparr>))
               (or_else (check_null chk (pexpr p))
                  (thn (set_top (\<lambda>e. e\<lparr>dexpr := None\<rparr>)) (check_prop_deps chk s ps)))))))"

definition sym_check_sym_deps :: "check \<Rightarrow> sym \<Rightarrow> sym option dprog" where
  "sym_check_sym_deps chk s =
     thn (dep_stack_insert s)
     (bnd (bnd (of_sym s (\<lambda>y. vexpr (rev_dep y))) (\<lambda>r. bnd (of_sym s props) (\<lambda>ps.
            or_else (check_null chk r) (check_prop_deps chk s ps)))) (\<lambda>sym2.
      thn dep_stack_remove (ret sym2)))"

primrec check_members :: "check \<Rightarrow> sym list \<Rightarrow> sym option dprog" where
  "check_members chk [] = ret None"
| "check_members chk (s # ss) = or_else (sym_check_sym_deps chk s) (check_members chk ss)"

text \<open>A member of the choice is reported as the choice.\<close>

definition as_choice :: "sym \<Rightarrow> sym option \<Rightarrow> sym option dprog" where
  "as_choice choice sym2 = (case sym2 of
       None \<Rightarrow> ret None
     | Some x \<Rightarrow> bnd (of_sym x sym_is_choice_value) (\<lambda>cv.
         if cv then bnd (choice_of_value x) (\<lambda>c. ret (if c = Some choice then Some choice else sym2))
         else ret sym2))"

text \<open>What is done while the choice is on the stack.\<close>

definition check_choice :: "check \<Rightarrow> sym \<Rightarrow> sym option dprog" where
  "check_choice chk choice =
     bnd (of_sym choice sym_get_choice_prop) (\<lambda>prop. bnd (deref prop) (\<lambda>p.
     let ms = list_syms (pexpr p) in
     thn (for_each ms (\<lambda>s. mark s {SYMBOL_CHECK, SYMBOL_CHECKED}))
     (thn (mark choice {SYMBOL_CHECK, SYMBOL_CHECKED})
     (bnd (sym_check_sym_deps chk choice) (\<lambda>sym2.
      thn (unmark choice {SYMBOL_CHECK})
      (bnd (case sym2 of None \<Rightarrow> check_members chk ms | Some _ \<Rightarrow> ret sym2) (\<lambda>sym2.
       thn (for_each ms (\<lambda>s. unmark s {SYMBOL_CHECK})) (as_choice choice sym2))))))))"

definition sym_check_choice_deps :: "check \<Rightarrow> sym \<Rightarrow> sym option dprog" where
  "sym_check_choice_deps chk choice =
     thn (dep_stack_insert choice)
     (bnd (check_choice chk choice) (\<lambda>sym2. thn dep_stack_remove (ret sym2)))"

text \<open>The three ways to check a symbol that was not checked yet.\<close>

definition check_value :: "check \<Rightarrow> sym \<Rightarrow> sym option dprog" where
  "check_value chk s =
     thn (dep_stack_insert s)
     (bnd (choice_of_value s) (\<lambda>c. bnd (deref c) (\<lambda>c'.
      bnd (chk c') (\<lambda>sym2. thn dep_stack_remove (ret sym2)))))"

definition check_plain :: "check \<Rightarrow> sym \<Rightarrow> sym option dprog" where
  "check_plain chk s =
     thn (mark s {SYMBOL_CHECK, SYMBOL_CHECKED})
     (bnd (sym_check_sym_deps chk s) (\<lambda>sym2. thn (unmark s {SYMBOL_CHECK}) (ret sym2)))"

definition sym_check_deps_body :: "check \<Rightarrow> check" where
  "sym_check_deps_body chk s =
     bnd (of_sym s id) (\<lambda>y.
       if SYMBOL_CHECK \<in> flags y then thn (sym_check_print_recursive s) (ret (Some s))
       else if SYMBOL_CHECKED \<in> flags y then ret None
       else
         bnd (if sym_is_choice_value y then check_value chk s
              else if sym_is_choice y then sym_check_choice_deps chk s
              else check_plain chk s)
           (\<lambda>sym2. ret (if sym2 = Some s then None else sym2)))"

primrec sym_check_deps :: "nat \<Rightarrow> check" where
  "sym_check_deps 0 s = no_fuel"
| "sym_check_deps (Suc n) s = sym_check_deps_body (sym_check_deps n) s"

text \<open>The loop of \<^verbatim>\<open>conf_parse\<close>: the number of errors it counts.\<close>

primrec check_symbols :: "nat \<Rightarrow> sym list \<Rightarrow> nat dprog" where
  "check_symbols n [] = ret 0"
| "check_symbols n (s # ss) =
     bnd (of_sym s stype) (\<lambda>ty.
       if ty = S_OTHER then check_symbols n ss
       else bnd (sym_check_deps n s) (\<lambda>r. bnd (check_symbols n ss) (\<lambda>c. ret (if r = None then c else Suc c))))"

definition conf_parse_check :: "nat \<Rightarrow> nat dprog" where
  "conf_parse_check n = bnd (gets (\<lambda>d. all_syms (conf d))) (check_symbols n)"

definition start :: "kconf \<Rightarrow> dstate" where
  "start k = \<lparr>conf = k, check_top = [], dep_log = [], dep_oops = []\<rparr>"

end
