(* ===== verification/Kconfig_Cycles.thy ===== *)
theory Kconfig_Cycles
  imports Kconfig_Deps "HOL-Library.Sublist"
begin

text \<open>
  What the search of \<open>Kconfig_Deps\<close> finds. The dependencies are two relations between symbols: a
  cycle of the smaller one is always reported, and a report means a cycle of the larger one. They
  differ only in what a choice depends on, and agree where no other symbol depends on a choice.
\<close>

section \<open>Dependencies\<close>

fun expr_syms :: "expr \<Rightarrow> sym set" where
  "expr_syms (Or l r) = expr_syms l \<union> expr_syms r"
| "expr_syms (And l r) = expr_syms l \<union> expr_syms r"
| "expr_syms (Not e) = expr_syms e"
| "expr_syms (Equal a b) = {a, b}"
| "expr_syms (Unequal a b) = {a, b}"
| "expr_syms (Symbol s) = {s}"
| "expr_syms _ = {}"

definition null_syms :: "expr option \<Rightarrow> sym set" where
  "null_syms e = (case e of None \<Rightarrow> {} | Some e' \<Rightarrow> expr_syms e')"

definition prop_deps :: "bool \<Rightarrow> property \<Rightarrow> sym set" where
  "prop_deps ch p =
     (if ptype p = P_CHOICE \<or> ptype p = P_SELECT then {}
      else null_syms (vexpr (pvisible p)) \<union> (if ptype p = P_DEFAULT \<and> \<not> ch then null_syms (pexpr p) else {}))"

definition direct_deps :: "kconf \<Rightarrow> sym \<Rightarrow> sym set" where
  "direct_deps k s = (let y = symtab k s in
     null_syms (vexpr (rev_dep y)) \<union> (\<Union>p \<in> set (props y). prop_deps (sym_is_choice y) p))"

definition choice_of :: "kconf \<Rightarrow> sym \<Rightarrow> sym option" where
  "choice_of k s = Option.bind (sym_get_choice_prop (symtab k s)) prop_get_symbol"

definition members :: "kconf \<Rightarrow> sym \<Rightarrow> sym list" where
  "members k c = (case sym_get_choice_prop (symtab k c) of None \<Rightarrow> [] | Some p \<Rightarrow> list_syms (pexpr p))"

definition group_deps :: "kconf \<Rightarrow> sym \<Rightarrow> sym set" where
  "group_deps k c = (\<Union>m \<in> set (members k c). direct_deps k m)"

text \<open>
  A member of a choice depends on the choice and on all that any of its members depends on; in the
  larger relation the choice itself depends on the latter, too.
\<close>

definition depends :: "kconf \<Rightarrow> sym \<Rightarrow> sym \<Rightarrow> bool" where
  "depends k s t \<longleftrightarrow>
     (if sym_is_choice_value (symtab k s)
      then (case choice_of k s of None \<Rightarrow> False | Some c \<Rightarrow> t = c \<or> t \<in> group_deps k c)
      else t \<in> direct_deps k s)"

definition may_depend :: "kconf \<Rightarrow> sym \<Rightarrow> sym \<Rightarrow> bool" where
  "may_depend k s t \<longleftrightarrow> depends k s t \<or> sym_is_choice (symtab k s) \<and> t \<in> group_deps k s \<and> t \<noteq> s"

definition dep_rel :: "kconf \<Rightarrow> sym set \<Rightarrow> (sym \<times> sym) set" where
  "dep_rel k U = {(s, t). s \<in> U \<and> depends k s t}"

definition may_rel :: "kconf \<Rightarrow> sym set \<Rightarrow> (sym \<times> sym) set" where
  "may_rel k U = {(s, t). s \<in> U \<and> may_depend k s t}"

text \<open>
  A finite set of symbols closed under dependencies, in which choices and their members know each
  other.
\<close>

definition choices_ok :: "kconf \<Rightarrow> sym set \<Rightarrow> bool" where
  "choices_ok k U \<longleftrightarrow> (\<forall>s \<in> U.
     (sym_is_choice_value (symtab k s) \<longrightarrow>
        (\<exists>c \<in> U. choice_of k s = Some c \<and> sym_is_choice (symtab k c) \<and> s \<in> set (members k c)))
     \<and> (sym_is_choice (symtab k s) \<longrightarrow>
        \<not> sym_is_choice_value (symtab k s) \<and> sym_get_choice_prop (symtab k s) \<noteq> None
        \<and> (\<forall>m \<in> set (members k s). m \<in> U \<and> sym_is_choice_value (symtab k m) \<and> choice_of k m = Some s)))"

definition deps_ok :: "kconf \<Rightarrow> sym set \<Rightarrow> bool" where
  "deps_ok k U \<longleftrightarrow> finite U \<and> (\<forall>s \<in> U. direct_deps k s \<subseteq> U) \<and> choices_ok k U"

lemma choice_valueD:
  assumes "deps_ok k U" and "s \<in> U" and "sym_is_choice_value (symtab k s)"
  obtains c where "c \<in> U" "choice_of k s = Some c" "sym_is_choice (symtab k c)" "s \<in> set (members k c)"
    "\<not> sym_is_choice_value (symtab k c)"
proof -
  obtain c where c: "c \<in> U" "choice_of k s = Some c" "sym_is_choice (symtab k c)" "s \<in> set (members k c)"
    using assms by (auto simp: deps_ok_def choices_ok_def)
  moreover have "\<not> sym_is_choice_value (symtab k c)" using assms(1) c(1,3) by (auto simp: deps_ok_def choices_ok_def)
  ultimately show ?thesis by (rule that)
qed

lemma choiceD:
  assumes "deps_ok k U" and "c \<in> U" and "sym_is_choice (symtab k c)"
  shows "\<not> sym_is_choice_value (symtab k c)" "sym_get_choice_prop (symtab k c) \<noteq> None"
    and "m \<in> set (members k c) \<Longrightarrow> m \<in> U \<and> sym_is_choice_value (symtab k m) \<and> choice_of k m = Some c"
proof -
  have "choices_ok k U" using assms(1) by (simp add: deps_ok_def)
  then show "\<not> sym_is_choice_value (symtab k c)" "sym_get_choice_prop (symtab k c) \<noteq> None"
    "m \<in> set (members k c) \<Longrightarrow> m \<in> U \<and> sym_is_choice_value (symtab k m) \<and> choice_of k m = Some c"
    using assms(2,3) by (simp_all add: choices_ok_def)
qed

lemma group_deps_closed:
  assumes "deps_ok k U" and "c \<in> U" and "sym_is_choice (symtab k c)"
  shows "group_deps k c \<subseteq> U"
proof
  fix t assume "t \<in> group_deps k c"
  then obtain m where m: "m \<in> set (members k c)" "t \<in> direct_deps k m" unfolding group_deps_def by blast
  have "m \<in> U" using choiceD(3) [OF assms m(1)] by simp
  with m(2) assms(1) show "t \<in> U" unfolding deps_ok_def by blast
qed

lemma choice_deps:
  assumes "deps_ok k U" and "c \<in> U" and "sym_is_choice (symtab k c)"
  shows "depends k c t \<longleftrightarrow> t \<in> direct_deps k c" "may_depend k c t \<longleftrightarrow> t \<in> direct_deps k c \<or> t \<in> group_deps k c \<and> t \<noteq> c"
    and "m \<in> set (members k c) \<Longrightarrow> depends k m t \<longleftrightarrow> t = c \<or> t \<in> group_deps k c"
proof -
  show "depends k c t \<longleftrightarrow> t \<in> direct_deps k c"
    "may_depend k c t \<longleftrightarrow> t \<in> direct_deps k c \<or> t \<in> group_deps k c \<and> t \<noteq> c"
    using choiceD(1) [OF assms] assms(3) by (simp_all add: depends_def may_depend_def)
  show "depends k m t \<longleftrightarrow> t = c \<or> t \<in> group_deps k c" if "m \<in> set (members k c)"
    using choiceD(3) [OF assms that] by (simp add: depends_def)
qed

section \<open>The state of the search\<close>

definition shape :: "symbol \<Rightarrow> property list \<times> expr_value \<times> bool \<times> bool \<times> symbol_type" where
  "shape y = (props y, rev_dep y, sym_is_choice y, sym_is_choice_value y, stype y)"

definition static :: "kconf \<Rightarrow> dstate \<Rightarrow> bool" where
  "static k d \<longleftrightarrow> (\<forall>s. shape (symtab (conf d) s) = shape (symtab k s))"

definition grey :: "dstate \<Rightarrow> sym set" where
  "grey d = {s. SYMBOL_CHECK \<in> flags (symtab (conf d) s)}"

definition checked :: "dstate \<Rightarrow> sym set" where
  "checked d = {s. SYMBOL_CHECKED \<in> flags (symtab (conf d) s)}"

definition safe :: "kconf \<Rightarrow> sym set \<Rightarrow> sym set" where
  "safe k U = Wellfounded.acc ((dep_rel k U)\<inverse>)"

text \<open>
  Between calls the marks of a choice and its members agree, and the symbols that are done have no
  cycle behind them.
\<close>

definition consistent :: "kconf \<Rightarrow> sym set \<Rightarrow> dstate \<Rightarrow> bool" where
  "consistent k U d \<longleftrightarrow> static k d \<and> grey d \<subseteq> checked d \<and> checked d - grey d \<subseteq> safe k U
     \<and> (\<forall>c \<in> U. sym_is_choice (symtab k c) \<longrightarrow> (\<forall>m \<in> set (members k c). m \<in> checked d \<longleftrightarrow> c \<in> checked d))"

definition paths :: "kconf \<Rightarrow> sym set \<Rightarrow> sym set \<Rightarrow> dstate \<Rightarrow> bool" where
  "paths k U T d \<longleftrightarrow> (\<forall>g \<in> grey d. \<forall>t \<in> T. (g, t) \<in> (may_rel k U)\<^sup>+)"

definition pending :: "sym set \<Rightarrow> dstate \<Rightarrow> nat" where
  "pending U d = card (U - checked d)"

definition pre :: "kconf \<Rightarrow> sym set \<Rightarrow> nat \<Rightarrow> sym set \<Rightarrow> dstate \<Rightarrow> bool" where
  "pre k U j T d \<longleftrightarrow> consistent k U d \<and> T \<subseteq> U \<and> paths k U T d \<and> 2 * pending U d < j"

definition post :: "kconf \<Rightarrow> sym set \<Rightarrow> sym set \<Rightarrow> dstate \<Rightarrow> dstate \<Rightarrow> bool" where
  "post k U T d d' \<longleftrightarrow> consistent k U d' \<and> grey d' = grey d \<and> checked d \<subseteq> checked d'
     \<and> T \<subseteq> checked d' - grey d'
     \<and> length (check_top d') = length (check_top d) \<and> dep_log d' = dep_log d"

lemma pending_mono: "finite U \<Longrightarrow> checked d \<subseteq> checked d' \<Longrightarrow> pending U d' \<le> pending U d"
  unfolding pending_def by (rule card_mono) auto

lemma pre_post: "deps_ok k U \<Longrightarrow> pre k U j (T \<union> T') d \<Longrightarrow> post k U T d d' \<Longrightarrow> pre k U j T' d'"
  using pending_mono [of U d d'] by (auto simp: pre_def post_def paths_def deps_ok_def)

lemma pre_subset: "pre k U j T d \<Longrightarrow> T' \<subseteq> T \<Longrightarrow> j \<le> i \<Longrightarrow> pre k U i T' d"
  by (auto simp: pre_def paths_def)

lemma post_trans: "post k U T d d1 \<Longrightarrow> post k U T' d1 d2 \<Longrightarrow> post k U (T \<union> T') d d2"
  by (auto simp: post_def)

lemma post_refl: "consistent k U d \<Longrightarrow> post k U {} d d"
  by (simp add: post_def)

section \<open>Runs that print nothing\<close>

definition quiet :: "'a dprog \<Rightarrow> dstate \<Rightarrow> bool" where
  "quiet m d \<longleftrightarrow> (\<exists>x d'. m d = Ok (x, d') \<and> dep_log d' = dep_log d)"

definition fine :: "kconf \<Rightarrow> sym set \<Rightarrow> 'a dprog \<Rightarrow> dstate \<Rightarrow> bool" where
  "fine k U m d \<longleftrightarrow> acyclic (may_rel k U) \<or> quiet m d"

definition visits :: "kconf \<Rightarrow> sym set \<Rightarrow> nat \<Rightarrow> sym set \<Rightarrow> sym option dprog \<Rightarrow> bool" where
  "visits k U j T m \<longleftrightarrow>
     (\<forall>d. pre k U j T d \<and> fine k U m d \<longrightarrow> (\<exists>d'. m d = Ok (None, d') \<and> post k U T d d'))"

abbreviation grows :: "'a dprog \<Rightarrow> bool" where
  "grows m \<equiv> runs False (\<lambda>_. True) (\<lambda>d d'. prefix (dep_log d) (dep_log d')) m"

interpretation logs: state_relation False "\<lambda>_ :: dstate. True" "\<lambda>d d'. prefix (dep_log d) (dep_log d')"
  by unfold_locales (auto intro: prefix_order.trans)

lemma growsD: "grows m \<Longrightarrow> m d = Ok (x, d') \<Longrightarrow> prefix (dep_log d) (dep_log d')"
  by (simp add: runs_def)

lemma visitsD: "visits k U j T m \<Longrightarrow> pre k U j T d \<Longrightarrow> fine k U m d \<Longrightarrow> \<exists>d'. m d = Ok (None, d') \<and> post k U T d d'"
  by (simp add: visits_def)

lemma visits_weaken: "visits k U i T m \<Longrightarrow> j \<le> i \<Longrightarrow> visits k U j T m"
  unfolding visits_def by (meson order_refl pre_subset)

lemma bnd_run: "m d = Ok (a, d1) \<Longrightarrow> bnd m f d = f a d1"
  by (simp add: bnd_def)

lemma bnd_deref: "bnd (deref (Some a)) f d = f a d"
  by (simp add: prog_defs)

lemma fine_first:
  assumes "fine k U (bnd m f) d" and "grows m" and "\<And>x. grows (f x)"
  shows "fine k U m d"
proof -
  have "quiet m d" if q: "quiet (bnd m f) d"
  proof -
    obtain x d' a d1 where r: "m d = Ok (a, d1)" "f a d1 = Ok (x, d')" "dep_log d' = dep_log d"
      using q unfolding quiet_def bnd_Ok by blast
    have "prefix (dep_log d) (dep_log d1)" "prefix (dep_log d1) (dep_log d')"
      using growsD [OF assms(2) r(1)] growsD [OF assms(3) r(2)] .
    then have "dep_log d1 = dep_log d" using r(3) prefix_order.antisym by metis
    with r(1) show ?thesis by (auto simp: quiet_def)
  qed
  with assms(1) show ?thesis by (auto simp: fine_def)
qed

lemma fine_next:
  assumes "fine k U (bnd m f) d" and "m d = Ok (x, d1)" and "dep_log d1 = dep_log d"
  shows "fine k U (f x) d1"
  using assms by (auto simp: fine_def quiet_def bnd_Ok)

text \<open>Every function only adds to what was printed.\<close>

lemma grows_modify: "(\<And>d. dep_log (f d) = dep_log d) \<Longrightarrow> grows (modify f)"
  by (rule logs.runs_modify) simp

lemma grows_steps:
  "grows (of_sym s g)" "grows (mark s F)" "grows (unmark s F)" "grows (dep_stack_insert s)"
  "grows (set_top h)" "grows (dlog ls)"
  by (simp_all add: of_sym_def mark_def unmark_def dep_stack_insert_def set_top_def dlog_def logs.runs_gets
      grows_modify logs.runs_modify)

lemma grows_remove: "grows dep_stack_remove"
  unfolding dep_stack_remove_def
  by (intro logs.runs_bnd logs.runs_gets) (auto simp: logs.runs_crash grows_modify split: list.splits)

lemmas grows_rules = grows_steps grows_remove logs.runs_rules

lemma grows_or_else: "grows m \<Longrightarrow> grows m' \<Longrightarrow> grows (or_else m m')"
  unfolding or_else_def by (intro grows_rules)

lemma grows_choice_of_value: "grows (choice_of_value s)"
  unfolding choice_of_value_def by (intro grows_rules)

lemma grows_print: "grows (sym_check_print_recursive s)"
  unfolding sym_check_print_recursive_def print_cycle_def by (intro grows_rules grows_choice_of_value)

lemma grows_expr: "(\<And>s. grows (chk s)) \<Longrightarrow> grows (sym_check_expr_deps chk e)"
  by (induction e) (simp_all add: grows_or_else check_oops_def logs.runs_thn logs.runs_ret grows_modify)

lemma grows_null: "(\<And>s. grows (chk s)) \<Longrightarrow> grows (check_null chk e)"
  by (simp add: check_null_def grows_expr logs.runs_ret split: option.split)

lemma grows_props: "(\<And>s. grows (chk s)) \<Longrightarrow> grows (check_prop_deps chk s ps)"
proof (induction ps)
  case (Cons p ps)
  show ?case unfolding check_prop_deps.simps
    by (intro grows_rules grows_or_else grows_null Cons.IH Cons.prems)
qed (simp add: logs.runs_ret)

lemma grows_sym_deps: "(\<And>s. grows (chk s)) \<Longrightarrow> grows (sym_check_sym_deps chk s)"
  unfolding sym_check_sym_deps_def by (intro grows_rules grows_or_else grows_null grows_props)

lemma grows_members: "(\<And>s. grows (chk s)) \<Longrightarrow> grows (check_members chk ms)"
  by (induction ms) (simp_all add: logs.runs_ret grows_or_else grows_sym_deps)

lemma grows_as_choice: "grows (as_choice c x)"
  unfolding as_choice_def by (intro grows_rules grows_choice_of_value)

lemma grows_check_choice: "(\<And>s. grows (chk s)) \<Longrightarrow> grows (check_choice chk s)"
  unfolding check_choice_def Let_def
  by (intro grows_rules grows_sym_deps grows_members grows_as_choice)

lemma grows_choice_deps: "(\<And>s. grows (chk s)) \<Longrightarrow> grows (sym_check_choice_deps chk s)"
  unfolding sym_check_choice_deps_def by (intro grows_rules grows_check_choice)

lemma grows_check_deps: "grows (sym_check_deps n s)"
proof (induction n arbitrary: s)
  case (Suc n)
  show ?case
    unfolding sym_check_deps.simps sym_check_deps_body_def check_value_def check_plain_def
    by (intro grows_rules grows_sym_deps grows_choice_deps grows_choice_of_value grows_print Suc)
qed (auto simp: runs_def no_fuel_def)

lemma print_entries_lines: "print_entries k s es m = Some ls \<Longrightarrow> es \<noteq> [] \<Longrightarrow> ls \<noteq> []"
  by (cases es) (auto simp: bind_eq_Some_conv split: prod.splits)

lemma log_steps: "dep_stack_remove d = Ok (u, d') \<Longrightarrow> dep_log d' = dep_log d"
  by (auto simp: dep_stack_remove_def bnd_Ok split: list.splits)

lemma print_cycle_prints: "print_cycle c cv d = Ok (u, d') \<Longrightarrow> dep_log d' \<noteq> dep_log d"
  by (cases "found_entries c (check_top d) = []")
    (auto simp: print_cycle_def bnd_Ok thn_Ok dlog_def unless_def dest!: log_steps print_entries_lines split: if_splits)

lemma print_recursive_prints: "sym_check_print_recursive s d = Ok (u, d') \<Longrightarrow> dep_log d' \<noteq> dep_log d"
  by (auto simp: sym_check_print_recursive_def bnd_Ok thn_Ok of_sym_def dep_stack_insert_def choice_of_value_def
      dest!: print_cycle_prints split: if_splits option.splits)

section \<open>Composition\<close>

lemma visits_or_else:
  assumes "deps_ok k U" and "visits k U j T m" and "visits k U j T' m'" and "grows m" and "grows m'"
  shows "visits k U j (T \<union> T') (or_else m m')"
  unfolding visits_def
proof (intro allI impI, elim conjE)
  fix d assume p: "pre k U j (T \<union> T') d" and f: "fine k U (or_else m m') d"
  have f1: "fine k U m d"
    using fine_first [OF f [unfolded or_else_def] assms(4)] by (simp add: assms(5) logs.runs_ret split: option.splits)
  obtain d1 where d1: "m d = Ok (None, d1)" "post k U T d d1"
    using visitsD [OF assms(2) pre_subset [OF p] f1] by auto
  have "fine k U m' d1" using fine_next [OF f [unfolded or_else_def] d1(1)] d1(2) by (simp add: post_def)
  then obtain d2 where d2: "m' d1 = Ok (None, d2)" "post k U T' d1 d2"
    using visitsD [OF assms(3) pre_post [OF assms(1) p d1(2)]] by blast
  show "\<exists>d'. or_else m m' d = Ok (None, d') \<and> post k U (T \<union> T') d d'"
    using d1(1) d2(1) post_trans [OF d1(2) d2(2)] by (auto simp: or_else_def bnd_Ok)
qed

lemma visits_none: "visits k U j {} (ret None)"
  by (auto simp: visits_def pre_def post_refl)

text \<open>Steps that leave the symbols and the output alone.\<close>

lemma conf_only:
  "conf d1 = conf d \<Longrightarrow> pre k U j T d \<longleftrightarrow> pre k U j T d1"
  "conf d1 = conf d \<Longrightarrow> length (check_top d1) = length (check_top d) \<Longrightarrow> dep_log d1 = dep_log d \<Longrightarrow>
     post k U T d1 d' \<longleftrightarrow> post k U T d d'"
  by (simp_all add: pre_def post_def consistent_def paths_def pending_def static_def grey_def checked_def)

lemma visits_step:
  assumes "\<And>d. conf (f d) = conf d \<and> dep_log (f d) = dep_log d \<and> length (check_top (f d)) = length (check_top d)"
    and "visits k U j T m"
  shows "visits k U j T (thn (modify f) m)"
  unfolding visits_def
proof (intro allI impI, elim conjE)
  fix d assume p: "pre k U j T d" and f: "fine k U (thn (modify f) m) d"
  have run: "thn (modify f) m d = m (f d)" by (simp add: prog_defs)
  have "pre k U j T (f d)" using p conf_only(1) assms(1) by blast
  moreover have "fine k U m (f d)" using f assms(1) by (simp add: fine_def quiet_def run)
  ultimately obtain d' where "m (f d) = Ok (None, d')" "post k U T (f d) d'" using visitsD [OF assms(2)] by blast
  then show "\<exists>d'. thn (modify f) m d = Ok (None, d') \<and> post k U T d d'"
    using run assms(1) conf_only(2) [of "f d" d] by auto
qed

lemma visits_oops: "visits k U j {} (check_oops e)"
  unfolding check_oops_def by (rule visits_step) (simp_all add: visits_none)

lemma visits_read:
  assumes "\<And>d. static k d \<Longrightarrow> g (symtab (conf d) s) = g (symtab k s)" and "visits k U j T (m (g (symtab k s)))"
  shows "visits k U j T (bnd (of_sym s g) m)"
  unfolding visits_def
proof (intro allI impI, elim conjE)
  fix d assume p: "pre k U j T d" and f: "fine k U (bnd (of_sym s g) m) d"
  have "g (symtab (conf d) s) = g (symtab k s)" using p assms(1) by (simp add: pre_def consistent_def)
  then have run: "bnd (of_sym s g) m d = m (g (symtab k s)) d" by (simp add: of_sym_def prog_defs)
  have "fine k U (m (g (symtab k s))) d" using f by (simp add: fine_def quiet_def run)
  then show "\<exists>d'. bnd (of_sym s g) m d = Ok (None, d') \<and> post k U T d d'"
    unfolding run using visitsD [OF assms(2) p] by blast
qed

lemma visits_expr:
  assumes "deps_ok k U" and "\<And>t. t \<in> U \<Longrightarrow> visits k U j {t} (chk t)" and "\<And>t. grows (chk t)"
  shows "expr_syms e \<subseteq> U \<Longrightarrow> visits k U j (expr_syms e) (sym_check_expr_deps chk e)"
proof (induction e)
  case (Equal a b)
  then show ?case using visits_or_else [OF assms(1) assms(2) [of a] assms(2) [of b] assms(3) assms(3)] by (simp add: insert_commute)
next
  case (Unequal a b)
  then show ?case using visits_or_else [OF assms(1) assms(2) [of a] assms(2) [of b] assms(3) assms(3)] by (simp add: insert_commute)
qed (use assms visits_oops in \<open>simp_all add: visits_or_else grows_expr\<close>)

lemma visits_null:
  assumes "deps_ok k U" and "\<And>t. t \<in> U \<Longrightarrow> visits k U j {t} (chk t)" and "\<And>t. grows (chk t)"
    and "null_syms e \<subseteq> U"
  shows "visits k U j (null_syms e) (check_null chk e)"
  using assms(4) visits_expr [OF assms(1-3)] visits_none
  by (auto simp: null_syms_def check_null_def split: option.splits)

lemma staticD:
  assumes "static k d"
  shows "props (symtab (conf d) s) = props (symtab k s)" "rev_dep (symtab (conf d) s) = rev_dep (symtab k s)"
    "sym_is_choice (symtab (conf d) s) = sym_is_choice (symtab k s)"
    "sym_is_choice_value (symtab (conf d) s) = sym_is_choice_value (symtab k s)"
    "stype (symtab (conf d) s) = stype (symtab k s)"
    "sym_get_choice_prop (symtab (conf d) s) = sym_get_choice_prop (symtab k s)"
  using assms by (simp_all add: static_def shape_def sym_get_choice_prop_def)

lemma visits_set_top: "visits k U j T m \<Longrightarrow> visits k U j T (thn (set_top h) m)"
  unfolding set_top_def by (rule visits_step) (simp_all split: list.splits)

lemma visits_props:
  assumes "deps_ok k U" and "\<And>t. t \<in> U \<Longrightarrow> visits k U j {t} (chk t)" and "\<And>t. grows (chk t)"
  shows "(\<Union>p \<in> set ps. prop_deps (sym_is_choice (symtab k s)) p) \<subseteq> U \<Longrightarrow>
     visits k U j (\<Union>p \<in> set ps. prop_deps (sym_is_choice (symtab k s)) p) (check_prop_deps chk s ps)"
proof (induction ps)
  case Nil
  then show ?case by (simp add: visits_none)
next
  case (Cons p ps)
  let ?ch = "sym_is_choice (symtab k s)" and ?R = "\<Union>p \<in> set ps. prop_deps (sym_is_choice (symtab k s)) p"
  note null = visits_null [OF assms] and g = grows_null [OF assms(3)] grows_props [OF assms(3)]
  have rest: "visits k U j ?R (check_prop_deps chk s ps)" using Cons by simp
  have sub: "prop_deps ?ch p \<subseteq> U" using Cons.prems by simp
  show ?case
  proof (cases "ptype p = P_CHOICE \<or> ptype p = P_SELECT")
    case True
    then show ?thesis using rest by (simp add: prop_deps_def)
  next
    case False
    let ?B = "if ptype p = P_DEFAULT \<and> \<not> ?ch then null_syms (pexpr p) else {}"
    let ?after = "\<lambda>ch. if ptype p \<noteq> P_DEFAULT \<or> ch then check_prop_deps chk s ps
        else thn (set_top (\<lambda>e. e\<lparr>dexpr := pexpr p\<rparr>)) (or_else (check_null chk (pexpr p))
          (thn (set_top (\<lambda>e. e\<lparr>dexpr := None\<rparr>)) (check_prop_deps chk s ps)))"
    have deps: "prop_deps ?ch p = null_syms (vexpr (pvisible p)) \<union> ?B" using False by (simp add: prop_deps_def)
    have "visits k U j (?B \<union> ?R) (?after ?ch)"
      using rest sub deps assms(1)
      by (auto intro!: visits_set_top visits_or_else null g grows_steps logs.runs_thn)
    then have "visits k U j (?B \<union> ?R) (bnd (of_sym s sym_is_choice) ?after)"
      by (rule visits_read [rotated]) (rule staticD)
    then have "visits k U j (null_syms (vexpr (pvisible p)) \<union> (?B \<union> ?R))
        (or_else (check_null chk (vexpr (pvisible p))) (bnd (of_sym s sym_is_choice) ?after))"
      using sub deps by (intro visits_or_else assms(1) null g grows_rules grows_or_else) auto
    from visits_set_top [OF this] show ?thesis using False deps by (simp add: Un_assoc)
  qed
qed

lemma conf_sets:
  "conf d1 = conf d \<Longrightarrow> grey d1 = grey d" "conf d1 = conf d \<Longrightarrow> checked d1 = checked d"
  "conf d1 = conf d \<Longrightarrow> consistent k U d1 = consistent k U d"
  by (simp_all add: consistent_def static_def grey_def checked_def)

lemma framed_at:
  assumes m: "\<And>d0. conf d0 = conf d \<Longrightarrow> fine k U m d0 \<Longrightarrow> \<exists>d'. m d0 = Ok (None, d') \<and> post k U T d0 d'"
    and g: "grows m" and f: "fine k U (thn (dep_stack_insert s) (bnd m (\<lambda>x. thn dep_stack_remove (ret x)))) d"
  shows "\<exists>d'. thn (dep_stack_insert s) (bnd m (\<lambda>x. thn dep_stack_remove (ret x))) d = Ok (None, d') \<and> post k U T d d'"
proof -
  let ?m = "bnd m (\<lambda>x. thn dep_stack_remove (ret x))"
  define d0 where "d0 = d\<lparr>check_top := \<lparr>dsym = s, dprop = None, dexpr = None\<rparr> # check_top d\<rparr>"
  have run: "thn (dep_stack_insert s) ?m d = ?m d0" by (simp add: d0_def dep_stack_insert_def prog_defs)
  have same: "conf d0 = conf d" "dep_log d0 = dep_log d" by (simp_all add: d0_def)
  have "fine k U ?m d0" using f by (simp add: fine_def quiet_def run same)
  then have "fine k U m d0" by (rule fine_first) (intro grows_rules g)+
  then obtain d1 where d1: "m d0 = Ok (None, d1)" "post k U T d0 d1" using m [OF same(1)] by blast
  then obtain e es where e: "check_top d1 = e # es" "length es = length (check_top d)"
    by (cases "check_top d1") (auto simp: post_def d0_def)
  let ?d2 = "d1\<lparr>check_top := es\<rparr>"
  have "?m d0 = Ok (None, ?d2)" using d1(1) e(1) by (simp add: dep_stack_remove_def prog_defs)
  moreover have "post k U T d ?d2"
    using d1(2) e(2) same conf_sets [of ?d2 d1] conf_sets [of d0 d] by (auto simp: post_def)
  ultimately show ?thesis unfolding run by blast
qed

lemma visits_framed:
  assumes "visits k U j T m" and "grows m"
  shows "visits k U j T (thn (dep_stack_insert s) (bnd m (\<lambda>x. thn dep_stack_remove (ret x))))"
  unfolding visits_def
proof (intro allI impI, elim conjE)
  fix d assume "pre k U j T d" and f: "fine k U (thn (dep_stack_insert s) (bnd m (\<lambda>x. thn dep_stack_remove (ret x)))) d"
  then show "\<exists>d'. thn (dep_stack_insert s) (bnd m (\<lambda>x. thn dep_stack_remove (ret x))) d = Ok (None, d') \<and> post k U T d d'"
    using visitsD [OF assms(1)] conf_only(1) by (intro framed_at [OF _ assms(2) f]) blast
qed

lemma visits_sym_deps:
  assumes "deps_ok k U" and "\<And>t. t \<in> U \<Longrightarrow> visits k U j {t} (chk t)" and "\<And>t. grows (chk t)" and "s \<in> U"
  shows "visits k U j (direct_deps k s) (sym_check_sym_deps chk s)"
proof -
  let ?y = "symtab k s"
  let ?A = "null_syms (vexpr (rev_dep ?y))" and ?B = "\<Union>p \<in> set (props ?y). prop_deps (sym_is_choice ?y) p"
  have sub: "?A \<subseteq> U" "?B \<subseteq> U" using assms(1,4) unfolding deps_ok_def direct_deps_def Let_def by blast+
  have "visits k U j (?A \<union> ?B) (or_else (check_null chk (vexpr (rev_dep ?y))) (check_prop_deps chk s (props ?y)))"
    by (intro visits_or_else assms(1) visits_null [OF assms(1-3)] visits_props [OF assms(1-3)] sub
        grows_null grows_props assms(3))
  then have "visits k U j (?A \<union> ?B) (bnd (of_sym s (\<lambda>y. vexpr (rev_dep y))) (\<lambda>r. bnd (of_sym s props) (\<lambda>ps.
      or_else (check_null chk r) (check_prop_deps chk s ps))))"
    by (intro visits_read) (simp_all add: staticD)
  then show ?thesis
    unfolding sym_check_sym_deps_def direct_deps_def Let_def
    by (rule visits_framed) (intro grows_rules grows_or_else grows_null grows_props assms(3))
qed

lemma visits_members:
  assumes "deps_ok k U" and "\<And>t. t \<in> U \<Longrightarrow> visits k U j {t} (chk t)" and "\<And>t. grows (chk t)"
  shows "set ms \<subseteq> U \<Longrightarrow> visits k U j (\<Union>m \<in> set ms. direct_deps k m) (check_members chk ms)"
proof (induction ms)
  case (Cons m ms)
  then show ?case
    using visits_or_else [OF assms(1) visits_sym_deps [OF assms, of m] Cons.IH grows_sym_deps grows_members] assms(3)
    by simp
qed (simp add: visits_none)

section \<open>Marks\<close>

definition marked :: "sym set \<Rightarrow> dstate \<Rightarrow> dstate" where
  "marked S d = d\<lparr>conf := (conf d)\<lparr>symtab := (\<lambda>t. let y = symtab (conf d) t in
     if t \<in> S then y\<lparr>flags := flags y \<union> {SYMBOL_CHECK, SYMBOL_CHECKED}\<rparr> else y)\<rparr>\<rparr>"

definition unmarked :: "sym set \<Rightarrow> dstate \<Rightarrow> dstate" where
  "unmarked S d = d\<lparr>conf := (conf d)\<lparr>symtab := (\<lambda>t. let y = symtab (conf d) t in
     if t \<in> S then y\<lparr>flags := flags y - {SYMBOL_CHECK}\<rparr> else y)\<rparr>\<rparr>"

lemma mark_run: "mark s {SYMBOL_CHECK, SYMBOL_CHECKED} d = Ok ((), marked {s} d)"
  by (simp add: mark_def marked_def put_sym_def modify_def fun_upd_def Let_def cong: if_cong)

lemma unmark_run: "unmark s {SYMBOL_CHECK} d = Ok ((), unmarked {s} d)"
  by (simp add: unmark_def unmarked_def put_sym_def modify_def fun_upd_def Let_def cong: if_cong)

lemma marked_marked: "marked S (marked S' d) = marked (S' \<union> S) d"
  by (rule dstate.equality, rule kconf.equality) (auto simp: marked_def Let_def fun_eq_iff insert_commute)

lemma unmarked_unmarked: "unmarked S (unmarked S' d) = unmarked (S' \<union> S) d"
  by (rule dstate.equality, rule kconf.equality) (auto simp: unmarked_def Let_def fun_eq_iff)

lemma marked_none: "marked {} d = d" "unmarked {} d = d"
  by (simp_all add: marked_def unmarked_def)

lemma mark_all: "for_each ms (\<lambda>s. mark s {SYMBOL_CHECK, SYMBOL_CHECKED}) d = Ok ((), marked (set ms) d)"
  by (induction ms arbitrary: d) (simp_all add: marked_none ret_def thn_def bnd_def mark_run marked_marked)

lemma unmark_all: "for_each ms (\<lambda>s. unmark s {SYMBOL_CHECK}) d = Ok ((), unmarked (set ms) d)"
  by (induction ms arbitrary: d) (simp_all add: marked_none ret_def thn_def bnd_def unmark_run unmarked_unmarked)

lemma marks_first:
  "thn (for_each ms (\<lambda>s. mark s {SYMBOL_CHECK, SYMBOL_CHECKED})) m d = m (marked (set ms) d)"
  "thn (mark s {SYMBOL_CHECK, SYMBOL_CHECKED}) m d = m (marked {s} d)"
  "thn (for_each ms (\<lambda>s. unmark s {SYMBOL_CHECK})) m d = m (unmarked (set ms) d)"
  "thn (unmark s {SYMBOL_CHECK}) m d = m (unmarked {s} d)"
  by (simp_all add: thn_def bnd_def mark_all mark_run unmark_all unmark_run)

lemma marked_sets [simp]:
  "grey (marked S d) = grey d \<union> S" "checked (marked S d) = checked d \<union> S"
  "check_top (marked S d) = check_top d" "dep_log (marked S d) = dep_log d"
  "grey (unmarked S d) = grey d - S" "checked (unmarked S d) = checked d"
  "check_top (unmarked S d) = check_top d" "dep_log (unmarked S d) = dep_log d"
  by (auto simp: marked_def unmarked_def grey_def checked_def Let_def)

lemma marked_static [simp]: "static k (marked S d) = static k d" "static k (unmarked S d) = static k d"
  by (auto simp: marked_def unmarked_def static_def shape_def Let_def sym_is_choice_def sym_is_choice_value_def)

lemma pending_marked:
  assumes "finite U" and "s \<in> S" and "s \<in> U" and "s \<notin> checked d"
  shows "pending U (marked S d) < pending U d"
  unfolding pending_def using assms by (intro psubset_card_mono) auto

lemma safeI: "(\<And>t. depends k s t \<Longrightarrow> t \<in> safe k U) \<Longrightarrow> s \<in> safe k U"
  unfolding safe_def by (rule accI) (auto simp: dep_rel_def)

lemma may_step: "s \<in> U \<Longrightarrow> may_depend k s t \<Longrightarrow> (s, t) \<in> (may_rel k U)\<^sup>+"
  by (auto simp: may_rel_def)

lemma paths_step: "paths k U {s} d \<Longrightarrow> s \<in> U \<Longrightarrow> (\<And>t. t \<in> T \<Longrightarrow> may_depend k s t) \<Longrightarrow> paths k U T d"
  unfolding paths_def by (meson insertI1 may_step trancl_trans)

lemma pre_marked:
  assumes ok: "deps_ok k U" and p: "pre k U (Suc n) {s} d" and s: "s \<in> S" "s \<notin> checked d"
    and groups: "\<And>c m. c \<in> U \<Longrightarrow> sym_is_choice (symtab k c) \<Longrightarrow> m \<in> set (members k c) \<Longrightarrow> m \<in> S \<longleftrightarrow> c \<in> S"
    and T: "T \<subseteq> U" "\<And>t. t \<in> T \<Longrightarrow> may_depend k s t" "\<And>u t. u \<in> S \<Longrightarrow> t \<in> T \<Longrightarrow> (u, t) \<in> (may_rel k U)\<^sup>+"
  shows "pre k U (n - 1) T (marked S d)"
proof -
  have d: "consistent k U d" "s \<in> U" "paths k U {s} d" "2 * pending U d < Suc n" using p by (auto simp: pre_def)
  have "consistent k U (marked S d)" using d(1) groups by (auto simp: consistent_def)
  moreover have "paths k U T (marked S d)"
    using paths_step [OF d(3,2) T(2)] T(3) by (auto simp: paths_def)
  moreover have "pending U (marked S d) < pending U d"
    using pending_marked [of U s S d] s d(2) ok by (simp add: deps_ok_def)
  ultimately show ?thesis using T(1) d(4) by (simp add: pre_def)
qed

lemma consistent_unmarked: "consistent k U d \<Longrightarrow> S \<subseteq> safe k U \<Longrightarrow> consistent k U (unmarked S d)"
  by (auto simp: consistent_def)

lemma post_safe: "post k U T d d' \<Longrightarrow> T \<subseteq> safe k U"
  unfolding post_def consistent_def by blast

lemma visits_plain:
  assumes ok: "deps_ok k U" and chk: "\<And>t. t \<in> U \<Longrightarrow> visits k U (n - 1) {t} (chk t)" "\<And>t. grows (chk t)"
    and s: "\<not> sym_is_choice (symtab k s)" "\<not> sym_is_choice_value (symtab k s)"
    and p: "pre k U (Suc n) {s} d" "s \<notin> checked d" and f: "fine k U (check_plain chk s) d"
  shows "\<exists>d'. check_plain chk s d = Ok (None, d') \<and> post k U {s} d d'"
proof -
  have c: "consistent k U d" "s \<in> U" using p by (auto simp: pre_def)
  have edge: "may_depend k s t \<longleftrightarrow> t \<in> direct_deps k s" "depends k s t \<longleftrightarrow> t \<in> direct_deps k s" for t
    using s by (simp_all add: may_depend_def depends_def)
  let ?m = "bnd (sym_check_sym_deps chk s) (\<lambda>sym2. thn (unmark s {SYMBOL_CHECK}) (ret sym2))"
  have run: "check_plain chk s d = ?m (marked {s} d)" by (simp add: check_plain_def thn_def bnd_def mark_run)
  have "pre k U (n - 1) (direct_deps k s) (marked {s} d)"
    using ok c(2) s choiceD(3) [OF ok]
    by (intro pre_marked [OF ok p(1) _ p(2)]) (auto simp: deps_ok_def edge intro: may_step)
  moreover have "fine k U ?m (marked {s} d)" using f by (simp add: fine_def quiet_def run)
  then have "fine k U (sym_check_sym_deps chk s) (marked {s} d)"
    by (rule fine_first) (intro grows_rules grows_sym_deps chk(2))+
  ultimately obtain d1 where d1: "sym_check_sym_deps chk s (marked {s} d) = Ok (None, d1)"
    "post k U (direct_deps k s) (marked {s} d) d1"
    using visitsD [OF visits_sym_deps [OF ok chk c(2)]] by blast
  have "direct_deps k s \<subseteq> safe k U" using d1(2) by (rule post_safe)
  then have "s \<in> safe k U" by (auto simp: edge(2) intro!: safeI [of k s U])
  moreover have "consistent k U d1" using d1(2) by (simp add: post_def)
  ultimately have "consistent k U (unmarked {s} d1)" by (simp add: consistent_unmarked)
  moreover have "s \<notin> grey d" using c(1) p(2) by (auto simp: consistent_def)
  ultimately have "post k U {s} d (unmarked {s} d1)" using d1(2) by (auto simp: post_def)
  then show ?thesis unfolding run using d1(1) by (auto simp: thn_def bnd_def unmark_run ret_def)
qed

lemma visits_value:
  assumes ok: "deps_ok k U" and chk: "\<And>t. t \<in> U \<Longrightarrow> \<not> sym_is_choice_value (symtab k t) \<Longrightarrow> visits k U n {t} (chk t)"
      "\<And>t. grows (chk t)"
    and s: "sym_is_choice_value (symtab k s)"
    and p: "pre k U n {s} d" "s \<notin> checked d" and f: "fine k U (check_value chk s) d"
  shows "\<exists>d'. check_value chk s d = Ok (None, d') \<and> post k U {s} d d'"
proof -
  have sU: "s \<in> U" using p by (simp add: pre_def)
  obtain c where c: "c \<in> U" "choice_of k s = Some c" "sym_is_choice (symtab k c)" "s \<in> set (members k c)"
    "\<not> sym_is_choice_value (symtab k c)" using choice_valueD [OF ok sU s] .
  have st: "static k d" using p(1) by (simp add: pre_def consistent_def)
  obtain q where q: "sym_get_choice_prop (symtab k s) = Some q" "prop_get_symbol q = Some c"
    using c(2) by (auto simp: choice_of_def bind_eq_Some_conv)
  let ?m = "thn (dep_stack_insert s) (bnd (chk c) (\<lambda>sym2. thn dep_stack_remove (ret sym2)))"
  have run: "check_value chk s d = ?m d"
    using staticD(6) [OF st] q
    by (simp add: check_value_def choice_of_value_def of_sym_def dep_stack_insert_def prog_defs)
  have "pre k U n {c} d"
    using p(1) c(1) paths_step [of k U s d "{c}"] choice_deps(3) [OF ok c(1,3,4)]
    by (auto simp: pre_def may_depend_def)
  moreover have "fine k U ?m d" using f by (simp add: fine_def quiet_def run)
  ultimately obtain d' where d': "?m d = Ok (None, d')" "post k U {c} d d'"
    using visitsD [OF visits_framed [OF chk(1) [OF c(1,5)] chk(2)]] by blast
  have "s \<in> checked d'" using d'(2) c by (auto simp: post_def consistent_def)
  moreover have "s \<notin> grey d'" using d'(2) p by (auto simp: post_def pre_def consistent_def)
  ultimately show ?thesis unfolding run using d' by (auto simp: post_def)
qed

text \<open>A choice: first what it depends on itself, then what its members depend on.\<close>

lemma choice_marked:
  assumes ok: "deps_ok k U" and c: "c \<in> U" "sym_is_choice (symtab k c)"
    and p: "pre k U (Suc n) {c} d" "c \<notin> checked d"
  shows "pre k U (n - 1) (direct_deps k c) (marked (insert c (set (members k c))) d)"
proof (rule pre_marked [OF ok p(1) _ p(2)])
  let ?S = "insert c (set (members k c))"
  note mem = choiceD(3) [OF ok c]
  show "m \<in> ?S \<longleftrightarrow> c' \<in> ?S" if "c' \<in> U" "sym_is_choice (symtab k c')" "m \<in> set (members k c')" for c' m
  proof -
    have "sym_is_choice_value (symtab k m)" "choice_of k m = Some c'" using choiceD(3) [OF ok that] by auto
    moreover have "\<not> sym_is_choice_value (symtab k c)" "\<not> sym_is_choice_value (symtab k c')"
      using choiceD(1) [OF ok c] choiceD(1) [OF ok that(1,2)] by auto
    ultimately show ?thesis using mem that(3) by auto
  qed
  show "direct_deps k c \<subseteq> U" using ok c(1) by (simp add: deps_ok_def)
  show own: "may_depend k c t" if "t \<in> direct_deps k c" for t using that choice_deps(2) [OF ok c] by simp
  show "(u, t) \<in> (may_rel k U)\<^sup>+" if "u \<in> ?S" "t \<in> direct_deps k c" for u t
  proof -
    have ct: "(c, t) \<in> (may_rel k U)\<^sup>+" using own [OF that(2)] c(1) by (simp add: may_step)
    moreover have "(u, c) \<in> (may_rel k U)\<^sup>+" if "u \<in> set (members k c)"
      using mem [OF that] by (intro may_step) (simp_all add: may_depend_def choice_deps(3) [OF ok c that])
    ultimately show ?thesis using that(1) by (auto intro: trancl_trans)
  qed
qed simp

lemma choice_own_done:
  assumes ok: "deps_ok k U" and c: "c \<in> U" "sym_is_choice (symtab k c)"
    and p: "pre k U (Suc n) {c} d" "c \<notin> checked d"
    and d1: "post k U (direct_deps k c) (marked (insert c (set (members k c))) d) d1"
  shows "c \<in> safe k U" "pre k U (n - 1) (group_deps k c) (unmarked {c} d1)"
proof -
  have "direct_deps k c \<subseteq> safe k U" using d1 by (rule post_safe)
  then show s: "c \<in> safe k U" by (auto simp: choice_deps(1) [OF ok c] intro!: safeI [of k c U])
  have "consistent k U (unmarked {c} d1)" using d1 s by (intro consistent_unmarked) (auto simp: post_def)
  moreover have "paths k U (group_deps k c) (unmarked {c} d1)"
  proof -
    have cp: "paths k U {c} d" using p(1) by (simp add: pre_def)
    then have "paths k U (group_deps k c - {c}) d"
      using c(1) by (rule paths_step) (simp add: choice_deps(2) [OF ok c])
    with cp have "paths k U (group_deps k c) d" unfolding paths_def by blast
    moreover have "(m, t) \<in> (may_rel k U)\<^sup>+" if "m \<in> set (members k c)" "t \<in> group_deps k c" for m t
    proof (rule may_step)
      show "m \<in> U" using choiceD(3) [OF ok c that(1)] by simp
      show "may_depend k m t" using that(2) by (simp add: may_depend_def choice_deps(3) [OF ok c that(1)])
    qed
    ultimately have "paths k U (group_deps k c) (unmarked {c} (marked (insert c (set (members k c))) d))"
      unfolding paths_def marked_sets by blast
    then show ?thesis using d1 by (simp add: paths_def post_def)
  qed
  moreover have "2 * pending U (unmarked {c} d1) < n - 1"
  proof -
    have "pending U (unmarked {c} d1) = pending U d1" by (simp add: pending_def)
    also have "\<dots> \<le> pending U (marked (insert c (set (members k c))) d)"
      using d1 ok by (intro pending_mono) (auto simp: post_def deps_ok_def)
    finally show ?thesis using choice_marked [OF ok c p] by (simp add: pre_def)
  qed
  ultimately show "pre k U (n - 1) (group_deps k c) (unmarked {c} d1)"
    using group_deps_closed [OF ok c] by (simp add: pre_def)
qed

lemma choice_all_done:
  assumes ok: "deps_ok k U" and c: "c \<in> U" "sym_is_choice (symtab k c)"
    and p: "pre k U (Suc n) {c} d" "c \<notin> checked d"
    and d1: "post k U (direct_deps k c) (marked (insert c (set (members k c))) d) d1"
    and d2: "post k U (group_deps k c) (unmarked {c} d1) d2"
  shows "post k U {c} d (unmarked (set (members k c)) d2)"
proof -
  have con: "consistent k U d" using p(1) by (simp add: pre_def)
  have "m \<notin> checked d" if "m \<in> set (members k c)" for m using con c that p(2) by (auto simp: consistent_def)
  then have white: "c \<notin> grey d" "set (members k c) \<inter> grey d = {}" using con p(2) by (auto simp: consistent_def)
  have "c \<in> safe k U" by (rule choice_own_done(1) [OF ok c p d1])
  moreover have "group_deps k c \<subseteq> safe k U" using d2 by (rule post_safe)
  ultimately have "m \<in> safe k U" if "m \<in> set (members k c)" for m
    by (rule_tac safeI) (auto simp: choice_deps(3) [OF ok c that])
  then have "set (members k c) \<subseteq> safe k U" by blast
  then have "consistent k U (unmarked (set (members k c)) d2)" using d2 by (simp add: consistent_unmarked post_def)
  moreover have "c \<notin> set (members k c)" using choiceD [OF ok c] by blast
  ultimately show ?thesis using d1 d2 white by (auto simp: post_def)
qed

lemma visits_choice:
  assumes ok: "deps_ok k U" and chk: "\<And>t. t \<in> U \<Longrightarrow> visits k U (n - 1) {t} (chk t)" "\<And>t. grows (chk t)"
    and c: "sym_is_choice (symtab k c)" and p: "pre k U (Suc n) {c} d" "c \<notin> checked d"
    and f: "fine k U (check_choice chk c) d"
  shows "\<exists>d'. check_choice chk c d = Ok (None, d') \<and> post k U {c} d d'"
proof -
  have cU: "c \<in> U" and st: "static k d" using p by (auto simp: pre_def consistent_def)
  obtain q where q: "sym_get_choice_prop (symtab k c) = Some q" "list_syms (pexpr q) = members k c"
    using choiceD(2) [OF ok cU c] by (auto simp: members_def)
  let ?ms = "members k c" and ?d0 = "marked (insert c (set (members k c))) d"
  let ?fin = "\<lambda>sym2. thn (for_each ?ms (\<lambda>s. unmark s {SYMBOL_CHECK})) (as_choice c sym2)"
  let ?mem = "\<lambda>sym2. bnd (case sym2 of None \<Rightarrow> check_members chk ?ms | Some _ \<Rightarrow> ret sym2) ?fin"
  let ?m = "bnd (sym_check_sym_deps chk c) (\<lambda>sym2. thn (unmark c {SYMBOL_CHECK}) (?mem sym2))"
  have pr: "of_sym c sym_get_choice_prop d = Ok (Some q, d)"
    by (simp add: of_sym_def gets_def staticD(6) [OF st] q(1))
  have run: "check_choice chk c d = ?m ?d0"
    by (simp only: check_choice_def bnd_run [of "of_sym c sym_get_choice_prop" d, OF pr] bnd_deref Let_def q(2)
        marks_first marked_marked Un_insert_right Un_empty_right)
  have "fine k U ?m ?d0" using f by (simp add: fine_def quiet_def run)
  then have "fine k U (sym_check_sym_deps chk c) ?d0"
    by (rule fine_first) (intro grows_rules grows_sym_deps grows_members grows_as_choice chk(2))+
  then obtain d1 where d1: "sym_check_sym_deps chk c ?d0 = Ok (None, d1)" "post k U (direct_deps k c) ?d0 d1"
    using visitsD [OF visits_sym_deps [OF ok chk cU] choice_marked [OF ok cU c p]] by blast
  have run1: "?m ?d0 = bnd (check_members chk ?ms) ?fin (unmarked {c} d1)"
    using d1(1) by (simp add: thn_def bnd_def unmark_run)
  have "fine k U (bnd (check_members chk ?ms) ?fin) (unmarked {c} d1)"
    using f d1(2) by (simp add: fine_def quiet_def run run1 post_def)
  then have "fine k U (check_members chk ?ms) (unmarked {c} d1)"
    by (rule fine_first) (intro grows_rules grows_members grows_as_choice chk(2))+
  moreover have "set ?ms \<subseteq> U" using choiceD(3) [OF ok cU c] by blast
  ultimately obtain d2 where d2: "check_members chk ?ms (unmarked {c} d1) = Ok (None, d2)"
    "post k U (group_deps k c) (unmarked {c} d1) d2"
    using visitsD [OF visits_members [OF ok chk] choice_own_done(2) [OF ok cU c p d1(2), unfolded group_deps_def]]
    unfolding group_deps_def by blast
  have "?m ?d0 = Ok (None, unmarked (set ?ms) d2)"
    unfolding run1 bnd_run [of "check_members chk ?ms" "unmarked {c} d1", OF d2(1)] marks_first
    by (simp add: as_choice_def ret_def)
  then show ?thesis unfolding run using choice_all_done [OF ok cU c p d1(2) d2(2)] by blast
qed

section \<open>The search\<close>

lemma visits_body:
  assumes ok: "deps_ok k U" and g: "\<And>t. grows (chk t)"
    and chk: "\<And>t. t \<in> U \<Longrightarrow> visits k U (n - 1) {t} (chk t)"
      "\<And>t. t \<in> U \<Longrightarrow> \<not> sym_is_choice_value (symtab k t) \<Longrightarrow> visits k U n {t} (chk t)"
    and j: "j = (if sym_is_choice_value (symtab k s) then n else Suc n)"
  shows "visits k U j {s} (sym_check_deps_body chk s)"
  unfolding visits_def
proof (intro allI impI, elim conjE)
  fix d assume p: "pre k U j {s} d" and f: "fine k U (sym_check_deps_body chk s) d"
  have sU: "s \<in> U" and con: "consistent k U d" using p by (auto simp: pre_def)
  then have st: "static k d" by (simp add: consistent_def)
  let ?w = "if sym_is_choice_value (symtab k s) then check_value chk s
      else if sym_is_choice (symtab k s) then sym_check_choice_deps chk s else check_plain chk s"
  consider (grey) "s \<in> grey d" | (black) "s \<notin> grey d" "s \<in> checked d" | (white) "s \<notin> grey d" "s \<notin> checked d" by blast
  then show "\<exists>d'. sym_check_deps_body chk s d = Ok (None, d') \<and> post k U {s} d d'"
  proof cases
    case grey
    then have "sym_check_deps_body chk s d = thn (sym_check_print_recursive s) (ret (Some s)) d"
      by (simp add: sym_check_deps_body_def of_sym_def prog_defs grey_def)
    then have "\<not> quiet (sym_check_deps_body chk s) d" using print_recursive_prints by (auto simp: quiet_def thn_Ok)
    moreover have "\<not> acyclic (may_rel k U)" using p grey by (auto simp: pre_def paths_def acyclic_def)
    ultimately show ?thesis using f by (simp add: fine_def)
  next
    case black
    then have "sym_check_deps_body chk s d = Ok (None, d)"
      by (simp add: sym_check_deps_body_def of_sym_def prog_defs grey_def checked_def)
    moreover have "post k U {s} d d" using con black by (simp add: post_def)
    ultimately show ?thesis by blast
  next
    case white
    then have run: "sym_check_deps_body chk s d = bnd ?w (\<lambda>x. ret (if x = Some s then None else x)) d"
      using staticD(3,4) [OF st, of s]
      by (simp add: sym_check_deps_body_def of_sym_def gets_def bnd_def grey_def checked_def)
    have "fine k U (bnd ?w (\<lambda>x. ret (if x = Some s then None else x))) d"
      using f by (simp add: fine_def quiet_def run)
    then have f': "fine k U ?w d"
      by (rule fine_first) (intro grows_rules grows_sym_deps grows_choice_deps grows_choice_of_value g | simp
          add: check_value_def check_plain_def)+
    have "\<exists>d'. ?w d = Ok (None, d') \<and> post k U {s} d d'"
    proof (cases "sym_is_choice_value (symtab k s)")
      case True
      then show ?thesis using visits_value [OF ok chk(2) g] p white(2) f' j by simp
    next
      case nv: False
      then have p': "pre k U (Suc n) {s} d" using p j by simp
      show ?thesis
      proof (cases "sym_is_choice (symtab k s)")
        case True
        have "\<exists>d'. check_choice chk s d0 = Ok (None, d') \<and> post k U {s} d0 d'"
          if same: "conf d0 = conf d" "fine k U (check_choice chk s) d0" for d0
          using visits_choice [OF ok chk(1) g True _ _ same(2)] p' white(2) conf_only(1) [OF same(1)]
            conf_sets(2) [OF same(1)] by simp
        from framed_at [OF this grows_check_choice [OF g]] show ?thesis
          using f' True nv by (simp add: sym_check_choice_deps_def)
      next
        case False
        then show ?thesis using visits_plain [OF ok chk(1) g False nv p' white(2)] f' nv by simp
      qed
    qed
    then show ?thesis unfolding run by (auto simp: bnd_def ret_def)
  qed
qed

lemma visits_check_deps:
  assumes ok: "deps_ok k U"
  shows "s \<in> U \<Longrightarrow> visits k U (if sym_is_choice_value (symtab k s) then n - 1 else n) {s} (sym_check_deps n s)"
proof (induction n arbitrary: s)
  case 0
  then show ?case by (simp add: visits_def pre_def)
next
  case (Suc n)
  have "visits k U (n - 1) {t} (sym_check_deps n t)" if "t \<in> U" for t
    using Suc.IH [OF that] visits_weaken [of k U n "{t}" _ "n - 1"] by (simp split: if_splits)
  moreover have "visits k U n {t} (sym_check_deps n t)" if "t \<in> U" "\<not> sym_is_choice_value (symtab k t)" for t
    using Suc.IH [OF that(1)] that(2) by simp
  ultimately have "visits k U (if sym_is_choice_value (symtab k s) then n else Suc n) {s}
      (sym_check_deps_body (sym_check_deps n) s)"
    by (intro visits_body [OF ok grows_check_deps]) auto
  then show ?case by (simp split: if_splits)
qed

lemma check_symbols_visits:
  assumes ok: "deps_ok k U"
  shows "pre k U (n - 1) (set ss) d \<Longrightarrow> \<forall>s \<in> set ss. stype (symtab k s) \<noteq> S_OTHER \<Longrightarrow> fine k U (check_symbols n ss) d \<Longrightarrow>
    \<exists>d'. check_symbols n ss d = Ok (0, d') \<and> post k U (set ss) d d'"
proof (induction ss arbitrary: d)
  case Nil
  then show ?case by (auto simp: ret_def pre_def post_refl)
next
  case (Cons s ss)
  let ?next = "\<lambda>r. bnd (check_symbols n ss) (\<lambda>c. ret (if r = None then c else Suc c))"
  have st: "static k d" and s: "s \<in> U" using Cons.prems(1) by (auto simp: pre_def consistent_def)
  have run: "check_symbols n (s # ss) d = bnd (sym_check_deps n s) ?next d"
    using Cons.prems(2) staticD(5) [OF st, of s] by (simp add: of_sym_def gets_def bnd_def)
  have f: "fine k U (bnd (sym_check_deps n s) ?next) d" using Cons.prems(3) by (simp only: fine_def quiet_def run)
  have g: "grows (check_symbols n ss)" for ss
    by (induction ss) (auto intro!: grows_rules grows_check_deps)
  have "visits k U (n - 1) {s} (sym_check_deps n s)"
    using visits_check_deps [OF ok s, of n] visits_weaken [of k U n "{s}" _ "n - 1"] by (simp split: if_splits)
  moreover have "pre k U (n - 1) {s} d" using Cons.prems(1) by (rule pre_subset) auto
  moreover have "fine k U (sym_check_deps n s) d"
    using f by (rule fine_first) (intro grows_rules grows_check_deps g)+
  ultimately obtain d1 where d1: "sym_check_deps n s d = Ok (None, d1)" "post k U {s} d d1" using visitsD by blast
  have "fine k U (?next None) d1" using fine_next [OF f d1(1)] d1(2) by (simp add: post_def)
  then have "fine k U (check_symbols n ss) d1" by (rule fine_first) (intro grows_rules g)+
  moreover have "pre k U (n - 1) (set ss) d1" using pre_post [OF ok _ d1(2)] Cons.prems(1) by simp
  ultimately obtain d2 where d2: "check_symbols n ss d1 = Ok (0, d2)" "post k U (set ss) d1 d2"
    using Cons.IH Cons.prems(2) by auto
  have "check_symbols n (s # ss) d = Ok (0, d2)" unfolding run using d1(1) d2(1) by (simp add: bnd_def ret_def)
  then show ?case using post_trans [OF d1(2) d2(2)] by simp
qed

section \<open>Properties\<close>

text \<open>
  The symbols of the table, all of them unmarked, and the constants, which depend on nothing.
\<close>

definition parsed :: "kconf \<Rightarrow> sym set \<Rightarrow> bool" where
  "parsed k U \<longleftrightarrow> deps_ok k U \<and> set (all_syms k) \<subseteq> U
     \<and> (\<forall>s \<in> U. s \<notin> set (all_syms k) \<longrightarrow> direct_deps k s = {} \<and> \<not> sym_is_choice_value (symtab k s))
     \<and> (\<forall>s. stype (symtab k s) \<noteq> S_OTHER \<and> flags (symtab k s) \<inter> {SYMBOL_CHECK, SYMBOL_CHECKED} = {})"

lemma parse_check_visits:
  assumes "parsed k U" and "2 * card U + 1 < n" and "fine k U (conf_parse_check n) (start k)"
  shows "\<exists>d. conf_parse_check n (start k) = Ok (0, d) \<and> post k U (set (all_syms k)) (start k) d"
proof -
  have ok: "deps_ok k U" and sub: "set (all_syms k) \<subseteq> U" and ty: "\<forall>s. stype (symtab k s) \<noteq> S_OTHER"
    and fl: "flags (symtab k s) \<inter> {SYMBOL_CHECK, SYMBOL_CHECKED} = {}" for s using assms(1) by (auto simp: parsed_def)
  have run: "conf_parse_check n (start k) = check_symbols n (all_syms k) (start k)"
    by (simp add: conf_parse_check_def gets_def bnd_def start_def)
  have none: "grey (start k) = {}" "checked (start k) = {}" using fl by (auto simp: grey_def checked_def start_def)
  have "static k (start k)" by (simp add: static_def start_def)
  then have "consistent k U (start k)" by (simp add: consistent_def none)
  then have "pre k U (n - 1) (set (all_syms k)) (start k)"
    using sub assms(2) by (simp add: pre_def none paths_def pending_def)
  moreover have "fine k U (check_symbols n (all_syms k)) (start k)" using assms(3) by (simp add: fine_def quiet_def run)
  ultimately show ?thesis using check_symbols_visits [OF ok, of n "all_syms k" "start k"] ty by (simp add: run)
qed

lemma safe_acyclic:
  assumes "U \<subseteq> safe k U"
  shows "acyclic (dep_rel k U)"
proof -
  have "s \<in> safe k U" for s
  proof (cases "s \<in> U")
    case False
    then show ?thesis unfolding safe_def by (rule_tac accI) (auto simp: dep_rel_def)
  qed (use assms in blast)
  then have "wf ((dep_rel k U)\<inverse>)" unfolding safe_def by (simp add: acc_wfI)
  then show ?thesis using wf_acyclic acyclic_converse by metis
qed

text \<open>Where only its members depend on a choice, the two relations have the same cycles.\<close>

definition choices_private :: "kconf \<Rightarrow> sym set \<Rightarrow> bool" where
  "choices_private k U \<longleftrightarrow> (\<forall>s \<in> U. \<forall>t \<in> direct_deps k s. sym_is_choice (symtab k t) \<longrightarrow>
     sym_is_choice_value (symtab k s) \<and> choice_of k s = Some t)"

lemma depends_closed:
  assumes "deps_ok k U" and "s \<in> U" and "depends k s t"
  shows "t \<in> U"
proof (cases "sym_is_choice_value (symtab k s)")
  case True
  then obtain c where c: "c \<in> U" "choice_of k s = Some c" "sym_is_choice (symtab k c)" "s \<in> set (members k c)"
    using choice_valueD [OF assms(1,2)] by metis
  then show ?thesis using assms(3) choice_deps(3) [OF assms(1) c(1,3,4)] group_deps_closed [OF assms(1) c(1,3)] by auto
next
  case False
  then show ?thesis using assms by (auto simp: depends_def deps_ok_def)
qed

lemma group_dep_plain:
  assumes "deps_ok k U" and "choices_private k U" and "c \<in> U" "sym_is_choice (symtab k c)"
    and "u \<in> group_deps k c" "u \<noteq> c"
  shows "\<not> sym_is_choice (symtab k u)"
proof -
  obtain m where m: "m \<in> set (members k c)" "u \<in> direct_deps k m" using assms(5) by (auto simp: group_deps_def)
  then show ?thesis using choiceD(3) [OF assms(1,3,4) m(1)] assms(2,6) by (auto simp: choices_private_def)
qed

lemma may_acc_step:
  assumes ok: "deps_ok k U" and priv: "choices_private k U"
    and below: "\<And>t. depends k s t \<Longrightarrow> (\<not> sym_is_choice (symtab k t) \<longrightarrow> t \<in> Wellfounded.acc ((may_rel k U)\<inverse>))
      \<and> (sym_is_choice (symtab k t) \<longrightarrow> direct_deps k t \<subseteq> Wellfounded.acc ((may_rel k U)\<inverse>))"
    and s: "s \<in> U" "\<not> sym_is_choice (symtab k s)"
  shows "s \<in> Wellfounded.acc ((may_rel k U)\<inverse>)"
proof (rule accI)
  let ?A = "Wellfounded.acc ((may_rel k U)\<inverse>)"
  fix t assume "(t, s) \<in> (may_rel k U)\<inverse>"
  then have t: "depends k s t" using s(2) by (auto simp: may_rel_def may_depend_def)
  show "t \<in> ?A"
  proof (cases "sym_is_choice (symtab k t)")
    case ch: True
    have tU: "t \<in> U" using depends_closed [OF ok s(1) t] .
    have mem: "s \<in> set (members k t)"
    proof (cases "sym_is_choice_value (symtab k s)")
      case True
      then obtain c where c: "c \<in> U" "choice_of k s = Some c" "sym_is_choice (symtab k c)" "s \<in> set (members k c)"
        using choice_valueD [OF ok s(1)] by metis
      then have "t = c" using t ch group_dep_plain [OF ok priv c(1,3)] choice_deps(3) [OF ok c(1,3,4)] by blast
      with c show ?thesis by simp
    next
      case False
      then show ?thesis using t ch priv s(1) by (auto simp: depends_def choices_private_def)
    qed
    show ?thesis
    proof (rule accI)
      fix u assume "(u, t) \<in> (may_rel k U)\<inverse>"
      then consider "u \<in> direct_deps k t" | "u \<in> group_deps k t" "u \<noteq> t"
        using choice_deps(2) [OF ok tU ch] by (auto simp: may_rel_def)
      then show "u \<in> ?A"
      proof cases
        case 1
        then show ?thesis using below [OF t] ch by blast
      next
        case 2
        then have "depends k s u" using choice_deps(3) [OF ok tU ch mem] by simp
        then show ?thesis using below group_dep_plain [OF ok priv tU ch 2] by blast
      qed
    qed
  qed (use below [OF t] in blast)
qed

lemma private_acyclic:
  assumes ok: "deps_ok k U" and priv: "choices_private k U" and ac: "acyclic (dep_rel k U)"
  shows "acyclic (may_rel k U)"
proof -
  let ?A = "Wellfounded.acc ((may_rel k U)\<inverse>)"
  have "dep_rel k U \<subseteq> U \<times> U" using depends_closed [OF ok] by (auto simp: dep_rel_def)
  then have "finite (dep_rel k U)" using ok finite_subset by (fastforce simp: deps_ok_def)
  then have wf: "wf ((dep_rel k U)\<inverse>)" using ac by (rule finite_acyclic_wf_converse)
  have outside: "s \<in> ?A" if "s \<notin> U" for s by (rule accI) (use that in \<open>auto simp: may_rel_def\<close>)
  have P: "(\<not> sym_is_choice (symtab k s) \<longrightarrow> s \<in> ?A) \<and> (sym_is_choice (symtab k s) \<longrightarrow> direct_deps k s \<subseteq> ?A)" if "s \<in> U" for s
    using wf that
  proof (induction s rule: wf_induct_rule)
    case (less s)
    have below: "(\<not> sym_is_choice (symtab k t) \<longrightarrow> t \<in> ?A) \<and> (sym_is_choice (symtab k t) \<longrightarrow> direct_deps k t \<subseteq> ?A)"
      if "depends k s t" for t
      using less.IH [of t] that depends_closed [OF ok less.prems that] less.prems by (simp add: dep_rel_def)
    have "direct_deps k s \<subseteq> ?A" if "sym_is_choice (symtab k s)"
    proof
      fix t assume t: "t \<in> direct_deps k s"
      have "\<not> sym_is_choice (symtab k t)"
        using t priv less.prems choiceD(1) [OF ok less.prems that] by (auto simp: choices_private_def)
      then show "t \<in> ?A" using below t choice_deps(1) [OF ok less.prems that] by blast
    qed
    then show ?case using may_acc_step [OF ok priv below less.prems] by blast
  qed
  have "s \<in> ?A" for s
  proof (cases "s \<in> U \<and> sym_is_choice (symtab k s)")
    case True
    show ?thesis
    proof (rule accI)
      fix u assume "(u, s) \<in> (may_rel k U)\<inverse>"
      then consider "u \<in> direct_deps k s" | "u \<in> group_deps k s" "u \<noteq> s"
        using choice_deps(2) [OF ok] True by (auto simp: may_rel_def)
      then show "u \<in> ?A"
      proof cases
        case 2
        then show ?thesis using P [of u] group_dep_plain [OF ok priv] group_deps_closed [OF ok] True by blast
      qed (use P [of s] True in blast)
    qed
  qed (use P [of s] outside [of s] in blast)
  then have "wf ((may_rel k U)\<inverse>)" by (simp add: acc_wfI)
  then show ?thesis using wf_acyclic acyclic_converse by metis
qed

lemma parse_check_both:
  assumes "parsed k U" and "2 * card U + 1 < n"
  shows "acyclic (may_rel k U) \<Longrightarrow> \<exists>d. conf_parse_check n (start k) = Ok (0, d) \<and> dep_log d = []"
    and "conf_parse_check n (start k) = Ok (c, d) \<Longrightarrow> dep_log d = [] \<Longrightarrow> c = 0 \<and> acyclic (dep_rel k U)"
proof -
  assume "acyclic (may_rel k U)"
  then have "fine k U (conf_parse_check n) (start k)" by (simp add: fine_def)
  from parse_check_visits [OF assms this] show "\<exists>d. conf_parse_check n (start k) = Ok (0, d) \<and> dep_log d = []"
    by (auto simp: post_def start_def)
next
  assume r: "conf_parse_check n (start k) = Ok (c, d)" "dep_log d = []"
  then have "fine k U (conf_parse_check n) (start k)" by (auto simp: fine_def quiet_def start_def)
  from parse_check_visits [OF assms this] r have c: "c = 0" "post k U (set (all_syms k)) (start k) d" by auto
  have "s \<in> safe k U" if "s \<in> U" for s
  proof (cases "s \<in> set (all_syms k)")
    case False
    then have "\<not> depends k s t" for t using assms(1) that by (auto simp: parsed_def depends_def)
    then show ?thesis by (auto intro: safeI [of k s U])
  qed (use post_safe [OF c(2)] in blast)
  then show "c = 0 \<and> acyclic (dep_rel k U)" using c(1) safe_acyclic by blast
qed


definition chain_symbol :: "nat \<Rightarrow> symbol" where
  "chain_symbol n = (new_symbol (Some ''OPT'') {})\<lparr>stype := S_BOOLEAN,
     props := (if n = 0 then [\<lparr>ptype = P_PROMPT, ptext = Some ''opt'', pvisible = \<lparr>vexpr = Some (Symbol (Sym 1)), vtri = No\<rparr>,
       pexpr = None, ppos = (''Config.in'', 1), pmenu = None\<rparr>] else [])\<rparr>"

definition chain_kconf :: kconf where
  "chain_kconf = (mk_kconf chain_symbol)\<lparr>symbol_hash := (\<lambda>i. if i = 0 then [Sym 0, Sym 1] else [])\<rparr>"

lemma first_bucket_only:
  assumes "symbol_hash k = (\<lambda>i. if i = 0 then ss else [])"
  shows "all_syms k = ss"
proof -
  have "concat (map (symbol_hash k) [0..<Suc n]) = ss" for n by (induction n) (simp_all add: assms)
  from this [of "SYMBOL_HASHSIZE - 1"] show ?thesis
    by (simp only: all_syms_def) (simp add: SYMBOL_HASHSIZE_def del: upt_Suc)
qed

lemma chain_parsed: "parsed chain_kconf {Sym 0, Sym 1}"
proof -
  have s: "symtab chain_kconf = symtab (mk_kconf chain_symbol)" by (simp add: chain_kconf_def)
  have "direct_deps chain_kconf (Sym 0) = {Sym 1}" "direct_deps chain_kconf (Sym 1) = {}"
    by (simp_all add: direct_deps_def s chain_symbol_def new_symbol_def no_expr_def null_syms_def prop_deps_def)
  moreover have "\<not> sym_is_choice (symtab chain_kconf x)" "\<not> sym_is_choice_value (symtab chain_kconf x)"
    "stype (symtab chain_kconf x) \<noteq> S_OTHER" "flags (symtab chain_kconf x) \<inter> {SYMBOL_CHECK, SYMBOL_CHECKED} = {}" for x
    by (cases x; simp add: s chain_symbol_def new_symbol_def sym_is_choice_def sym_is_choice_value_def)+
  moreover have "all_syms chain_kconf = [Sym 0, Sym 1]" by (rule first_bucket_only) (simp add: chain_kconf_def)
  ultimately show ?thesis by (auto simp: parsed_def deps_ok_def choices_ok_def)
qed


text \<open>
  A symbol that depends on a choice, one of whose members depends on the symbol: whether this is
  reported depends on the order in which the symbols are checked.
\<close>

definition visible_if :: "nat \<Rightarrow> property" where
  "visible_if n = \<lparr>ptype = P_PROMPT, ptext = Some ''opt'', pvisible = \<lparr>vexpr = Some (Symbol (Sym n)), vtri = No\<rparr>,
     pexpr = None, ppos = (''Config.in'', 1), pmenu = Some (1, ''Config.in'', 1)\<rparr>"

definition choice_prop :: "expr \<Rightarrow> property" where
  "choice_prop e = \<lparr>ptype = P_CHOICE, ptext = None, pvisible = no_expr, pexpr = Some e, ppos = (''Config.in'', 1),
     pmenu = Some (1, ''Config.in'', 1)\<rparr>"

definition through_choice :: kconf where
  "through_choice = mk_kconf (\<lambda>n.
     if n = 0 then (new_symbol (Some ''X'') {})\<lparr>stype := S_BOOLEAN, props := [visible_if 1]\<rparr>
     else if n = 1 then (new_symbol (Some ''C'') {SYMBOL_CHOICE})\<lparr>stype := S_BOOLEAN,
       props := [choice_prop (EList None (Some (Sym 2)))]\<rparr>
     else (new_symbol (Some ''M'') {SYMBOL_CHOICEVAL})\<lparr>stype := S_BOOLEAN,
       props := [visible_if 0, choice_prop (Symbol (Sym 1))]\<rparr>)"

definition printed :: "(nat \<times> dstate) res \<Rightarrow> bool" where
  "printed r = (case r of Ok (_, d) \<Rightarrow> dep_log d \<noteq> [] | _ \<Rightarrow> False)"

definition silent :: "(nat \<times> dstate) res \<Rightarrow> bool" where
  "silent r = (case r of Ok (_, d) \<Rightarrow> dep_log d = [] | _ \<Rightarrow> False)"

definition crashed :: "(nat \<times> dstate) res \<Rightarrow> bool" where
  "crashed r = (case r of Crash \<Rightarrow> True | _ \<Rightarrow> False)"


text \<open>
  A cycle through a symbol that is only selected and never defined: the message about it reads the
  position of a property that does not exist.
\<close>

definition undefined_selected :: kconf where
  "undefined_selected = mk_kconf (\<lambda>n.
     if n = 0 then (new_symbol (Some ''A'') {})\<lparr>stype := S_BOOLEAN, props := [visible_if 1]\<rparr>
     else (new_symbol (Some ''B'') {})\<lparr>rev_dep := \<lparr>vexpr = Some (And (Symbol (Sym 0)) (Symbol (Sym 1))), vtri = No\<rparr>\<rparr>)"

lemma cycle_report_crashes:
  "crashed (check_symbols 9 [Sym 0, Sym 1] (start undefined_selected))"
  by code_simp

end
