(* ===== verification/Kconfig_Finalize.thy ===== *)
theory Kconfig_Finalize
  imports Kconfig_Menu
begin

text \<open>
  \<^verbatim>\<open>menu_finalize\<close> (\<^verbatim>\<open>support/kconfig/menu.c\<close>), which runs once over the parsed tree.
  It passes the dependency of every menu on to its entries and their properties, collects the
  members of choices, makes an entry the parent of the entries after it that depend on it, and lifts
  the entries out of blocks that have no prompt. The menus are a heap: the links and the contents of
  the menu at an address. The theory shows that the function ends, that it keeps the tree well
  formed, and that the entries stay in the order in which they were parsed.
\<close>

section \<open>The code\<close>

datatype menu_warning =
    Type_redefined | Choice_value_prompt | Default_in_choice | Used_outside | No_type | Choice_prompt

datatype warning = Menu_warn nat menu_warning | Prop_warn position menu_warning | Check_warn sym prop_warning

text \<open>
  The state: the engine, the menus with their positions, \<^verbatim>\<open>current_entry\<close>, the position at
  which parsing ended, and the warnings printed.
\<close>

record fstate =
  fk :: kconf
  links :: "nat \<Rightarrow> mnode"
  info :: "nat \<Rightarrow> menu_entry"
  mpos :: "nat \<Rightarrow> position"
  cur :: nat
  here :: position
  warnings :: "warning list"

type_synonym 'a fprog = "(fstate, 'a) prog"

definition sym_at :: "sym \<Rightarrow> (symbol \<Rightarrow> 'a) \<Rightarrow> 'a fprog" where
  "sym_at s f = gets (\<lambda>st. f (symtab (fk st) s))"

definition upd_sym :: "sym \<Rightarrow> (symbol \<Rightarrow> symbol) \<Rightarrow> unit fprog" where
  "upd_sym s f = modify (\<lambda>st. st\<lparr>fk := put_sym s f (fk st)\<rparr>)"

definition upd_prop :: "sym \<Rightarrow> nat \<Rightarrow> (property \<Rightarrow> property) \<Rightarrow> unit fprog" where
  "upd_prop s i f = upd_sym s (\<lambda>y. y\<lparr>props := (props y)[i := f (props y ! i)]\<rparr>)"

definition link_of :: "(mnode \<Rightarrow> 'a) \<Rightarrow> nat \<Rightarrow> 'a fprog" where
  "link_of f m = gets (\<lambda>st. f (links st m))"

definition upd_links :: "((nat \<Rightarrow> mnode) \<Rightarrow> (nat \<Rightarrow> mnode)) \<Rightarrow> unit fprog" where
  "upd_links f = modify (\<lambda>st. st\<lparr>links := f (links st)\<rparr>)"

definition info_of :: "(menu_entry \<Rightarrow> 'a) \<Rightarrow> nat \<Rightarrow> 'a fprog" where
  "info_of f m = gets (\<lambda>st. f (info st m))"

definition upd_info :: "nat \<Rightarrow> (menu_entry \<Rightarrow> menu_entry) \<Rightarrow> unit fprog" where
  "upd_info m f = modify (\<lambda>st. st\<lparr>info := (info st)(m := f (info st m))\<rparr>)"

definition set_current :: "nat \<Rightarrow> unit fprog" where
  "set_current m = modify (\<lambda>st. st\<lparr>cur := m\<rparr>)"

definition warn_if :: "bool \<Rightarrow> warning \<Rightarrow> unit fprog" where
  "warn_if b w = (if b then modify (\<lambda>st. st\<lparr>warnings := warnings st @ [w]\<rparr>) else ret ())"

definition vis_expr :: "property \<Rightarrow> expr option" where
  "vis_expr p = vexpr (pvisible p)"

definition set_vis :: "expr option \<Rightarrow> property \<Rightarrow> property" where
  "set_vis e p = p\<lparr>pvisible := (pvisible p)\<lparr>vexpr := e\<rparr>\<rparr>"

text \<open>The property that \<^verbatim>\<open>menu->prompt\<close> points to.\<close>

definition menu_prompt :: "nat \<Rightarrow> property option fprog" where
  "menu_prompt m = bnd (gets (\<lambda>st. info st m)) (\<lambda>i. case mprompt i of
       None \<Rightarrow> ret None
     | Some (Own p) \<Rightarrow> ret (Some p)
     | Some (Of_symbol j) \<Rightarrow> bnd (deref (msym i)) (\<lambda>s. bnd (sym_at s props) (\<lambda>ps.
         if j < length ps then ret (Some (ps ! j)) else crash)))"

text \<open>The loop over a chain of menus.\<close>

fun each_menu :: "nat \<Rightarrow> nat option \<Rightarrow> (nat \<Rightarrow> unit fprog) \<Rightarrow> unit fprog" where
  "each_menu n None f = ret ()"
| "each_menu 0 (Some m) f = no_fuel"
| "each_menu (Suc n) (Some m) f = thn (f m) (bnd (link_of nxt m) (\<lambda>i. each_menu n i f))"

definition each_child :: "nat \<Rightarrow> nat \<Rightarrow> (nat \<Rightarrow> unit fprog) \<Rightarrow> unit fprog" where
  "each_child n parent f = bnd (link_of lst parent) (\<lambda>i. each_menu n i f)"

subsection \<open>Types of choices\<close>

definition entry_type :: "nat \<Rightarrow> symbol_type option fprog" where
  "entry_type m = gets (\<lambda>st. map_option (\<lambda>s. stype (symtab (fk st) s)) (msym (info st m)))"

definition set_type :: "symbol_type \<Rightarrow> unit fprog" where
  "set_type ty = bnd (gets cur) (\<lambda>m. bnd (info_of msym m) (\<lambda>os. bnd (deref os) (\<lambda>s. bnd (sym_at s (menu_set_type ty)) (\<lambda>(y, w).
     thn (upd_sym s (\<lambda>_. y)) (warn_if w (Menu_warn m Type_redefined))))))"

fun first_type :: "nat \<Rightarrow> nat option \<Rightarrow> unit fprog" where
  "first_type n None = ret ()"
| "first_type 0 (Some m) = no_fuel"
| "first_type (Suc n) (Some m) = bnd (entry_type m) (\<lambda>ty.
     if ty \<noteq> None \<and> ty \<noteq> Some S_UNKNOWN then set_type (the ty) else bnd (link_of nxt m) (first_type n))"

definition choice_types :: "nat \<Rightarrow> nat \<Rightarrow> sym \<Rightarrow> unit fprog" where
  "choice_types n parent s = bnd (sym_at s stype) (\<lambda>ty.
     thn (if ty = S_UNKNOWN then thn (set_current parent) (bnd (link_of lst parent) (first_type n)) else ret ())
       (each_child n parent (\<lambda>m. thn (set_current m) (bnd (entry_type m) (\<lambda>t.
          if t = Some S_UNKNOWN then bnd (sym_at s stype) set_type else ret ())))))"

subsection \<open>Dependencies\<close>

definition eliminate_dups :: "expr option \<Rightarrow> expr option fprog" where
  "eliminate_dups e = (case e of None \<Rightarrow> ret None | Some e' \<Rightarrow> bnd (gets fk) (\<lambda>k.
     case expr_eliminate_dups k e' of None \<Rightarrow> no_fuel | Some d \<Rightarrow> ret (Some d)))"

definition with_base :: "expr option \<Rightarrow> expr option \<Rightarrow> expr option fprog" where
  "with_base base e = bnd (gets fk) (\<lambda>k.
     eliminate_dups (expr_alloc_and (copy_null base) (map_option (expr_transform k) e)))"

definition parent_dep :: "nat \<Rightarrow> sym option \<Rightarrow> bool \<Rightarrow> expr option fprog" where
  "parent_dep parent sy choice =
     (if choice then ret (map_option expr_alloc_symbol sy)
      else bnd (menu_prompt parent) (\<lambda>p. case p of Some q \<Rightarrow> ret (vis_expr q) | None \<Rightarrow> info_of mdep parent))"

definition prop_dep :: "expr option \<Rightarrow> symbol_type option \<Rightarrow> expr option \<Rightarrow> expr option fprog" where
  "prop_dep base ty e = bnd (with_base base e) (\<lambda>d. bnd (gets fk) (\<lambda>k.
     ret (if ty \<noteq> None \<and> ty \<noteq> Some S_TRISTATE then map_option (expr_trans_bool k) d else d)))"

definition of_menu :: "nat \<Rightarrow> property \<Rightarrow> bool" where
  "of_menu m p \<longleftrightarrow> map_option fst (pmenu p) = Some m"

definition add_select :: "sym \<Rightarrow> expr option \<Rightarrow> property \<Rightarrow> unit fprog" where
  "add_select s d p = (if ptype p = P_SELECT then bnd (deref (prop_get_symbol p)) (\<lambda>es.
     upd_sym es (\<lambda>y. y\<lparr>rev_dep := (rev_dep y)\<lparr>vexpr :=
       expr_alloc_or (vexpr (rev_dep y)) (expr_alloc_and (Some (expr_alloc_symbol s)) (copy_null d))\<rparr>\<rparr>)) else ret ())"

definition propagate_prop :: "nat \<Rightarrow> sym \<Rightarrow> expr option \<Rightarrow> nat \<Rightarrow> unit fprog" where
  "propagate_prop m s base i = bnd (sym_at s (\<lambda>y. props y ! i)) (\<lambda>p. if \<not> of_menu m p then ret () else
     bnd (sym_at s stype) (\<lambda>ty. bnd (prop_dep base (Some ty) (vis_expr p)) (\<lambda>d.
       thn (upd_prop s i (set_vis d)) (add_select s d p))))"

text \<open>The prompt of an entry without a symbol is a menu or a comment, and never selects.\<close>

definition propagate_own :: "nat \<Rightarrow> expr option \<Rightarrow> unit fprog" where
  "propagate_own m base = bnd (menu_prompt m) (\<lambda>q. case q of None \<Rightarrow> ret ()
     | Some p \<Rightarrow> if \<not> of_menu m p then ret () else bnd (prop_dep base None (vis_expr p)) (\<lambda>d.
         if ptype p = P_SELECT then crash else upd_info m (\<lambda>i. i\<lparr>mprompt := Some (Own (set_vis d p))\<rparr>)))"

definition propagate :: "expr option \<Rightarrow> nat \<Rightarrow> unit fprog" where
  "propagate parentdep m = bnd (info_of mdep m) (\<lambda>e. bnd (with_base parentdep e) (\<lambda>base.
     thn (upd_info m (\<lambda>i. i\<lparr>mdep := base\<rparr>)) (bnd (info_of msym m) (\<lambda>sy. case sy of
         Some s \<Rightarrow> bnd (sym_at s props) (\<lambda>ps. for_each [0..<length ps] (propagate_prop m s base))
       | None \<Rightarrow> propagate_own m base))))"

definition is_choice :: "sym option \<Rightarrow> bool fprog" where
  "is_choice sy = (case sy of None \<Rightarrow> ret False | Some s \<Rightarrow> sym_at s sym_is_choice)"

text \<open>A menu with entries; \<open>rec\<close> is the recursive call.\<close>

definition finalize_block :: "(nat \<Rightarrow> unit fprog) \<Rightarrow> nat \<Rightarrow> nat \<Rightarrow> sym option \<Rightarrow> unit fprog" where
  "finalize_block rec n parent sy = bnd (is_choice sy) (\<lambda>choice.
     thn (if choice then choice_types n parent (the sy) else ret ())
       (bnd (parent_dep parent sy choice) (\<lambda>dep.
          thn (each_child n parent (propagate dep)) (each_child n parent rec))))"

subsection \<open>Entries that depend on the one before\<close>

definition simplified :: "expr option \<Rightarrow> expr option fprog" where
  "simplified e = bnd (gets fk) (\<lambda>k.
     eliminate_dups (map_option (expr_transform k) (expr_trans_compare_null e E_UNEQUAL symbol_no)))"

definition eliminate_eq :: "expr option \<Rightarrow> expr option \<Rightarrow> expr option \<times> expr option" where
  "eliminate_eq a b = (case (a, b) of
       (Some e1, Some e2) \<Rightarrow> (case expr_eliminate_eq e1 e2 0 of (f1, f2, _) \<Rightarrow> (Some f1, Some f2))
     | _ \<Rightarrow> (a, b))"

definition entry_base :: "nat \<Rightarrow> expr option fprog" where
  "entry_base parent = bnd (menu_prompt parent) (\<lambda>p. simplified (Option.bind p vis_expr))"

definition entry_dep :: "nat \<Rightarrow> expr option fprog" where
  "entry_dep m = bnd (menu_prompt m) (\<lambda>p. case p of Some q \<Rightarrow> ret (vis_expr q) | None \<Rightarrow> info_of mdep m)"

definition belongs :: "sym \<Rightarrow> expr option \<Rightarrow> nat \<Rightarrow> bool fprog" where
  "belongs s base m = bnd (entry_dep m) (\<lambda>dep. case dep of None \<Rightarrow> ret False
     | Some e \<Rightarrow>
        if \<not> expr_contains_symbol e s then ret False
        else if expr_depends_symbol e s then ret True
        else bnd (simplified dep) (\<lambda>d. ret (expr_is_yes (snd (eliminate_eq d (copy_null base))))))"

fun take_entries :: "(nat \<Rightarrow> unit fprog) \<Rightarrow> nat \<Rightarrow> nat \<Rightarrow> sym \<Rightarrow> expr option \<Rightarrow> nat option \<Rightarrow> nat option \<Rightarrow> nat option fprog" where
  "take_entries rec n parent s base None lm = ret lm"
| "take_entries rec 0 parent s base (Some m) lm = no_fuel"
| "take_entries rec (Suc n) parent s base (Some m) lm = bnd (belongs s base m) (\<lambda>b.
     if \<not> b then ret lm
     else thn (rec m) (thn (upd_links (\<lambda>h. h(m := (h m)\<lparr>par := Some parent\<rparr>)))
       (bnd (link_of nxt m) (\<lambda>i. take_entries rec n parent s base i (Some m)))))"

definition relink :: "nat \<Rightarrow> nat option \<Rightarrow> unit fprog" where
  "relink parent lm = (case lm of None \<Rightarrow> ret () | Some l \<Rightarrow>
     thn (upd_links (\<lambda>h. h(parent := (h parent)\<lparr>lst := nxt (h parent)\<rparr>)))
       (thn (upd_links (\<lambda>h. h(parent := (h parent)\<lparr>nxt := nxt (h l)\<rparr>))) (upd_links (\<lambda>h. h(l := (h l)\<lparr>nxt := None\<rparr>)))))"

definition finalize_entry :: "(nat \<Rightarrow> unit fprog) \<Rightarrow> nat \<Rightarrow> nat \<Rightarrow> sym \<Rightarrow> unit fprog" where
  "finalize_entry rec n parent s = bnd (entry_base parent) (\<lambda>base. bnd (link_of nxt parent) (\<lambda>i.
     bnd (take_entries rec n parent s base i None) (\<lambda>lm. thn (relink parent lm) (bnd (info_of mdep parent) (\<lambda>d.
       upd_sym s (\<lambda>y. y\<lparr>dir_dep := (dir_dep y)\<lparr>vexpr := expr_alloc_or (vexpr (dir_dep y)) d\<rparr>\<rparr>))))))"

subsection \<open>Members of choices and blocks without a prompt\<close>

definition member_warning :: "sym \<Rightarrow> nat \<Rightarrow> property \<Rightarrow> unit fprog" where
  "member_warning s m p = thn (warn_if (ptype p = P_DEFAULT) (Prop_warn (ppos p) Default_in_choice))
     (if of_menu m p \<or> ptype p \<noteq> P_PROMPT then ret ()
      else bnd (deref (pmenu p)) (\<lambda>(q, _). bnd (link_of par q) (\<lambda>r. bnd (deref r) (\<lambda>r'. bnd (info_of msym r') (\<lambda>u.
        warn_if (u \<noteq> Some s) (Prop_warn (ppos p) Used_outside))))))"

definition tie_to_choice :: "sym \<Rightarrow> nat \<Rightarrow> sym \<Rightarrow> unit fprog" where
  "tie_to_choice s m t = (let base = expr_alloc_comp E_EQUAL s symbol_yes in
     thn (upd_info m (\<lambda>i. i\<lparr>mdep := expr_alloc_and (Some base) (mdep i)\<rparr>)) (bnd (sym_at t props) (\<lambda>ps.
       for_each [0..<length ps] (\<lambda>i. bnd (sym_at t (\<lambda>y. props y ! i)) (\<lambda>p. if \<not> of_menu m p then ret ()
         else upd_prop t i (\<lambda>p. set_vis (expr_alloc_and (expr_copy base) (vis_expr p)) p))))))"

text \<open>The end of the chain of list cells.\<close>

fun append_member :: "expr option \<Rightarrow> sym \<Rightarrow> expr option" where
  "append_member None t = Some (EList None (Some t))"
| "append_member (Some (EList l r)) t = map_option (\<lambda>l'. EList (Some l') r) (append_member l t)"
| "append_member _ t = None"

fun choice_index :: "property list \<Rightarrow> nat option" where
  "choice_index [] = None"
| "choice_index (p # ps) = (if ptype p = P_CHOICE then Some 0 else map_option Suc (choice_index ps))"

definition menu_add_symbol :: "prop_type \<Rightarrow> sym \<Rightarrow> expr option \<Rightarrow> unit fprog" where
  "menu_add_symbol ty s dep = bnd (gets (\<lambda>st. st)) (\<lambda>st. bnd (deref (msym (info st (cur st)))) (\<lambda>t.
     upd_sym t (add_prop (menu_add_prop (modules_sym (fk st)) (here st) (cur st, mpos st (cur st)) [] ty None
       (Some (expr_alloc_symbol s)) dep))))"

definition add_member :: "sym \<Rightarrow> sym \<Rightarrow> unit fprog" where
  "add_member s t = thn (menu_add_symbol P_CHOICE s None) (bnd (sym_at s (\<lambda>y. choice_index (props y))) (\<lambda>oi.
     bnd (deref oi) (\<lambda>i. bnd (sym_at s (\<lambda>y. append_member (pexpr (props y ! i)) t)) (\<lambda>e. bnd (deref e) (\<lambda>e'.
       upd_prop s i (\<lambda>p. p\<lparr>pexpr := Some e'\<rparr>))))))"

definition choose_member :: "sym \<Rightarrow> nat \<Rightarrow> sym \<Rightarrow> unit fprog" where
  "choose_member s m t = thn (set_current m) (thn (upd_sym t (\<lambda>y. y\<lparr>flags := flags y \<union> {SYMBOL_CHOICEVAL}\<rparr>))
     (bnd (menu_prompt m) (\<lambda>p. thn (warn_if (p = None) (Menu_warn m Choice_value_prompt))
     (bnd (sym_at t props) (\<lambda>ps. thn (for_each ps (member_warning s m))
     (bnd (sym_at s stype) (\<lambda>ty. bnd (sym_at t stype) (\<lambda>ty'.
       thn (if ty = S_TRISTATE \<and> ty' \<noteq> S_TRISTATE then tie_to_choice s m t else ret ()) (add_member s t)))))))))"

definition collect_member :: "sym option \<Rightarrow> nat \<Rightarrow> unit fprog" where
  "collect_member sy m = bnd (is_choice sy) (\<lambda>c. bnd (info_of msym m) (\<lambda>ty. case ty of
       Some t \<Rightarrow> bnd (sym_at t sym_is_choice_value) (\<lambda>v. if c \<and> \<not> v then choose_member (the sy) m t else ret ())
     | None \<Rightarrow> ret ()))"

fun adopt :: "nat \<Rightarrow> nat \<Rightarrow> nat \<Rightarrow> nat fprog" where
  "adopt 0 parent m = no_fuel"
| "adopt (Suc n) parent m = thn (upd_links (\<lambda>h. h(m := (h m)\<lparr>par := Some parent\<rparr>)))
     (bnd (link_of nxt m) (\<lambda>i. case i of None \<Rightarrow> ret m | Some m' \<Rightarrow> adopt n parent m'))"

definition lift_entries :: "nat \<Rightarrow> nat \<Rightarrow> nat \<Rightarrow> unit fprog" where
  "lift_entries n parent m = bnd (link_of lst m) (\<lambda>i. case i of None \<Rightarrow> ret () | Some c \<Rightarrow>
     bnd (menu_prompt m) (\<lambda>p. if Option.bind p ptext \<noteq> None then ret ()
     else bnd (adopt n parent c) (\<lambda>l. thn (upd_links (\<lambda>h. h(l := (h l)\<lparr>nxt := nxt (h m)\<rparr>)))
       (thn (upd_links (\<lambda>h. h(m := (h m)\<lparr>nxt := lst (h m)\<rparr>))) (upd_links (\<lambda>h. h(m := (h m)\<lparr>lst := None\<rparr>)))))))"

subsection \<open>The function\<close>

definition check_symbol :: "nat \<Rightarrow> sym \<Rightarrow> unit fprog" where
  "check_symbol parent s = bnd (sym_at s (\<lambda>y. y)) (\<lambda>y. if SYMBOL_WARNED \<in> flags y then ret () else
     thn (warn_if (stype y = S_UNKNOWN) (Menu_warn parent No_type)) (bnd (menu_prompt parent) (\<lambda>p.
     thn (warn_if (sym_is_choice y \<and> p = None) (Menu_warn parent Choice_prompt)) (bnd (gets fk) (\<lambda>k.
     bnd (deref (sym_check_prop k s)) (\<lambda>ws. thn (for_each ws (\<lambda>w. warn_if True (Check_warn s w)))
       (upd_sym s (\<lambda>y. y\<lparr>flags := flags y \<union> {SYMBOL_WARNED}\<rparr>))))))))"

definition mandatory :: "nat \<Rightarrow> sym \<Rightarrow> unit fprog" where
  "mandatory parent s = bnd (sym_at s sym_is_optional) (\<lambda>opt. bnd (menu_prompt parent) (\<lambda>p. case p of
       Some q \<Rightarrow> if opt then ret () else upd_sym s (\<lambda>y. y\<lparr>rev_dep := (rev_dep y)\<lparr>vexpr :=
         expr_alloc_or (vexpr (rev_dep y)) (expr_alloc_and (vis_expr q) (Some (expr_alloc_symbol symbol_mod)))\<rparr>\<rparr>)
     | None \<Rightarrow> ret ()))"

definition finalize_body :: "(nat \<Rightarrow> unit fprog) \<Rightarrow> nat \<Rightarrow> nat \<Rightarrow> unit fprog" where
  "finalize_body rec n parent = bnd (info_of msym parent) (\<lambda>sy. bnd (link_of lst parent) (\<lambda>l.
     thn (if l \<noteq> None then finalize_block rec n parent sy
          else (case sy of Some s \<Rightarrow> finalize_entry rec n parent s | None \<Rightarrow> ret ()))
    (thn (each_child n parent (\<lambda>m. thn (collect_member sy m) (lift_entries n parent m)))
         (case sy of Some s \<Rightarrow> thn (check_symbol parent s) (mandatory parent s) | None \<Rightarrow> ret ()))))"

text \<open>The argument bounds the depth of the recursion and the length of each loop.\<close>

primrec menu_finalize :: "nat \<Rightarrow> nat \<Rightarrow> unit fprog" where
  "menu_finalize 0 parent = no_fuel"
| "menu_finalize (Suc n) parent = finalize_body (menu_finalize n) n parent"

end
