(* ===== verification/Ub_Circbuf.thy ===== *)
theory Ub_Circbuf
  imports Br_Prelude
begin

text \<open>
  The circular buffer of U-Boot (\<^verbatim>\<open>lib/circbuf.c\<close>). Pointers into the data are indices;
  \<^verbatim>\<open>end\<close> is the index one past the data. What the serial gadget driver relies on is a queue
  that drops its oldest bytes when it is full: a locale, of which the buffer is an instance.
\<close>

section \<open>The buffer\<close>

record 'a circbuf =
  cb_size :: nat
  cb_totalsize :: nat
  cb_data :: "'a list"
  cb_top :: nat
  cb_tail :: nat

definition buf_init :: "'a list \<Rightarrow> 'a circbuf" where
  "buf_init mem = \<lparr>cb_size = 0, cb_totalsize = length mem, cb_data = mem, cb_top = 0, cb_tail = 0\<rparr>"

text \<open>A pointer that reached the end starts over.\<close>

definition wrap :: "nat \<Rightarrow> nat \<Rightarrow> nat" where
  "wrap tot p = (if p = tot then 0 else p)"

definition push_byte :: "'a circbuf \<Rightarrow> 'a \<Rightarrow> 'a circbuf" where
  "push_byte b c =
     (let b1 = b\<lparr>cb_data := (cb_data b)[cb_tail b := c], cb_tail := wrap (cb_totalsize b) (Suc (cb_tail b))\<rparr> in
      if cb_size b < cb_totalsize b then b1\<lparr>cb_size := Suc (cb_size b)\<rparr>
      else b1\<lparr>cb_top := wrap (cb_totalsize b) (Suc (cb_top b))\<rparr>)"

definition buf_push :: "'a list \<Rightarrow> 'a circbuf \<Rightarrow> 'a circbuf" where
  "buf_push src b = foldl push_byte b src"

primrec pop_loop :: "nat \<Rightarrow> 'a circbuf \<Rightarrow> nat \<Rightarrow> 'a list \<times> nat" where
  "pop_loop 0 b p = ([], p)"
| "pop_loop (Suc n) b p =
     (case pop_loop n b (wrap (cb_totalsize b) (Suc p)) of (dest, q) \<Rightarrow> (cb_data b ! p # dest, q))"

definition buf_pop :: "nat \<Rightarrow> 'a circbuf \<Rightarrow> 'a list \<times> 'a circbuf" where
  "buf_pop n b =
     (let len = (if n > cb_size b then cb_size b else n) in
      case pop_loop len b (cb_top b) of (dest, p) \<Rightarrow>
        (dest, b\<lparr>cb_top := p, cb_size := cb_size b - len\<rparr>))"

text \<open>Freeing gives the memory back and clears every field.\<close>

definition buf_free :: "'a circbuf \<Rightarrow> 'a circbuf" where
  "buf_free b = \<lparr>cb_size = 0, cb_totalsize = 0, cb_data = [], cb_top = 0, cb_tail = 0\<rparr>"

section \<open>A queue that forgets its oldest entries\<close>

definition keep_last :: "nat \<Rightarrow> 'a list \<Rightarrow> 'a list" where
  "keep_last n xs = drop (length xs - n) xs"

datatype 'a op = Push "'a list" | Pop nat

locale lossy_queue =
  fixes push :: "'a list \<Rightarrow> 's \<Rightarrow> 's"
    and pop :: "nat \<Rightarrow> 's \<Rightarrow> 'a list \<times> 's"
    and contents :: "'s \<Rightarrow> 'a list"
    and capacity :: "'s \<Rightarrow> nat"
    and invar :: "'s \<Rightarrow> bool"
  assumes invar_push: "invar s \<Longrightarrow> invar (push xs s)"
    and capacity_push: "invar s \<Longrightarrow> capacity (push xs s) = capacity s"
    and contents_push: "invar s \<Longrightarrow> contents (push xs s) = keep_last (capacity s) (contents s @ xs)"
    and invar_pop: "invar s \<Longrightarrow> invar (snd (pop n s))"
    and capacity_pop: "invar s \<Longrightarrow> capacity (snd (pop n s)) = capacity s"
    and contents_pop: "invar s \<Longrightarrow> contents (snd (pop n s)) = drop n (contents s)"
    and result_pop: "invar s \<Longrightarrow> fst (pop n s) = take n (contents s)"

text \<open>The same operations on the list of bytes in the queue.\<close>

fun run_queue :: "nat \<Rightarrow> 'a op list \<Rightarrow> 'a list \<Rightarrow> 'a list list" where
  "run_queue cap [] q = []"
| "run_queue cap (Push xs # ops) q = run_queue cap ops (keep_last cap (q @ xs))"
| "run_queue cap (Pop n # ops) q = take n q # run_queue cap ops (drop n q)"

fun run_ops :: "('a list \<Rightarrow> 's \<Rightarrow> 's) \<Rightarrow> (nat \<Rightarrow> 's \<Rightarrow> 'a list \<times> 's) \<Rightarrow> 'a op list \<Rightarrow> 's \<Rightarrow> 'a list list" where
  "run_ops push pop [] s = []"
| "run_ops push pop (Push xs # ops) s = run_ops push pop ops (push xs s)"
| "run_ops push pop (Pop n # ops) s = fst (pop n s) # run_ops push pop ops (snd (pop n s))"

context lossy_queue begin

lemma run_refines: "invar s \<Longrightarrow> run_ops push pop ops s = run_queue (capacity s) ops (contents s)"
proof (induction ops arbitrary: s)
  case (Cons op ops)
  then show ?case
    by (cases op)
       (simp_all add: invar_push invar_pop capacity_push capacity_pop contents_push contents_pop result_pop)
qed simp

end

section \<open>The buffer is such a queue\<close>

definition cb_index :: "'a circbuf \<Rightarrow> nat \<Rightarrow> nat" where
  "cb_index b i = (cb_top b + i) mod cb_totalsize b"

definition cb_contents :: "'a circbuf \<Rightarrow> 'a list" where
  "cb_contents b = map (\<lambda>i. cb_data b ! cb_index b i) [0..<cb_size b]"

definition cb_ok :: "'a circbuf \<Rightarrow> bool" where
  "cb_ok b \<longleftrightarrow> 0 < cb_totalsize b \<and> length (cb_data b) = cb_totalsize b \<and> cb_size b \<le> cb_totalsize b
     \<and> cb_top b < cb_totalsize b \<and> cb_tail b = cb_index b (cb_size b)"

lemma mod_split: "(a :: nat) < t \<Longrightarrow> i \<le> t \<Longrightarrow> (a + i) mod t = (if a + i < t then a + i else a + i - t)"
  by (auto simp: le_mod_geq)

lemma wrap_mod: "p < t \<Longrightarrow> wrap t (Suc p) = Suc p mod t"
  by (simp add: wrap_def)

lemma wrap_index: "0 < t \<Longrightarrow> wrap t (Suc ((a + i) mod t)) = (a + Suc i) mod t"
  by (simp add: wrap_mod mod_Suc_eq)

lemma index_inj: "(a :: nat) < t \<Longrightarrow> i < t \<Longrightarrow> j < t \<Longrightarrow> (a + i) mod t = (a + j) mod t \<Longrightarrow> i = j"
  using mod_split [of a t i] mod_split [of a t j] by (auto split: if_splits)

lemma push_room:
  assumes ok: "cb_ok b" and room: "cb_size b < cb_totalsize b"
  shows "cb_ok (push_byte b c)" and "cb_contents (push_byte b c) = cb_contents b @ [c]"
proof -
  let ?t = "cb_totalsize b" and ?n = "cb_size b"
  have t: "cb_top b < ?t" "0 < ?t" "cb_tail b = (cb_top b + ?n) mod ?t" "length (cb_data b) = ?t"
    using ok by (auto simp: cb_ok_def cb_index_def)
  show "cb_ok (push_byte b c)"
    using ok room wrap_index [OF t(2), of "cb_top b" ?n]
    by (auto simp: push_byte_def Let_def cb_ok_def cb_index_def)
  have "(cb_data b)[(cb_top b + ?n) mod ?t := c] ! ((cb_top b + i) mod ?t) = cb_data b ! ((cb_top b + i) mod ?t)"
    if "i < ?n" for i
    using index_inj [OF t(1), of i ?n] that room by (metis less_trans nat_neq_iff nth_list_update_neq)
  with room t show "cb_contents (push_byte b c) = cb_contents b @ [c]"
    by (simp add: cb_contents_def push_byte_def Let_def cb_index_def)
qed

lemma push_full:
  assumes ok: "cb_ok b" and full: "\<not> cb_size b < cb_totalsize b"
  shows "cb_ok (push_byte b c)" and "cb_contents (push_byte b c) = tl (cb_contents b) @ [c]"
proof -
  let ?t = "cb_totalsize b" and ?top = "cb_top b"
  have t: "?top < ?t" "0 < ?t" "cb_size b = ?t" "cb_tail b = ?top" "length (cb_data b) = ?t"
    using ok full by (auto simp: cb_ok_def cb_index_def)
  have w: "wrap ?t (Suc ?top) = Suc ?top mod ?t" by (rule wrap_mod [OF t(1)])
  show "cb_ok (push_byte b c)"
    using t w by (simp add: push_byte_def Let_def cb_ok_def cb_index_def)
  show "cb_contents (push_byte b c) = tl (cb_contents b) @ [c]"
  proof (rule nth_equalityI)
    fix i assume "i < length (cb_contents (push_byte b c))"
    then have i: "i < ?t" using t by (simp add: cb_contents_def push_byte_def Let_def)
    have idx: "(Suc ?top mod ?t + i) mod ?t = (?top + Suc i) mod ?t" by (simp add: mod_add_left_eq)
    have "(?top + Suc i) mod ?t = ?top \<longleftrightarrow> Suc i = ?t"
      using t(1) i mod_split [of ?top ?t "Suc i"] by (auto split: if_splits)
    then show "cb_contents (push_byte b c) ! i = (tl (cb_contents b) @ [c]) ! i"
      using i t idx w
      by (auto simp: cb_contents_def push_byte_def Let_def cb_index_def nth_append nth_tl nth_list_update)
  qed (use t in \<open>simp add: cb_contents_def push_byte_def Let_def\<close>)
qed

lemma keep_last_append: "keep_last n (keep_last n xs @ ys) = keep_last n (xs @ ys)"
  by (cases "length xs \<le> n") (auto simp: keep_last_def drop_drop add.commute)

lemma push_byte_contents:
  assumes "cb_ok b"
  shows "cb_ok (push_byte b c)" and "cb_totalsize (push_byte b c) = cb_totalsize b"
    and "cb_contents (push_byte b c) = keep_last (cb_totalsize b) (cb_contents b @ [c])"
proof -
  have len: "length (cb_contents b) = cb_size b" by (simp add: cb_contents_def)
  have le: "cb_size b \<le> cb_totalsize b" "0 < cb_totalsize b" using assms by (auto simp: cb_ok_def)
  show "cb_ok (push_byte b c)" using push_room(1) [OF assms] push_full(1) [OF assms] by (cases "cb_size b < cb_totalsize b")
  show "cb_totalsize (push_byte b c) = cb_totalsize b" by (simp add: push_byte_def Let_def)
  show "cb_contents (push_byte b c) = keep_last (cb_totalsize b) (cb_contents b @ [c])"
  proof (cases "cb_size b < cb_totalsize b")
    case True
    with push_room [OF assms True] len show ?thesis by (simp add: keep_last_def)
  next
    case False
    with push_full [OF assms False] len le show ?thesis by (simp add: keep_last_def drop_Suc)
  qed
qed

lemma push_contents:
  "cb_ok b \<Longrightarrow> cb_ok (buf_push xs b) \<and> cb_totalsize (buf_push xs b) = cb_totalsize b
     \<and> cb_contents (buf_push xs b) = keep_last (cb_totalsize b) (cb_contents b @ xs)"
proof (induction xs arbitrary: b)
  case Nil
  then show ?case by (simp add: buf_push_def keep_last_def cb_contents_def cb_ok_def)
next
  case (Cons x xs)
  note p = push_byte_contents [OF Cons.prems, of x]
  have "buf_push (x # xs) b = buf_push xs (push_byte b x)" by (simp add: buf_push_def)
  with Cons.IH [OF p(1)] p keep_last_append [of "cb_totalsize b" "cb_contents b @ [x]" xs] show ?case by simp
qed

lemma pop_loop_contents:
  "0 < cb_totalsize b \<Longrightarrow> pop_loop n b ((cb_top b + i) mod cb_totalsize b) =
     (map (\<lambda>j. cb_data b ! cb_index b j) [i..<i + n], cb_index b (i + n))"
proof (induction n arbitrary: i)
  case (Suc n)
  have "[i..<i + Suc n] = i # [Suc i..<Suc i + n]" by (simp add: upt_conv_Cons)
  with Suc.IH [of "Suc i"] Suc.prems wrap_index [of "cb_totalsize b" "cb_top b" i] show ?case
    by (simp add: cb_index_def)
qed (simp add: cb_index_def)

lemma pop_contents:
  assumes "cb_ok b"
  shows "cb_ok (snd (buf_pop n b))" and "cb_totalsize (snd (buf_pop n b)) = cb_totalsize b"
    and "cb_contents (snd (buf_pop n b)) = drop n (cb_contents b)" and "fst (buf_pop n b) = take n (cb_contents b)"
proof -
  let ?t = "cb_totalsize b" and ?len = "if n > cb_size b then cb_size b else n"
  have t: "cb_top b < ?t" "0 < ?t" "cb_size b \<le> ?t" using assms by (auto simp: cb_ok_def)
  have loop: "pop_loop ?len b (cb_top b) = (map (\<lambda>j. cb_data b ! cb_index b j) [0..<?len], cb_index b ?len)"
    using pop_loop_contents [OF t(2), of ?len 0] t(1) by simp
  have idx: "(cb_index b ?len + i) mod ?t = cb_index b (?len + i)" for i
    by (simp add: cb_index_def mod_add_left_eq add.assoc)
  show "cb_totalsize (snd (buf_pop n b)) = ?t" and "fst (buf_pop n b) = take n (cb_contents b)"
    by (auto simp: buf_pop_def Let_def loop cb_contents_def take_map)
  show "cb_ok (snd (buf_pop n b))"
    using assms idx [of "cb_size b - ?len"] t
    by (auto simp: buf_pop_def Let_def loop cb_ok_def) (auto simp: cb_index_def)
  show "cb_contents (snd (buf_pop n b)) = drop n (cb_contents b)"
  proof (rule nth_equalityI)
    fix i assume "i < length (cb_contents (snd (buf_pop n b)))"
    then show "cb_contents (snd (buf_pop n b)) ! i = drop n (cb_contents b) ! i"
      using idx [of i] by (auto simp: buf_pop_def Let_def loop cb_contents_def) (auto simp: cb_index_def)
  qed (auto simp: buf_pop_def Let_def loop cb_contents_def)
qed

interpretation cb: lossy_queue buf_push buf_pop cb_contents cb_totalsize cb_ok
  by unfold_locales (simp_all add: push_contents pop_contents)

section \<open>Properties\<close>

text \<open>
  C33. Over any sequence of pushes and pops, a circular buffer in a block of memory that is not
  empty gives out exactly what a queue gives out that keeps the newest bytes up to its size.
\<close>

theorem circbuf_is_queue:
  assumes "mem \<noteq> []"
  shows "run_ops buf_push buf_pop ops (buf_init mem) = run_queue (length mem) ops []"
proof -
  have "cb_ok (buf_init mem)" using assms by (simp add: cb_ok_def buf_init_def cb_index_def)
  then show ?thesis
    using cb.run_refines [of "buf_init mem" ops] by (simp add: buf_init_def cb_contents_def)
qed

theorem circbuf_is_queue_witness:
  "run_ops buf_push buf_pop [Push [1, 2], Pop 1, Push [3, 4, 5], Pop 9] (buf_init [0, 0, 0 :: nat]) = [[1], [3, 4, 5]]"
  using circbuf_is_queue [of "[0, 0, 0 :: nat]" "[Push [1, 2], Pop 1, Push [3, 4, 5], Pop 9]"]
  by (simp add: keep_last_def)

end
