(* ===== verification/Ub_Crc32.thy ===== *)
theory Ub_Crc32
  imports Br_Prelude
begin

text \<open>
  The 32-bit cyclic redundancy check of U-Boot (\<^verbatim>\<open>lib/crc32.c\<close>), with which images and the
  environment are checked. The buffer is the list of its bytes with the address of the first one, the
  byte order of the machine is an argument. It is shown to compute the remainder bit by bit.
\<close>

unbundle bit_operations_syntax

section \<open>The code\<close>

definition bswap32 :: "u32 \<Rightarrow> u32" where
  "bswap32 x = push_bit 24 (x AND 0xff) OR push_bit 8 (x AND 0xff00) OR (drop_bit 8 x AND 0xff00) OR drop_bit 24 x"

text \<open>\<^verbatim>\<open>cpu_to_le32\<close> and its inverse.\<close>

definition tole :: "bool \<Rightarrow> u32 \<Rightarrow> u32" where
  "tole big x = (if big then bswap32 x else x)"

text \<open>The table is generated at the first use, or part of the program.\<close>

definition poly_terms :: "nat list" where
  "poly_terms = [0, 1, 2, 4, 5, 7, 8, 10, 11, 12, 16, 22, 23, 26]"

definition poly :: u32 where
  "poly = foldl (\<lambda>p t. p OR push_bit (31 - t) 1) 0 poly_terms"

definition crc_shift :: "u32 \<Rightarrow> u32" where
  "crc_shift c = (if c AND 1 \<noteq> 0 then poly XOR drop_bit 1 c else drop_bit 1 c)"

definition make_crc_table :: "bool \<Rightarrow> u32 list" where
  "make_crc_table big = map (\<lambda>n. tole big ((crc_shift ^^ 8) (word_of_nat n))) [0..<256]"

definition crc_table :: "bool \<Rightarrow> u32 list" where
  "crc_table big = map (tole big) [
    0x00000000, 0x77073096, 0xee0e612c, 0x990951ba, 0x076dc419, 0x706af48f, 0xe963a535, 0x9e6495a3,
    0x0edb8832, 0x79dcb8a4, 0xe0d5e91e, 0x97d2d988, 0x09b64c2b, 0x7eb17cbd, 0xe7b82d07, 0x90bf1d91,
    0x1db71064, 0x6ab020f2, 0xf3b97148, 0x84be41de, 0x1adad47d, 0x6ddde4eb, 0xf4d4b551, 0x83d385c7,
    0x136c9856, 0x646ba8c0, 0xfd62f97a, 0x8a65c9ec, 0x14015c4f, 0x63066cd9, 0xfa0f3d63, 0x8d080df5,
    0x3b6e20c8, 0x4c69105e, 0xd56041e4, 0xa2677172, 0x3c03e4d1, 0x4b04d447, 0xd20d85fd, 0xa50ab56b,
    0x35b5a8fa, 0x42b2986c, 0xdbbbc9d6, 0xacbcf940, 0x32d86ce3, 0x45df5c75, 0xdcd60dcf, 0xabd13d59,
    0x26d930ac, 0x51de003a, 0xc8d75180, 0xbfd06116, 0x21b4f4b5, 0x56b3c423, 0xcfba9599, 0xb8bda50f,
    0x2802b89e, 0x5f058808, 0xc60cd9b2, 0xb10be924, 0x2f6f7c87, 0x58684c11, 0xc1611dab, 0xb6662d3d,
    0x76dc4190, 0x01db7106, 0x98d220bc, 0xefd5102a, 0x71b18589, 0x06b6b51f, 0x9fbfe4a5, 0xe8b8d433,
    0x7807c9a2, 0x0f00f934, 0x9609a88e, 0xe10e9818, 0x7f6a0dbb, 0x086d3d2d, 0x91646c97, 0xe6635c01,
    0x6b6b51f4, 0x1c6c6162, 0x856530d8, 0xf262004e, 0x6c0695ed, 0x1b01a57b, 0x8208f4c1, 0xf50fc457,
    0x65b0d9c6, 0x12b7e950, 0x8bbeb8ea, 0xfcb9887c, 0x62dd1ddf, 0x15da2d49, 0x8cd37cf3, 0xfbd44c65,
    0x4db26158, 0x3ab551ce, 0xa3bc0074, 0xd4bb30e2, 0x4adfa541, 0x3dd895d7, 0xa4d1c46d, 0xd3d6f4fb,
    0x4369e96a, 0x346ed9fc, 0xad678846, 0xda60b8d0, 0x44042d73, 0x33031de5, 0xaa0a4c5f, 0xdd0d7cc9,
    0x5005713c, 0x270241aa, 0xbe0b1010, 0xc90c2086, 0x5768b525, 0x206f85b3, 0xb966d409, 0xce61e49f,
    0x5edef90e, 0x29d9c998, 0xb0d09822, 0xc7d7a8b4, 0x59b33d17, 0x2eb40d81, 0xb7bd5c3b, 0xc0ba6cad,
    0xedb88320, 0x9abfb3b6, 0x03b6e20c, 0x74b1d29a, 0xead54739, 0x9dd277af, 0x04db2615, 0x73dc1683,
    0xe3630b12, 0x94643b84, 0x0d6d6a3e, 0x7a6a5aa8, 0xe40ecf0b, 0x9309ff9d, 0x0a00ae27, 0x7d079eb1,
    0xf00f9344, 0x8708a3d2, 0x1e01f268, 0x6906c2fe, 0xf762575d, 0x806567cb, 0x196c3671, 0x6e6b06e7,
    0xfed41b76, 0x89d32be0, 0x10da7a5a, 0x67dd4acc, 0xf9b9df6f, 0x8ebeeff9, 0x17b7be43, 0x60b08ed5,
    0xd6d6a3e8, 0xa1d1937e, 0x38d8c2c4, 0x4fdff252, 0xd1bb67f1, 0xa6bc5767, 0x3fb506dd, 0x48b2364b,
    0xd80d2bda, 0xaf0a1b4c, 0x36034af6, 0x41047a60, 0xdf60efc3, 0xa867df55, 0x316e8eef, 0x4669be79,
    0xcb61b38c, 0xbc66831a, 0x256fd2a0, 0x5268e236, 0xcc0c7795, 0xbb0b4703, 0x220216b9, 0x5505262f,
    0xc5ba3bbe, 0xb2bd0b28, 0x2bb45a92, 0x5cb36a04, 0xc2d7ffa7, 0xb5d0cf31, 0x2cd99e8b, 0x5bdeae1d,
    0x9b64c2b0, 0xec63f226, 0x756aa39c, 0x026d930a, 0x9c0906a9, 0xeb0e363f, 0x72076785, 0x05005713,
    0x95bf4a82, 0xe2b87a14, 0x7bb12bae, 0x0cb61b38, 0x92d28e9b, 0xe5d5be0d, 0x7cdcefb7, 0x0bdbdf21,
    0x86d3d2d4, 0xf1d4e242, 0x68ddb3f8, 0x1fda836e, 0x81be16cd, 0xf6b9265b, 0x6fb077e1, 0x18b74777,
    0x88085ae6, 0xff0f6a70, 0x66063bca, 0x11010b5c, 0x8f659eff, 0xf862ae69, 0x616bffd3, 0x166ccf45,
    0xa00ae278, 0xd70dd2ee, 0x4e048354, 0x3903b3c2, 0xa7672661, 0xd06016f7, 0x4969474d, 0x3e6e77db,
    0xaed16a4a, 0xd9d65adc, 0x40df0b66, 0x37d83bf0, 0xa9bcae53, 0xdebb9ec5, 0x47b2cf7f, 0x30b5ffe9,
    0xbdbdf21c, 0xcabac28a, 0x53b39330, 0x24b4a3a6, 0xbad03605, 0xcdd70693, 0x54de5729, 0x23d967bf,
    0xb3667a2e, 0xc4614ab8, 0x5d681b02, 0x2a6f2b94, 0xb40bbe37, 0xc30c8ea1, 0x5a05df1b, 0x2d02ef8d]"

definition DO_CRC :: "bool \<Rightarrow> u32 \<Rightarrow> u32 \<Rightarrow> u32" where
  "DO_CRC big crc x =
     (if big then crc_table big ! unat ((drop_bit 24 crc XOR x) AND 255) XOR push_bit 8 crc
      else crc_table big ! unat ((crc XOR x) AND 255) XOR drop_bit 8 crc)"

definition load32 :: "bool \<Rightarrow> u8 \<Rightarrow> u8 \<Rightarrow> u8 \<Rightarrow> u8 \<Rightarrow> u32" where
  "load32 big a b c d =
     (if big then push_bit 24 (ucast a) OR push_bit 16 (ucast b) OR push_bit 8 (ucast c) OR ucast d
      else ucast a OR push_bit 8 (ucast b) OR push_bit 16 (ucast c) OR push_bit 24 (ucast d))"

text \<open>The bytes up to the next aligned address, the words, and the rest.\<close>

fun crc_bytes :: "bool \<Rightarrow> u32 \<Rightarrow> u8 list \<Rightarrow> u32" where
  "crc_bytes big crc [] = crc"
| "crc_bytes big crc (b # bs) = crc_bytes big (DO_CRC big crc (ucast b)) bs"

fun crc_align :: "bool \<Rightarrow> nat \<Rightarrow> u32 \<Rightarrow> u8 list \<Rightarrow> u32 \<times> u8 list" where
  "crc_align big adr crc [] = (crc, [])"
| "crc_align big adr crc (b # bs) =
     (if adr AND 3 = 0 then (crc, b # bs) else crc_align big (adr + 1) (DO_CRC big crc (ucast b)) bs)"

definition crc_word :: "bool \<Rightarrow> u32 \<Rightarrow> u32 \<Rightarrow> u32" where
  "crc_word big crc w = DO_CRC big (DO_CRC big (DO_CRC big (DO_CRC big (crc XOR w) 0) 0) 0) 0"

fun crc_words :: "bool \<Rightarrow> u32 \<Rightarrow> u8 list \<Rightarrow> u32 \<times> u8 list" where
  "crc_words big crc (a # b # c # d # bs) = crc_words big (crc_word big crc (load32 big a b c d)) bs"
| "crc_words big crc bs = (crc, bs)"

definition crc32_no_comp :: "bool \<Rightarrow> nat \<Rightarrow> u32 \<Rightarrow> u8 list \<Rightarrow> u32" where
  "crc32_no_comp big adr crc buf =
     (case crc_align big adr (tole big crc) buf of (crc1, rest) \<Rightarrow>
      case crc_words big crc1 rest of (crc2, last_bytes) \<Rightarrow> tole big (crc_bytes big crc2 last_bytes))"

definition crc32 :: "bool \<Rightarrow> nat \<Rightarrow> u32 \<Rightarrow> u8 list \<Rightarrow> u32" where
  "crc32 big adr crc p = crc32_no_comp big adr (crc XOR 0xffffffff) p XOR 0xffffffff"

text \<open>
  In pieces, between which the watchdog is reset, if the board has one. Pieces of size zero would
  never end.
\<close>

partial_function (option) wd_loop :: "bool \<Rightarrow> nat \<Rightarrow> u32 \<Rightarrow> u8 list \<Rightarrow> nat \<Rightarrow> u32 option" where
  "wd_loop big adr crc buf chunk_sz =
     (if buf = [] then Some crc
      else let chunk = min (length buf) chunk_sz in
        wd_loop big (adr + chunk) (crc32 big adr crc (take chunk buf)) (drop chunk buf) chunk_sz)"

definition crc32_wd :: "bool \<Rightarrow> bool \<Rightarrow> nat \<Rightarrow> u32 \<Rightarrow> u8 list \<Rightarrow> nat \<Rightarrow> u32 option" where
  "crc32_wd wd big adr crc buf chunk_sz =
     (if wd then wd_loop big adr crc buf chunk_sz else Some (crc32 big adr crc buf))"

text \<open>The checksum in network byte order.\<close>

definition crc32_wd_buf :: "bool \<Rightarrow> bool \<Rightarrow> nat \<Rightarrow> u8 list \<Rightarrow> nat \<Rightarrow> u8 list option" where
  "crc32_wd_buf wd big adr input chunk_sz = map_option (\<lambda>crc.
     [ucast (drop_bit 24 crc), ucast (drop_bit 16 crc), ucast (drop_bit 8 crc), ucast crc])
     (crc32_wd wd big adr 0 input chunk_sz)"

section \<open>The shift register is linear\<close>

lemma poly_value: "poly = 0xedb88320"
  by (simp add: poly_def poly_terms_def)

abbreviation crc8 :: "u32 \<Rightarrow> u32" where
  "crc8 \<equiv> crc_shift ^^ 8"

lemma crc_shift_alt: "crc_shift c = drop_bit 1 c XOR (if bit c 0 then poly else 0)"
proof -
  have "c AND 1 \<noteq> 0 \<longleftrightarrow> bit c 0" by (simp add: and_one_eq bit_0 odd_iff_mod_2_eq_one)
  then show ?thesis by (simp add: crc_shift_def xor.commute)
qed

lemma crc_shift_linear: "crc_shift (a XOR b) = crc_shift a XOR crc_shift b"
  by (auto simp: crc_shift_alt bit_simps xor.assoc xor.left_commute)

lemma shifts_linear: "(crc_shift ^^ n) (a XOR b) = (crc_shift ^^ n) a XOR (crc_shift ^^ n) b"
  by (induction n) (simp_all add: crc_shift_linear)

lemma shifts_high: "(\<And>i. i < n \<Longrightarrow> \<not> bit c i) \<Longrightarrow> (crc_shift ^^ n) c = drop_bit n c"
  by (induction n) (simp_all add: crc_shift_alt bit_simps)

lemma byte_mask: "(255 :: u32) = mask 8"
  by (simp add: mask_eq_exp_minus_1)

lemma crc8_low_high: "crc8 c = crc8 (c AND mask 8) XOR drop_bit 8 c"
proof -
  have "c = (c AND mask 8) XOR (c AND NOT (mask 8))" by (rule bit_word_eqI) (auto simp: bit_simps)
  then have "crc8 c = crc8 (c AND mask 8) XOR crc8 (c AND NOT (mask 8))" using shifts_linear by metis
  also have "crc8 (c AND NOT (mask 8)) = drop_bit 8 (c AND NOT (mask 8))" by (rule shifts_high) (simp add: bit_simps)
  also have "\<dots> = drop_bit 8 c" by (rule bit_word_eqI) (auto simp: bit_simps dest: bit_imp_le_length)
  finally show ?thesis .
qed

definition spanned :: "u32 list \<Rightarrow> u32 list" where
  "spanned es = foldl (\<lambda>t e. t @ map (\<lambda>x. x XOR e) t) [0] es"

lemma table_spanned:
  "crc_table False = spanned [0x77073096, 0xee0e612c, 0x076dc419, 0x0edb8832, 0x1db71064, 0x3b6e20c8, 0x76dc4190, 0xedb88320]"
  by (simp add: spanned_def crc_table_def tole_def)

lemma crc8_powers:
  "map (\<lambda>j. crc8 (2 ^ j)) [0..<8]
     = [0x77073096, 0xee0e612c, 0x076dc419, 0x0edb8832, 0x1db71064, 0x3b6e20c8, 0x76dc4190, 0xedb88320]"
proof -
  have e: "crc8 c = crc_shift (crc_shift (crc_shift (crc_shift (crc_shift (crc_shift (crc_shift (crc_shift c)))))))" for c
    by (simp add: eval_nat_numeral)
  have "[0..<8] = [0, 1, 2, 3, 4, 5, 6, 7]" by code_simp
  then show ?thesis by (simp add: e crc_shift_def [of 1] crc_shift_def [of "numeral _"] poly_value)
qed

lemma double_range: "[0..<2 ^ Suc k] = [0..<2 ^ k] @ map (\<lambda>i. 2 ^ k + i) [0..<2 ^ k]"
  using upt_add_eq_append [of 0 "2 ^ k" "2 ^ k"] map_add_upt [of "2 ^ k" "2 ^ k"] by (simp add: mult_2 add.commute)

lemma power_plus_xor:
  assumes "i < 2 ^ k"
  shows "2 ^ k + word_of_nat i = (word_of_nat i XOR 2 ^ k :: u32)"
proof -
  have "\<not> bit (word_of_nat i :: u32) n" if "bit (2 ^ k :: u32) n" for n
  proof -
    have "n = k" using that by (auto simp: bit_exp_iff)
    moreover have "take_bit k i = i" using assms by (simp add: take_bit_nat_eq_self_iff)
    then have "\<not> bit i k" by (metis bit_take_bit_iff less_irrefl)
    ultimately show ?thesis by (simp add: bit_of_nat_iff)
  qed
  then have "word_of_nat i AND 2 ^ k = (0 :: u32)" by (intro bit_word_eqI) (auto simp: bit_and_iff)
  then show ?thesis using disjunctive_add_eq_xor by (simp add: add.commute)
qed

lemma shifts_spanned:
  "k \<le> 32 \<Longrightarrow> map (\<lambda>n. crc8 (word_of_nat n)) [0..<2 ^ k] = spanned (map (\<lambda>j. crc8 (2 ^ j)) [0..<k])"
proof (induction k)
  case 0
  then show ?case using shifts_high [of 8 0] by (simp add: spanned_def)
next
  case (Suc k)
  have "map (\<lambda>n. crc8 (word_of_nat n)) [0..<2 ^ Suc k] = map (\<lambda>n. crc8 (word_of_nat n)) [0..<2 ^ k]
      @ map (\<lambda>n. crc8 (word_of_nat n) XOR crc8 (2 ^ k)) [0..<2 ^ k]"
    using Suc.prems by (simp only: double_range) (auto simp: power_plus_xor shifts_linear)
  also have "\<dots> = spanned (map (\<lambda>j. crc8 (2 ^ j)) [0..<k]) @ map (\<lambda>x. x XOR crc8 (2 ^ k)) (spanned (map (\<lambda>j. crc8 (2 ^ j)) [0..<k]))"
    using Suc by (simp add: Suc.IH [symmetric] comp_def)
  finally show ?case by (simp add: spanned_def)
qed

lemma table_generated: "crc_table big = make_crc_table big"
proof -
  have "crc_table False = map (\<lambda>n. crc8 (word_of_nat n)) [0..<2 ^ 8]"
    using shifts_spanned [of 8] by (simp only: table_spanned crc8_powers)
  then have "crc_table False = make_crc_table False" by (simp add: make_crc_table_def tole_def)
  moreover have "tole False = id" by (simp add: fun_eq_iff tole_def)
  then have "crc_table big = map (tole big) (crc_table False)" "make_crc_table big = map (tole big) (make_crc_table False)"
    by (simp_all only: crc_table_def make_crc_table_def list.map_id list.map_comp comp_def id_apply)
  ultimately show ?thesis by simp
qed

lemma table_entry: "crc_table big ! unat (c AND mask 8) = tole big (crc8 (c AND mask 8))" for c :: u32
proof -
  have "unat (c AND mask 8) < 256" using word_and_le1 [of c "mask 8"] by (simp add: word_le_nat_alt mask_eq_exp_minus_1)
  then show ?thesis by (simp add: table_generated make_crc_table_def)
qed

section \<open>Byte order\<close>

lemma bswap_masks: "(0xff :: u32) = mask 8" "(0xff00 :: u32) = push_bit 8 (mask 8)"
  by (simp_all add: mask_eq_exp_minus_1)

lemma bit_bswap: "bit (bswap32 x) n \<longleftrightarrow>
    (if n < 8 then bit x (n + 24) else if n < 16 then bit x (n + 8) else if n < 24 then bit x (n - 8)
     else n < 32 \<and> bit x (n - 24))"
  unfolding bswap32_def bswap_masks by (auto simp: bit_simps add.commute dest: bit_imp_le_length)

lemma bswap_bswap: "bswap32 (bswap32 x) = x"
  by (rule bit_word_eqI) (auto simp: bit_bswap)

lemma bswap_xor: "bswap32 (x XOR y) = bswap32 x XOR bswap32 y"
  by (rule bit_word_eqI) (auto simp: bit_bswap bit_xor_iff)

lemma bswap_shift: "push_bit 8 (bswap32 x) = bswap32 (drop_bit 8 x)"
  by (rule bit_word_eqI) (auto simp: bit_bswap bit_simps add.commute dest: bit_imp_le_length)

lemma bswap_low: "drop_bit 24 (bswap32 x) = x AND mask 8"
  by (rule bit_word_eqI) (auto simp: bit_bswap bit_simps dest: bit_imp_le_length)

lemma tole_tole: "tole big (tole big x) = x"
  by (simp add: tole_def bswap_bswap)

lemma tole_xor: "tole big (x XOR y) = tole big x XOR tole big y"
  by (simp add: tole_def bswap_xor)

lemma high_zero: "drop_bit m x = 0 \<Longrightarrow> bit (x :: u32) n \<Longrightarrow> n < m"
proof (rule ccontr)
  assume z: "drop_bit m x = 0" and n: "bit x n" "\<not> n < m"
  then have "bit (drop_bit m x) (n - m)" unfolding bit_drop_bit_eq by simp
  then show False unfolding z by simp
qed

text \<open>One step, on the value in the byte order of the machine.\<close>

lemma DO_CRC_step:
  assumes "drop_bit 8 x = 0"
  shows "DO_CRC big (tole big c) x = tole big (crc8 (c XOR x))"
proof -
  have idx: "(drop_bit 24 (bswap32 c) XOR x) AND mask 8 = (c XOR x) AND mask 8"
    unfolding bswap_low by (rule bit_word_eqI) (auto simp: bit_simps)
  have "drop_bit 8 (c XOR x) = drop_bit 8 c" using assms by simp
  then have "crc8 (c XOR x) = crc8 ((c XOR x) AND mask 8) XOR drop_bit 8 c" using crc8_low_high [of "c XOR x"] by simp
  then show ?thesis
    by (cases big) (simp_all add: DO_CRC_def tole_def byte_mask table_entry idx bswap_xor bswap_shift)
qed

lemma ucast_byte: "drop_bit 8 (ucast (b :: u8) :: u32) = 0"
  by (rule bit_word_eqI) (auto simp: bit_simps dest: bit_imp_le_length)

section \<open>Bytes and words\<close>

definition crc_byte :: "u32 \<Rightarrow> u8 \<Rightarrow> u32" where
  "crc_byte c b = crc8 (c XOR ucast b)"

lemma crc_bytes_step: "crc_bytes big (tole big c) bs = tole big (foldl crc_byte c bs)"
  by (induction bs arbitrary: c) (simp_all add: DO_CRC_step ucast_byte crc_byte_def)

lemma crc_align_step:
  "\<exists>as bs'. bs = as @ bs' \<and> crc_align big adr (tole big c) bs = (tole big (foldl crc_byte c as), bs')"
proof (induction bs arbitrary: adr c)
  case (Cons b bs)
  show ?case
  proof (cases "adr AND 3 = 0")
    case True
    then show ?thesis by (rule_tac exI [of _ "[]"], rule_tac exI [of _ "b # bs"]) simp
  next
    case False
    obtain as bs' where "bs = as @ bs'"
      "crc_align big (adr + 1) (tole big (crc_byte c b)) bs = (tole big (foldl crc_byte (crc_byte c b) as), bs')"
      using Cons.IH by blast
    then show ?thesis using False
      by (rule_tac exI [of _ "b # as"], rule_tac exI [of _ bs']) (simp add: DO_CRC_step ucast_byte crc_byte_def [of c b])
  qed
qed simp

lemma crc8_shifted:
  assumes "drop_bit 24 y = 0"
  shows "crc8 (x XOR push_bit 8 y) = crc8 x XOR y"
proof -
  have "crc8 (push_bit 8 y) = drop_bit 8 (push_bit 8 y)" by (rule shifts_high) (simp add: bit_simps)
  also have "\<dots> = y" by (rule bit_word_eqI) (auto simp: bit_simps dest: high_zero [OF assms])
  finally show ?thesis by (simp add: shifts_linear)
qed

lemma load32_nested:
  "load32 False a b c d = ucast a XOR push_bit 8 (ucast b XOR push_bit 8 (ucast c XOR push_bit 8 (ucast d)))"
  by (rule bit_word_eqI) (auto simp: load32_def bit_simps dest: bit_imp_le_length)

lemma load32_tole: "load32 big a b c d = tole big (load32 False a b c d)"
  by (cases big, rule bit_word_eqI) (auto simp: load32_def tole_def bit_bswap bit_simps dest: bit_imp_le_length)

lemma nested_high:
  "drop_bit 24 (ucast b XOR push_bit 8 (ucast c XOR push_bit 8 (ucast d)) :: u32) = 0"
  "drop_bit 24 (ucast c XOR push_bit 8 (ucast d) :: u32) = 0" "drop_bit 24 (ucast d :: u32) = 0" for b c d :: u8
  by (rule bit_word_eqI, auto simp: bit_simps dest: bit_imp_le_length)+

lemma crc_word_step: "crc_word big (tole big x) (load32 big a b c d) = tole big (foldl crc_byte x [a, b, c, d])"
proof -
  have "DO_CRC big (tole big y) 0 = tole big (crc8 y)" for y using DO_CRC_step [of 0 big y] by simp
  then have "crc_word big (tole big x) (load32 big a b c d)
      = tole big (crc8 (crc8 (crc8 (crc8 (x XOR load32 False a b c d)))))"
    by (simp only: crc_word_def load32_tole [of big] tole_xor [symmetric])
  also have "crc8 (crc8 (crc8 (crc8 (x XOR load32 False a b c d)))) = foldl crc_byte x [a, b, c, d]"
    by (simp only: load32_nested crc_byte_def xor.assoc [symmetric] crc8_shifted nested_high foldl.simps)
  finally show ?thesis .
qed

lemma crc_words_step:
  "\<exists>as bs'. bs = as @ bs' \<and> crc_words big (tole big x) bs = (tole big (foldl crc_byte x as), bs')"
proof (induction big "tole big x" bs arbitrary: x rule: crc_words.induct)
  case (1 big a b c d bs)
  obtain as bs' where "bs = as @ bs'" "crc_words big (tole big (foldl crc_byte x [a, b, c, d])) bs
      = (tole big (foldl crc_byte (foldl crc_byte x [a, b, c, d]) as), bs')"
    using 1 crc_word_step by blast
  then show ?case by (intro exI [of _ "a # b # c # d # as"] exI [of _ bs']) (simp add: crc_word_step)
qed (auto intro: exI [of _ "[]"])

lemma no_comp_bytes: "crc32_no_comp big adr c buf = foldl crc_byte c buf"
proof -
  obtain as bs where a: "buf = as @ bs" "crc_align big adr (tole big c) buf = (tole big (foldl crc_byte c as), bs)"
    using crc_align_step by blast
  obtain cs ds where b: "bs = cs @ ds" "crc_words big (tole big (foldl crc_byte c as)) bs
      = (tole big (foldl crc_byte (foldl crc_byte c as) cs), ds)" using crc_words_step by blast
  have "crc32_no_comp big adr c buf = foldl crc_byte (foldl crc_byte (foldl crc_byte c as) cs) ds"
    by (simp add: crc32_no_comp_def a(2) b(2) crc_bytes_step tole_tole)
  then show ?thesis by (simp add: a(1) b(1))
qed

section \<open>The remainder bit by bit\<close>

text \<open>The reference: the register takes one bit of the message at a time, each byte from its lowest bit.\<close>

definition crc_bit :: "u32 \<Rightarrow> bool \<Rightarrow> u32" where
  "crc_bit c b = crc_shift (c XOR of_bool b)"

definition byte_bits :: "u8 \<Rightarrow> bool list" where
  "byte_bits b = map (bit b) [0..<8]"

definition crc32_spec :: "u32 \<Rightarrow> u8 list \<Rightarrow> u32" where
  "crc32_spec crc buf = NOT (foldl crc_bit (NOT crc) (concat (map byte_bits buf)))"

fun bits_word :: "bool list \<Rightarrow> u32" where
  "bits_word [] = 0"
| "bits_word (b # bs) = of_bool b XOR push_bit 1 (bits_word bs)"

lemma bit_push1: "bit (push_bit 1 x) n \<longleftrightarrow> 1 \<le> n \<and> n < 32 \<and> bit x (n - 1)" for x :: u32
  unfolding bit_push_bit_iff by simp

lemma bit_bits_word: "bit (bits_word bs) n \<longleftrightarrow> n < 32 \<and> n < length bs \<and> bs ! n"
proof (induction bs arbitrary: n)
  case (Cons b bs)
  have "bit (bits_word (b # bs)) n \<longleftrightarrow> (n = 0 \<and> b) \<noteq> (n < 32 \<and> 1 \<le> n \<and> bit (bits_word bs) (n - 1))"
    unfolding bits_word.simps bit_xor_iff bit_of_bool_iff bit_push1 by auto
  then show ?case unfolding Cons by (cases n) auto
qed simp

lemma crc_bits_word: "length bs \<le> 32 \<Longrightarrow> foldl crc_bit c bs = (crc_shift ^^ length bs) (c XOR bits_word bs)"
proof (induction bs arbitrary: c)
  case (Cons b bs)
  have low: "crc_shift (push_bit 1 (bits_word bs)) = bits_word bs"
  proof -
    have "crc_shift (push_bit 1 (bits_word bs)) = drop_bit 1 (push_bit 1 (bits_word bs))"
      unfolding crc_shift_alt bit_push1 by (simp only: if_False not_one_le_zero simp_thms xor.right_neutral)
    also have "\<dots> = bits_word bs"
    proof (rule bit_word_eqI)
      show "bit (drop_bit 1 (push_bit 1 (bits_word bs))) n \<longleftrightarrow> bit (bits_word bs) n" for n
        unfolding bit_drop_bit_eq comp_apply bit_push1 bit_bits_word using Cons.prems by auto
    qed
    finally show ?thesis .
  qed
  have "foldl crc_bit c (b # bs) = (crc_shift ^^ length bs) (crc_shift (c XOR of_bool b) XOR bits_word bs)"
    using Cons.IH [of "crc_bit c b"] Cons.prems by (simp add: crc_bit_def [of c b])
  also have "crc_shift (c XOR of_bool b) XOR bits_word bs = crc_shift (c XOR bits_word (b # bs))"
    by (simp only: bits_word.simps xor.assoc [symmetric] crc_shift_linear [of "c XOR of_bool b"] low)
  finally show ?case by (simp add: funpow_swap1)
qed simp

lemma byte_bits_word: "bits_word (byte_bits b) = ucast b"
proof (rule bit_word_eqI)
  show "bit (bits_word (byte_bits b)) n \<longleftrightarrow> bit (ucast b :: u32) n" for n
    using bit_imp_le_length [of b n] by (auto simp: bit_bits_word byte_bits_def bit_simps)
qed

lemma crc_byte_bits: "crc_byte c b = foldl crc_bit c (byte_bits b)"
proof -
  have "length (byte_bits b) = 8" by (simp add: byte_bits_def)
  then show ?thesis by (simp add: crc_bits_word byte_bits_word crc_byte_def)
qed

lemma crc_bytes_bits: "foldl crc_byte c bs = foldl crc_bit c (concat (map byte_bits bs))"
  by (induction bs arbitrary: c) (simp_all add: crc_byte_bits)

lemma crc32_bits: "crc32 big adr crc buf = crc32_spec crc buf"
proof -
  have "(0xffffffff :: u32) = -1" by simp
  then have "x XOR 0xffffffff = NOT x" for x :: u32 by (simp only: bit.xor_one_right)
  then show ?thesis by (simp add: crc32_def crc32_spec_def no_comp_bytes crc_bytes_bits)
qed

lemma spec_append: "crc32_spec (crc32_spec crc as) bs = crc32_spec crc (as @ bs)"
  by (simp add: crc32_spec_def)

lemma wd_pieces: "0 < n \<Longrightarrow> wd_loop big adr crc buf n = Some (crc32_spec crc buf)"
proof (induction "length buf" arbitrary: adr crc buf rule: less_induct)
  case less
  show ?case
  proof (cases "buf = []")
    case True
    then show ?thesis by (subst wd_loop.simps) (simp add: crc32_spec_def)
  next
    case False
    let ?c = "min (length buf) n"
    have "length (drop ?c buf) < length buf" using False less.prems by simp
    from less.hyps [OF this less.prems] False show ?thesis
      by (subst wd_loop.simps) (simp add: Let_def crc32_bits spec_append)
  qed
qed

section \<open>Burst errors\<close>

lemma crc_shift_zero: "crc_shift c = 0 \<Longrightarrow> c = 0"
proof -
  assume z: "crc_shift c = 0"
  have "bit poly 31" by (simp add: poly_value)
  moreover have "\<not> bit (drop_bit 1 c) 31" by (auto simp: bit_drop_bit_eq dest: bit_imp_le_length)
  ultimately have "bit (crc_shift c) 31 = bit c 0" unfolding crc_shift_alt bit_xor_iff by auto
  then have low: "\<not> bit c 0" by (simp add: z)
  then have high: "drop_bit 1 c = 0" using z unfolding crc_shift_alt by simp
  show ?thesis
  proof (rule bit_word_eqI)
    fix n
    have "\<not> bit c n" using low high_zero [OF high, of n] by (cases n) auto
    then show "bit c n = bit 0 n" by simp
  qed
qed

lemma xor_cancel: "a XOR c = b XOR c \<Longrightarrow> a = b" for a b c :: u32
proof -
  assume "a XOR c = b XOR c"
  then have "(a XOR c) XOR c = (b XOR c) XOR c" by (simp only:)
  then show "a = b" by (simp only: xor.assoc xor_self_eq xor.right_neutral)
qed

lemma crc_shift_inj: "crc_shift a = crc_shift b \<Longrightarrow> a = b"
proof -
  assume "crc_shift a = crc_shift b"
  then have "a XOR b = 0" using crc_shift_zero [of "a XOR b"] by (simp add: crc_shift_linear)
  then show ?thesis using xor_cancel [of a b b] by simp
qed

lemma shifts_inj: "(crc_shift ^^ n) a = (crc_shift ^^ n) b \<Longrightarrow> a = b"
proof (induction n)
  case (Suc n)
  from Suc.prems have "(crc_shift ^^ n) a = (crc_shift ^^ n) b" by (auto intro: crc_shift_inj)
  then show ?case by (rule Suc.IH)
qed simp

lemma crc_bits_inj: "foldl crc_bit a bs = foldl crc_bit b bs \<Longrightarrow> a = b"
proof (induction bs arbitrary: a b)
  case (Cons v bs)
  from Cons.prems have "foldl crc_bit (crc_bit a v) bs = foldl crc_bit (crc_bit b v) bs" by simp
  then have "crc_bit a v = crc_bit b v" by (rule Cons.IH)
  then have "a XOR of_bool v = b XOR of_bool v" unfolding crc_bit_def by (rule crc_shift_inj)
  then show ?case by (rule xor_cancel)
qed simp

lemma burst_inj:
  assumes "length xs \<le> 32" and "length ys = length xs" and "foldl crc_bit c xs = foldl crc_bit c ys"
  shows "xs = ys"
proof -
  have "c XOR bits_word xs = c XOR bits_word ys"
    by (rule shifts_inj [of "length xs"]) (use assms crc_bits_word [of xs c] crc_bits_word [of ys c] in simp)
  then have "bits_word xs XOR c = bits_word ys XOR c" by (simp only: xor.commute)
  then have w: "bits_word xs = bits_word ys" by (rule xor_cancel)
  show ?thesis
  proof (rule nth_equalityI)
    fix i assume "i < length xs"
    then show "xs ! i = ys ! i" using bit_bits_word [of xs i] bit_bits_word [of ys i] w assms(1,2) by simp
  qed (simp add: assms(2))
qed

section \<open>Properties\<close>

text \<open>
  C36. On machines of either byte order and for every alignment of the buffer, \<^verbatim>\<open>crc32\<close>
  computes the remainder that a shift register gives that takes the message bit by bit; calculating it
  in pieces of any positive size ends with the same value, whether or not there is a watchdog.
\<close>

theorem crc32_bitwise:
  assumes "0 < chunk_sz"
  shows "crc32 big adr crc buf = crc32_spec crc buf \<and> crc32_wd wd big adr crc buf chunk_sz = Some (crc32_spec crc buf)"
  using assms by (simp add: crc32_bits crc32_wd_def wd_pieces)

theorem crc32_bitwise_witness:
  "crc32_wd True True 3 0 [0x31, 0x32, 0x33] 2 = Some (crc32_spec 0 [0x31, 0x32, 0x33])"
  using crc32_bitwise [of 2 True 3 0 "[0x31, 0x32, 0x33]" True] by simp

text \<open>
  C37. Two messages of the same length that differ, but only within 32 successive bits, have different
  checksums: every burst error of that length is found.
\<close>

theorem crc32_detects_bursts:
  assumes "concat (map byte_bits m) = pre @ xs @ suf" and "concat (map byte_bits m') = pre @ ys @ suf"
    and "length xs \<le> 32" and "length ys = length xs" and "xs \<noteq> ys"
  shows "crc32 big adr crc m \<noteq> crc32 big' adr' crc m'"
proof
  assume "crc32 big adr crc m = crc32 big' adr' crc m'"
  then have "foldl crc_bit (NOT crc) (pre @ xs @ suf) = foldl crc_bit (NOT crc) (pre @ ys @ suf)"
    unfolding crc32_bits crc32_spec_def assms(1,2) by (metis bit.double_compl)
  then have "foldl crc_bit (foldl crc_bit (NOT crc) pre) xs = foldl crc_bit (foldl crc_bit (NOT crc) pre) ys"
    by (simp only: foldl_append) (rule crc_bits_inj)
  with burst_inj assms(3-5) show False by blast
qed

theorem crc32_detects_bursts_witness:
  "crc32 False 0 0 [0x55, 0x01, 0xaa] \<noteq> crc32 False 1 0 [0x55, 0x03, 0xaa]"
proof -
  let ?pre = "byte_bits 0x55" and ?suf = "byte_bits 0xaa"
  have "byte_bits 0x01 \<noteq> byte_bits 0x03" by code_simp
  moreover have "length (byte_bits b) = 8" for b by (simp add: byte_bits_def)
  ultimately show ?thesis
    by (intro crc32_detects_bursts [where pre = ?pre and suf = ?suf and xs = "byte_bits 0x01" and ys = "byte_bits 0x03"]) simp_all
qed

end
