(* ===== verification/Ub_Lmb.thy ===== *)
theory Ub_Lmb
  imports Br_Prelude
begin

text \<open>
  The logical memory blocks of U-Boot (\<^verbatim>\<open>lib/lmb.c\<close>): tables of at most eight regions, one of
  the memory there is and one of what is reserved in it, from which the place of a loaded image is
  allocated. Addresses and sizes are 32-bit words and wrap around; an access outside of the array of
  regions is \<open>None\<close>. The tables are shown to represent sets of addresses.
\<close>

section \<open>The code\<close>

record lmb_property =
  rbase :: u32
  rsize :: u32

record lmb_region =
  cnt :: u32
  total_size :: u32
  region :: "lmb_property list"

record lmb =
  memory :: lmb_region
  reserved :: lmb_region

definition MAX_LMB_REGIONS :: u32 where
  "MAX_LMB_REGIONS = 8"

definition LMB_ALLOC_ANYWHERE :: u32 where
  "LMB_ALLOC_ANYWHERE = 0"

definition lmb_addrs_overlap :: "u32 \<Rightarrow> u32 \<Rightarrow> u32 \<Rightarrow> u32 \<Rightarrow> bool" where
  "lmb_addrs_overlap base1 size1 base2 size2 \<longleftrightarrow> base1 < base2 + size2 \<and> base2 < base1 + size1"

definition lmb_addrs_adjacent :: "u32 \<Rightarrow> u32 \<Rightarrow> u32 \<Rightarrow> u32 \<Rightarrow> int" where
  "lmb_addrs_adjacent base1 size1 base2 size2 =
     (if base2 = base1 + size1 then 1 else if base1 = base2 + size2 then -1 else 0)"

text \<open>Reading an entry of the array.\<close>

definition entry :: "lmb_property list \<Rightarrow> nat \<Rightarrow> lmb_property option" where
  "entry rs i = (if i < length rs then Some (rs ! i) else None)"

definition lmb_regions_adjacent :: "lmb_property list \<Rightarrow> nat \<Rightarrow> nat \<Rightarrow> int option" where
  "lmb_regions_adjacent rs r1 r2 =
     Option.bind (entry rs r1) (\<lambda>p. Option.bind (entry rs r2) (\<lambda>q.
       Some (lmb_addrs_adjacent (rbase p) (rsize p) (rbase q) (rsize q))))"

text \<open>The loop of \<^verbatim>\<open>lmb_remove_region\<close>; its bound \<^verbatim>\<open>rgn->cnt - 1\<close> may wrap around.\<close>

function shift_down :: "u32 \<Rightarrow> nat \<Rightarrow> lmb_property list \<Rightarrow> lmb_property list option" where
  "shift_down n i rs =
     (if word_of_nat i < n
      then (if Suc i < length rs then shift_down n (Suc i) (rs[i := rs ! Suc i]) else None)
      else Some rs)"
  by auto
termination shift_down
  by (relation "measure (\<lambda>(n, i, rs). length rs - i)") auto

declare shift_down.simps [simp del]

definition lmb_remove_region :: "lmb_region \<Rightarrow> nat \<Rightarrow> lmb_region option" where
  "lmb_remove_region rgn r =
     map_option (\<lambda>rs. rgn\<lparr>region := rs, cnt := cnt rgn - 1\<rparr>) (shift_down (cnt rgn - 1) r (region rgn))"

definition grow :: "u32 \<Rightarrow> lmb_property \<Rightarrow> lmb_property" where
  "grow n p = p\<lparr>rsize := rsize p + n\<rparr>"

definition lmb_coalesce_regions :: "lmb_region \<Rightarrow> nat \<Rightarrow> nat \<Rightarrow> lmb_region option" where
  "lmb_coalesce_regions rgn r1 r2 =
     Option.bind (entry (region rgn) r1) (\<lambda>p. Option.bind (entry (region rgn) r2) (\<lambda>q.
       lmb_remove_region (rgn\<lparr>region := (region rgn)[r1 := grow (rsize q) p]\<rparr>) r2))"

definition init_region :: "lmb_region \<Rightarrow> lmb_region" where
  "init_region rgn = rgn\<lparr>region := (region rgn)[0 := \<lparr>rbase = 0, rsize = 0\<rparr>], cnt := 1, total_size := 0\<rparr>"

definition lmb_init :: "lmb \<Rightarrow> lmb" where
  "lmb_init l = \<lparr>memory = init_region (memory l), reserved = init_region (reserved l)\<rparr>"

text \<open>
  The first loop of \<^verbatim>\<open>lmb_add_region\<close>: it returns, or ends with the index it stopped at and the
  number of regions it has coalesced.
\<close>

datatype search = Already_there | Stopped nat "lmb_property list" nat

function coalesce_loop :: "u32 \<Rightarrow> u32 \<Rightarrow> u32 \<Rightarrow> nat \<Rightarrow> lmb_property list \<Rightarrow> search option" where
  "coalesce_loop n base sz i rs =
     (if word_of_nat i < n then
        (if i < length rs then
           let p = rs ! i; adjacent = lmb_addrs_adjacent base sz (rbase p) (rsize p) in
           if rbase p = base \<and> rsize p = sz then Some Already_there
           else if adjacent > 0 then Some (Stopped i (rs[i := (grow sz p)\<lparr>rbase := rbase p - sz\<rparr>]) 1)
           else if adjacent < 0 then Some (Stopped i (rs[i := grow sz p]) 1)
           else coalesce_loop n base sz (Suc i) rs
         else None)
      else Some (Stopped i rs 0))"
  by auto
termination coalesce_loop
  by (relation "measure (\<lambda>(n, base, sz, i, rs). length rs - i)") auto

declare coalesce_loop.simps [simp del]

text \<open>The second loop, from the last of the regions down; the argument is the number of those left.\<close>

fun insert_loop :: "lmb_property \<Rightarrow> nat \<Rightarrow> lmb_property list \<Rightarrow> lmb_property list option" where
  "insert_loop p 0 rs = Some rs"
| "insert_loop p (Suc i) rs =
     (if Suc i < length rs
      then (if rbase p < rbase (rs ! i) then insert_loop p i (rs[Suc i := rs ! i]) else Some (rs[Suc i := p]))
      else None)"

definition insert_region :: "lmb_region \<Rightarrow> lmb_property \<Rightarrow> lmb_region option" where
  "insert_region rgn p =
     Option.bind (insert_loop p (unat (cnt rgn)) (region rgn)) (\<lambda>rs. Option.bind (entry rs 0) (\<lambda>q.
       Some (rgn\<lparr>region := (if rbase p < rbase q then rs[0 := p] else rs), cnt := cnt rgn + 1\<rparr>)))"

text \<open>The join with the following region, and how many were coalesced in all.\<close>

definition coalesce_next :: "nat \<Rightarrow> lmb_region \<Rightarrow> nat \<Rightarrow> (nat \<times> lmb_region) option" where
  "coalesce_next i rgn coalesced =
     (if word_of_nat i < cnt rgn - 1 then
        Option.bind (lmb_regions_adjacent (region rgn) i (Suc i)) (\<lambda>a.
          if a \<noteq> 0 then map_option (\<lambda>r. (Suc coalesced, r)) (lmb_coalesce_regions rgn i (Suc i))
          else Some (coalesced, rgn))
      else Some (coalesced, rgn))"

text \<open>What follows the first loop.\<close>

definition finish_add :: "lmb_region \<Rightarrow> lmb_property \<Rightarrow> search \<Rightarrow> (int \<times> lmb_region) option" where
  "finish_add rgn p s = (case s of
       Already_there \<Rightarrow> Some (0, rgn)
     | Stopped i rs c \<Rightarrow>
         Option.bind (coalesce_next i (rgn\<lparr>region := rs\<rparr>) c) (\<lambda>(coalesced, rgn).
           if coalesced \<noteq> 0 then Some (int coalesced, rgn)
           else if cnt rgn \<ge> MAX_LMB_REGIONS then Some (-1, rgn)
           else map_option (\<lambda>r. (0, r)) (insert_region rgn p)))"

definition lmb_add_region :: "lmb_region \<Rightarrow> u32 \<Rightarrow> u32 \<Rightarrow> (int \<times> lmb_region) option" where
  "lmb_add_region rgn base sz =
     Option.bind (entry (region rgn) 0) (\<lambda>p0.
     if cnt rgn = 1 \<and> rsize p0 = 0 then Some (0, rgn\<lparr>region := (region rgn)[0 := \<lparr>rbase = base, rsize = sz\<rparr>]\<rparr>)
     else Option.bind (coalesce_loop (cnt rgn) base sz 0 (region rgn)) (finish_add rgn \<lparr>rbase = base, rsize = sz\<rparr>))"

definition lmb_add :: "lmb \<Rightarrow> u32 \<Rightarrow> u32 \<Rightarrow> (int \<times> lmb) option" where
  "lmb_add l base sz = map_option (\<lambda>(r, rgn). (r, l\<lparr>memory := rgn\<rparr>)) (lmb_add_region (memory l) base sz)"

definition lmb_reserve :: "lmb \<Rightarrow> u32 \<Rightarrow> u32 \<Rightarrow> (int \<times> lmb) option" where
  "lmb_reserve l base sz = map_option (\<lambda>(r, rgn). (r, l\<lparr>reserved := rgn\<rparr>)) (lmb_add_region (reserved l) base sz)"

text \<open>
  Three functions go through the regions up to the first one that satisfies a condition: the index of
  that region, or none.
\<close>

function scan :: "(lmb_property \<Rightarrow> bool) \<Rightarrow> u32 \<Rightarrow> nat \<Rightarrow> lmb_property list \<Rightarrow> nat option option" where
  "scan c n i rs =
     (if word_of_nat i < n then
        (if i < length rs then (if c (rs ! i) then Some (Some i) else scan c n (Suc i) rs) else None)
      else Some None)"
  by auto
termination scan
  by (relation "measure (\<lambda>(c, n, i, rs). length rs - i)") auto

declare scan.simps [simp del]

definition contains :: "u32 \<Rightarrow> u32 \<Rightarrow> lmb_property \<Rightarrow> bool" where
  "contains base stop p \<longleftrightarrow> rbase p \<le> base \<and> stop \<le> rbase p + rsize p"

definition free_in :: "lmb_region \<Rightarrow> nat \<Rightarrow> u32 \<Rightarrow> u32 \<Rightarrow> (int \<times> lmb_region) option" where
  "free_in rgn i base sz =
     (let p = region rgn ! i; rgnbegin = rbase p; rgnend = rbase p + rsize p; stop = base + sz in
      if rgnbegin = base \<and> rgnend = stop then map_option (\<lambda>r. (0, r)) (lmb_remove_region rgn i)
      else if rgnbegin = base then
        Some (0, rgn\<lparr>region := (region rgn)[i := \<lparr>rbase = stop, rsize = rsize p - sz\<rparr>]\<rparr>)
      else if rgnend = stop then Some (0, rgn\<lparr>region := (region rgn)[i := p\<lparr>rsize := rsize p - sz\<rparr>]\<rparr>)
      else lmb_add_region (rgn\<lparr>region := (region rgn)[i := p\<lparr>rsize := base - rbase p\<rparr>]\<rparr>) stop (rgnend - stop))"

definition lmb_free :: "lmb \<Rightarrow> u32 \<Rightarrow> u32 \<Rightarrow> (int \<times> lmb) option" where
  "lmb_free l base sz =
     Option.bind (scan (contains base (base + sz)) (cnt (reserved l)) 0 (region (reserved l))) (\<lambda>f. case f of
         None \<Rightarrow> Some (-1, l)
       | Some i \<Rightarrow> map_option (\<lambda>(r, rgn). (r, l\<lparr>reserved := rgn\<rparr>)) (free_in (reserved l) i base sz))"

text \<open>The first region that overlaps, or none, which is the result -1.\<close>

definition lmb_overlaps_region :: "lmb_region \<Rightarrow> u32 \<Rightarrow> u32 \<Rightarrow> nat option option" where
  "lmb_overlaps_region rgn base sz =
     scan (\<lambda>p. lmb_addrs_overlap base sz (rbase p) (rsize p)) (cnt rgn) 0 (region rgn)"

definition lmb_align_down :: "u32 \<Rightarrow> u32 \<Rightarrow> u32" where
  "lmb_align_down adr sz = adr AND NOT (sz - 1)"

definition lmb_align_up :: "u32 \<Rightarrow> u32 \<Rightarrow> u32" where
  "lmb_align_up adr sz = (adr + (sz - 1)) AND NOT (sz - 1)"

text \<open>
  The search for a free place in one region of memory: it takes the place, gives up on all regions
  when the table is full, or goes on with the next region. The loop may run forever.
\<close>

datatype place = Taken u32 lmb_region | Full lmb_region | Next_region

partial_function (option) find_place :: "lmb_region \<Rightarrow> u32 \<Rightarrow> u32 \<Rightarrow> u32 \<Rightarrow> u32 \<Rightarrow> place option" where
  "find_place res lmbbase sz align base =
     (if base \<noteq> 0 \<and> lmbbase \<le> base then
        Option.bind (lmb_overlaps_region res base sz) (\<lambda>j. case j of
            None \<Rightarrow> Option.bind (lmb_add_region res base (lmb_align_up sz align)) (\<lambda>(r, res').
              Some (if r < 0 then Full res' else Taken base res'))
          | Some j' \<Rightarrow>
              (let res_base = rbase (region res ! j') in
               if res_base < sz then Some Next_region
               else find_place res lmbbase sz align (lmb_align_down (res_base - sz) align)))
      else Some Next_region)"

declare find_place.simps [code]

text \<open>Where the search in a region starts.\<close>

definition first_base :: "lmb_property \<Rightarrow> u32 \<Rightarrow> u32 \<Rightarrow> u32 \<Rightarrow> u32 option" where
  "first_base p sz align max_addr =
     (if rsize p < sz then None
      else if max_addr = LMB_ALLOC_ANYWHERE then Some (lmb_align_down (rbase p + rsize p - sz) align)
      else if rbase p < max_addr then Some (lmb_align_down (min (rbase p + rsize p) max_addr - sz) align)
      else None)"

fun alloc_loop :: "lmb \<Rightarrow> u32 \<Rightarrow> u32 \<Rightarrow> u32 \<Rightarrow> nat \<Rightarrow> (u32 \<times> lmb) option" where
  "alloc_loop l sz align max_addr 0 = Some (0, l)"
| "alloc_loop l sz align max_addr (Suc i) =
     Option.bind (entry (region (memory l)) i) (\<lambda>p. case first_base p sz align max_addr of
         None \<Rightarrow> alloc_loop l sz align max_addr i
       | Some b \<Rightarrow> Option.bind (find_place (reserved l) (rbase p) sz align b) (\<lambda>f. case f of
             Taken a res \<Rightarrow> Some (a, l\<lparr>reserved := res\<rparr>)
           | Full res \<Rightarrow> Some (0, l\<lparr>reserved := res\<rparr>)
           | Next_region \<Rightarrow> alloc_loop l sz align max_addr i))"

definition internal_alloc_base :: "lmb \<Rightarrow> u32 \<Rightarrow> u32 \<Rightarrow> u32 \<Rightarrow> (u32 \<times> lmb) option" where
  "internal_alloc_base l sz align max_addr = alloc_loop l sz align max_addr (unat (cnt (memory l)))"

text \<open>A failure is reported with the size and the limit, the arguments of the printed message.\<close>

definition lmb_alloc_base :: "lmb \<Rightarrow> u32 \<Rightarrow> u32 \<Rightarrow> u32 \<Rightarrow> ((u32 \<times> (u32 \<times> u32) option) \<times> lmb) option" where
  "lmb_alloc_base l sz align max_addr =
     map_option (\<lambda>(a, l'). ((a, if a = 0 then Some (sz, max_addr) else None), l')) (internal_alloc_base l sz align max_addr)"

definition lmb_alloc :: "lmb \<Rightarrow> u32 \<Rightarrow> u32 \<Rightarrow> ((u32 \<times> (u32 \<times> u32) option) \<times> lmb) option" where
  "lmb_alloc l sz align = lmb_alloc_base l sz align LMB_ALLOC_ANYWHERE"

definition within :: "u32 \<Rightarrow> lmb_property \<Rightarrow> bool" where
  "within adr p \<longleftrightarrow> (let upper = rbase p + rsize p - 1 in adr \<ge> rbase p \<and> adr \<le> upper)"

definition lmb_is_reserved :: "lmb \<Rightarrow> u32 \<Rightarrow> bool option" where
  "lmb_is_reserved l adr =
     map_option (\<lambda>f. f \<noteq> None) (scan (within adr) (cnt (reserved l)) 0 (region (reserved l)))"

definition lmb_size_bytes :: "lmb_region \<Rightarrow> nat \<Rightarrow> u32 option" where
  "lmb_size_bytes type nr = map_option rsize (entry (region type) nr)"

section \<open>Tables of disjoint regions\<close>

definition lo :: "lmb_property \<Rightarrow> nat" where
  "lo p = unat (rbase p)"

definition hi :: "lmb_property \<Rightarrow> nat" where
  "hi p = unat (rbase p) + unat (rsize p)"

definition proper :: "lmb_property \<Rightarrow> bool" where
  "proper p \<longleftrightarrow> lo p < hi p \<and> hi p < 2 ^ 32"

definition ordered :: "lmb_property list \<Rightarrow> bool" where
  "ordered ps \<longleftrightarrow> (\<forall>p \<in> set ps. proper p) \<and> sorted_wrt (\<lambda>p q. hi p < lo q) ps"

definition span :: "lmb_property list \<Rightarrow> nat set" where
  "span ps = (\<Union>p \<in> set ps. {lo p..<hi p})"

definition live :: "lmb_region \<Rightarrow> lmb_property list" where
  "live r = take (unat (cnt r)) (region r)"

definition sized :: "lmb_region \<Rightarrow> bool" where
  "sized r \<longleftrightarrow> length (region r) = 9 \<and> 1 \<le> unat (cnt r) \<and> unat (cnt r) \<le> 8"

definition fresh :: "lmb_region \<Rightarrow> bool" where
  "fresh r \<longleftrightarrow> length (region r) = 9 \<and> cnt r = 1 \<and> region r ! 0 = \<lparr>rbase = 0, rsize = 0\<rparr>"

definition table_ok :: "lmb_region \<Rightarrow> bool" where
  "table_ok r \<longleftrightarrow> sized r \<and> ordered (live r)"

lemma ordered_append:
  "ordered (xs @ ys) \<longleftrightarrow> ordered xs \<and> ordered ys \<and> (\<forall>x \<in> set xs. \<forall>y \<in> set ys. hi x < lo y)"
  by (auto simp: ordered_def sorted_wrt_append)

lemma ordered_Cons: "ordered (x # ys) \<longleftrightarrow> proper x \<and> ordered ys \<and> (\<forall>y \<in> set ys. hi x < lo y)"
  by (auto simp: ordered_def)

lemma ordered_Nil: "ordered []"
  by (simp add: ordered_def)

lemmas ordered_simps = ordered_append ordered_Cons ordered_Nil

lemma span_simps [simp]: "span [] = {}" "span (x # xs) = {lo x..<hi x} \<union> span xs" "span (xs @ ys) = span xs \<union> span ys"
  by (auto simp: span_def)

text \<open>The four ways in which a region is added.\<close>

inductive added :: "lmb_property \<Rightarrow> lmb_property list \<Rightarrow> lmb_property list \<Rightarrow> bool" where
  between: "(\<And>x. x \<in> set xs \<Longrightarrow> hi x < lo n) \<Longrightarrow> (\<And>y. y \<in> set ys \<Longrightarrow> hi n < lo y) \<Longrightarrow>
    added n (xs @ ys) (xs @ n # ys)"
| below: "lo q = hi n \<Longrightarrow> lo q' = lo n \<Longrightarrow> hi q' = hi q \<Longrightarrow> (\<And>x. x \<in> set xs \<Longrightarrow> hi x < lo n) \<Longrightarrow>
    added n (xs @ q # ys) (xs @ q' # ys)"
| above: "hi q = lo n \<Longrightarrow> lo q' = lo q \<Longrightarrow> hi q' = hi n \<Longrightarrow> (\<And>y. y \<in> set ys \<Longrightarrow> hi n < lo y) \<Longrightarrow>
    added n (xs @ q # ys) (xs @ q' # ys)"
| joining: "hi q = lo n \<Longrightarrow> lo r = hi n \<Longrightarrow> lo q' = lo q \<Longrightarrow> hi q' = hi r \<Longrightarrow>
    added n (xs @ q # r # ys) (xs @ q' # ys)"

lemma added_ordered: "added n ps ps' \<Longrightarrow> proper n \<Longrightarrow> ordered ps \<Longrightarrow> ordered ps'"
proof (induction rule: added.induct)
  case (between xs n ys)
  then show ?case by (auto simp: ordered_simps)
next
  case (below q n q' xs ys)
  then show ?case by (auto simp: ordered_simps proper_def)
next
  case (above q n q' ys xs)
  then show ?case by (auto simp: ordered_simps proper_def)
next
  case (joining q n r q' xs ys)
  then show ?case by (auto simp: ordered_simps proper_def)
qed

lemma added_span:
  "added n ps ps' \<Longrightarrow> proper n \<Longrightarrow> ordered ps \<Longrightarrow> span ps' = span ps \<union> {lo n..<hi n}"
proof (induction rule: added.induct)
  case (between xs n ys)
  then show ?case by auto
next
  case (below q n q' xs ys)
  then have "{lo q'..<hi q'} = {lo q..<hi q} \<union> {lo n..<hi n}" by (auto simp: ordered_simps proper_def)
  then show ?case by auto
next
  case (above q n q' ys xs)
  then have "{lo q'..<hi q'} = {lo q..<hi q} \<union> {lo n..<hi n}" by (auto simp: ordered_simps proper_def)
  then show ?case by auto
next
  case (joining q n r q' xs ys)
  then have "{lo q'..<hi q'} = {lo q..<hi q} \<union> {lo n..<hi n} \<union> {lo r..<hi r}"
    by (auto simp: ordered_simps proper_def)
  then show ?case by auto
qed

section \<open>Words\<close>

lemma index_less: "i < 16 \<Longrightarrow> word_of_nat i < n \<longleftrightarrow> i < unat n" for n :: u32
  by (simp add: word_less_nat_alt unat_of_nat)

lemma unat_end: "hi p < 2 ^ 32 \<Longrightarrow> unat (rbase p + rsize p) = hi p"
  by (simp add: hi_def unat_word_ariths)

lemma unat_pred: "n \<noteq> 0 \<Longrightarrow> unat (n - 1) = unat n - 1" for n :: u32
  by (rule unat_minus_one)

lemma grow_props:
  "hi p < 2 ^ 32 \<Longrightarrow> hi p + unat n < 2 ^ 32 \<Longrightarrow> lo (grow n p) = lo p \<and> hi (grow n p) = hi p + unat n"
  by (simp add: grow_def lo_def hi_def unat_word_ariths)

section \<open>The loops\<close>

lemma shift_down_nth:
  assumes "length rs \<le> 9"
  shows "i \<le> unat n \<Longrightarrow> unat n < length rs \<Longrightarrow> \<exists>rs'. shift_down n i rs = Some rs' \<and> length rs' = length rs
     \<and> (\<forall>j < length rs. rs' ! j = (if i \<le> j \<and> j < unat n then rs ! Suc j else rs ! j))"
  using assms
proof (induction n i rs rule: shift_down.induct)
  case (1 n i rs)
  show ?case
  proof (cases "i < unat n")
    case True
    then have w: "word_of_nat i < n" using "1.prems" index_less by simp
    obtain rs' where "shift_down n (Suc i) (rs[i := rs ! Suc i]) = Some rs'" "length rs' = length rs"
      and nth: "\<forall>j < length rs. rs' ! j = (if Suc i \<le> j \<and> j < unat n then rs[i := rs ! Suc i] ! Suc j else rs[i := rs ! Suc i] ! j)"
      using "1.IH" [OF w] "1.prems" True by auto
    moreover have "rs' ! j = (if i \<le> j \<and> j < unat n then rs ! Suc j else rs ! j)" if "j < length rs" for j
      using nth that True "1.prems" by (auto simp: nth_list_update)
    ultimately show ?thesis using w "1.prems" True by (simp add: shift_down.simps [of n i rs])
  next
    case False
    then have "\<not> word_of_nat i < n" using "1.prems" index_less [of i n] by simp
    then show ?thesis using False by (auto simp: shift_down.simps [of n i rs])
  qed
qed

lemma remove_live:
  assumes "sized r" and "live r = xs @ q # ys"
  shows "\<exists>r'. lmb_remove_region r (length xs) = Some r' \<and> length (region r') = 9
    \<and> unat (cnt r') = unat (cnt r) - 1 \<and> live r' = xs @ ys"
proof -
  let ?n = "unat (cnt r)"
  have len: "length (region r) = 9" and n: "1 \<le> ?n" "?n \<le> 8" using assms(1) by (auto simp: sized_def)
  have lr: "length (live r) = ?n" using len n by (simp add: live_def)
  then have k: "length xs < ?n" "length ys = ?n - 1 - length xs" using assms(2) by auto
  have pred: "unat (cnt r - 1) = ?n - 1" using n by (intro unat_pred) auto
  obtain rs where rs: "shift_down (cnt r - 1) (length xs) (region r) = Some rs" "length rs = 9"
    and nth: "\<forall>j < 9. rs ! j = (if length xs \<le> j \<and> j < ?n - 1 then region r ! Suc j else region r ! j)"
  proof -
    have "length xs \<le> ?n - 1" "?n - 1 < 9" using k n by linarith+
    then show ?thesis using shift_down_nth [of "region r" "length xs" "cnt r - 1"] that by (auto simp: len pred)
  qed
  have at: "region r ! j = (xs @ q # ys) ! j" if "j < ?n" for j using that assms(2) by (metis live_def nth_take)
  have "take (?n - 1) rs = xs @ ys"
  proof (rule nth_equalityI)
    fix j assume "j < length (take (?n - 1) rs)"
    then have j: "j < ?n - 1" by simp
    then show "take (?n - 1) rs ! j = (xs @ ys) ! j" using nth n at [of j] at [of "Suc j"]
      by (auto simp: nth_append nth_Cons')
  qed (use rs k n in simp)
  then show ?thesis using rs pred by (simp add: lmb_remove_region_def live_def)
qed

lemma insert_loop_nth:
  "length rs = 9 \<Longrightarrow> m \<le> n \<Longrightarrow> n < 9 \<Longrightarrow> \<forall>j. m \<le> j \<and> j < n \<longrightarrow> rbase p < rbase (rs ! j) \<Longrightarrow>
   0 < m \<longrightarrow> \<not> rbase p < rbase (rs ! (m - 1)) \<Longrightarrow>
   \<exists>rs'. insert_loop p n rs = Some rs' \<and> length rs' = 9
     \<and> (\<forall>j < 9. rs' ! j = (if m < j \<and> j \<le> n then rs ! (j - 1) else if j = m \<and> 0 < m then p else rs ! j))"
proof (induction n arbitrary: rs)
  case 0
  then show ?case by auto
next
  case (Suc i)
  show ?case
  proof (cases "m = Suc i")
    case True
    then show ?thesis using Suc.prems by (auto simp: nth_list_update)
  next
    case False
    let ?rs = "rs[Suc i := rs ! i]"
    have m: "m \<le> i" using False Suc.prems(2) by simp
    obtain rs' where rs': "insert_loop p i ?rs = Some rs'" "length rs' = 9"
      and nth: "\<forall>j < 9. rs' ! j = (if m < j \<and> j \<le> i then ?rs ! (j - 1) else if j = m \<and> 0 < m then p else ?rs ! j)"
      using Suc.IH [of ?rs] Suc.prems m by auto
    have "rs' ! j = (if m < j \<and> j \<le> Suc i then rs ! (j - 1) else if j = m \<and> 0 < m then p else rs ! j)" if "j < 9" for j
      using nth that m Suc.prems(1,3) by (auto simp: nth_list_update le_Suc_eq)
    moreover have "rbase p < rbase (rs ! i)" using Suc.prems(4) m by simp
    ultimately show ?thesis using rs' Suc.prems(1,3) by simp
  qed
qed

lemma live_nth: "sized r \<Longrightarrow> live r = ps \<Longrightarrow> j < length ps \<Longrightarrow> region r ! j = ps ! j"
  by (auto simp: live_def)

lemma live_length: "sized r \<Longrightarrow> length (live r) = unat (cnt r)"
  by (auto simp: live_def sized_def)

lemma insert_live:
  assumes s: "sized r" "unat (cnt r) < 8" and l: "live r = xs @ ys"
    and xs: "\<And>x. x \<in> set xs \<Longrightarrow> \<not> rbase p < rbase x" and ys: "\<And>y. y \<in> set ys \<Longrightarrow> rbase p < rbase y"
  shows "\<exists>r'. insert_region r p = Some r' \<and> sized r' \<and> live r' = xs @ p # ys"
proof -
  let ?n = "unat (cnt r)" and ?m = "length xs"
  have len: "length (region r) = 9" and n: "1 \<le> ?n" using s by (auto simp: sized_def)
  have ln: "length xs + length ys = ?n" using live_length [OF s(1)] l by simp
  have at: "region r ! j = (xs @ ys) ! j" if "j < ?n" for j using live_nth [OF s(1) l] ln that by simp
  have up: "\<forall>j. ?m \<le> j \<and> j < ?n \<longrightarrow> rbase p < rbase (region r ! j)" using at ln ys by (auto simp: nth_append)
  have dn: "0 < ?m \<longrightarrow> \<not> rbase p < rbase (region r ! (?m - 1))"
  proof
    assume m: "0 < ?m"
    then have "?m - 1 < ?n" using ln by linarith
    moreover have "xs ! (?m - 1) \<in> set xs" using m by simp
    ultimately show "\<not> rbase p < rbase (region r ! (?m - 1))" using at [of "?m - 1"] m xs by (simp add: nth_append)
  qed
  have n9: "?m \<le> ?n" "?n < 9" using ln s(2) by auto
  obtain rs where rs: "insert_loop p ?n (region r) = Some rs" "length rs = 9"
    and nth: "\<forall>j < 9. rs ! j = (if ?m < j \<and> j \<le> ?n then region r ! (j - 1) else if j = ?m \<and> 0 < ?m then p else region r ! j)"
    using insert_loop_nth [OF len n9 up dn] by blast
  let ?rs = "if rbase p < rbase (rs ! 0) then rs[0 := p] else rs"
  have first: "rbase p < rbase (rs ! 0) \<longleftrightarrow> xs = []"
  proof (cases xs)
    case Nil
    then have "ys \<noteq> []" using ln n by auto
    then show ?thesis using Nil nth at [of 0] n ys by (auto simp: nth_append)
  next
    case (Cons a as)
    then have "rs ! 0 = a" using nth at [of 0] n by simp
    then show ?thesis using Cons xs [of a] by simp
  qed
  have c: "unat (cnt r + 1) = Suc ?n" using s(2) by (simp add: unat_word_ariths)
  have "take (Suc ?n) ?rs = xs @ p # ys"
  proof (rule nth_equalityI)
    fix j assume "j < length (take (Suc ?n) ?rs)"
    then have j: "j < Suc ?n" "j < 9" using rs(2) s(2) by auto
    consider "j < ?m" | "j = ?m" | "?m < j" by linarith
    then have "?rs ! j = (xs @ p # ys) ! j"
    proof cases
      case 1
      then show ?thesis using nth j ln at [of j] first by (auto simp: nth_append)
    next
      case 2
      then show ?thesis using nth j first rs(2) by (auto simp: nth_append)
    next
      case 3
      then show ?thesis using nth j ln at [of "j - 1"] by (auto simp: nth_append nth_Cons')
    qed
    then show "take (Suc ?n) ?rs ! j = (xs @ p # ys) ! j" using j by simp
  qed (use rs ln s(2) in auto)
  moreover have "entry rs 0 = Some (rs ! 0)" using rs(2) by (simp only: entry_def) simp
  ultimately show ?thesis using rs c s(2) by (simp add: insert_region_def live_def sized_def)
qed

definition touches :: "u32 \<Rightarrow> u32 \<Rightarrow> lmb_property \<Rightarrow> bool" where
  "touches b sz p \<longleftrightarrow> rbase p = b + sz \<or> b = rbase p + rsize p"

definition joined :: "u32 \<Rightarrow> u32 \<Rightarrow> lmb_property \<Rightarrow> lmb_property" where
  "joined b sz p = (if rbase p = b + sz then (grow sz p)\<lparr>rbase := rbase p - sz\<rparr> else grow sz p)"

lemma coalesce_none:
  assumes "length rs = 9" and "unat n < 9"
  shows "i \<le> unat n \<Longrightarrow> \<forall>j. i \<le> j \<and> j < unat n \<longrightarrow> \<not> touches b sz (rs ! j) \<and> \<not> (rbase (rs ! j) = b \<and> rsize (rs ! j) = sz) \<Longrightarrow>
    coalesce_loop n b sz i rs = Some (Stopped (unat n) rs 0)"
proof (induction "unat n - i" arbitrary: i)
  case 0
  then show ?case using assms index_less [of i n] by (subst coalesce_loop.simps) simp
next
  case (Suc d)
  then have i: "i < unat n" by simp
  then have "\<not> touches b sz (rs ! i)" "\<not> (rbase (rs ! i) = b \<and> rsize (rs ! i) = sz)" using Suc.prems by auto
  moreover have "coalesce_loop n b sz (Suc i) rs = Some (Stopped (unat n) rs 0)" using Suc i by simp
  ultimately show ?case using assms i index_less [of i n]
    by (subst coalesce_loop.simps) (auto simp: Let_def touches_def lmb_addrs_adjacent_def)
qed

lemma coalesce_first:
  assumes "length rs = 9" and "unat n < 9" and k: "k < unat n" "touches b sz (rs ! k)"
    and neq: "\<And>j. j < unat n \<Longrightarrow> \<not> (rbase (rs ! j) = b \<and> rsize (rs ! j) = sz)"
  shows "i \<le> k \<Longrightarrow> \<forall>j. i \<le> j \<and> j < k \<longrightarrow> \<not> touches b sz (rs ! j) \<Longrightarrow>
    coalesce_loop n b sz i rs = Some (Stopped k (rs[k := joined b sz (rs ! k)]) 1)"
proof (induction "k - i" arbitrary: i)
  case 0
  then have "i = k" by simp
  then show ?case using assms(1,2) k neq [of k] index_less [of k n]
    by (subst coalesce_loop.simps) (auto simp: Let_def touches_def joined_def lmb_addrs_adjacent_def)
next
  case (Suc d)
  then have i: "i < k" by simp
  then have "\<not> touches b sz (rs ! i)" "\<not> (rbase (rs ! i) = b \<and> rsize (rs ! i) = sz)" using Suc.prems neq [of i] k by auto
  moreover have "coalesce_loop n b sz (Suc i) rs = Some (Stopped k (rs[k := joined b sz (rs ! k)]) 1)" using Suc i by simp
  ultimately show ?case using assms(1,2) i k index_less [of i n]
    by (subst coalesce_loop.simps) (auto simp: Let_def touches_def lmb_addrs_adjacent_def)
qed

section \<open>Adding a region\<close>

lemma region_same: "r\<lparr>region := region r\<rparr> = (r :: lmb_region)"
  by simp

lemma touches_iff:
  assumes "proper p" and "n = \<lparr>rbase = b, rsize = sz\<rparr>" and "proper n"
  shows "touches b sz p \<longleftrightarrow> lo p = hi n \<or> lo n = hi p"
proof -
  have "unat (b + sz) = hi n" "unat (rbase p + rsize p) = hi p"
    using unat_end [of n] unat_end [of p] assms by (auto simp: proper_def)
  then show ?thesis using assms(2) by (simp add: touches_def lo_def word_unat_eq_iff)
qed

lemma joined_below:
  assumes "proper p" and "n = \<lparr>rbase = b, rsize = sz\<rparr>" and "proper n" and "lo p = hi n"
  shows "lo (joined b sz p) = lo n" "hi (joined b sz p) = hi p"
proof -
  have e: "unat (b + sz) = hi n" using unat_end [of n] assms by (simp add: proper_def)
  then have b: "rbase p = b + sz" using assms(4) by (simp add: lo_def word_unat_eq_iff)
  show "lo (joined b sz p) = lo n" using b assms(2) by (simp add: joined_def lo_def)
  have "unat (rsize p + sz) = unat (rsize p) + unat sz"
    using assms e b by (simp add: proper_def lo_def hi_def unat_word_ariths)
  then show "hi (joined b sz p) = hi p" using b e assms(2,4) by (simp add: joined_def grow_def hi_def lo_def)
qed

lemma joined_above:
  assumes "proper p" and "n = \<lparr>rbase = b, rsize = sz\<rparr>" and "proper n" and "hi p = lo n"
  shows "lo (joined b sz p) = lo p" "hi (joined b sz p) = hi n"
proof -
  have "unat (b + sz) = hi n" using unat_end [of n] assms by (simp add: proper_def)
  then have "rbase p \<noteq> b + sz" using assms by (auto simp: proper_def lo_def)
  then have j: "joined b sz p = grow sz p" by (simp add: joined_def)
  have "hi p + unat sz = hi n" using assms(2,4) by (simp add: hi_def lo_def)
  then show "lo (joined b sz p) = lo p" "hi (joined b sz p) = hi n"
    using grow_props [of p sz] assms(1,3) j by (auto simp: proper_def)
qed

lemma update_live:
  assumes "sized r" and "live r = xs @ q # ys"
  shows "sized (r\<lparr>region := (region r)[length xs := q']\<rparr>)" "live (r\<lparr>region := (region r)[length xs := q']\<rparr>) = xs @ q' # ys"
  using assms by (auto simp: sized_def live_def take_update_swap)

lemma coalesce_next_live:
  assumes s: "sized r" "live r = xs @ q # ys" and q: "proper q"
  shows "ys = [] \<Longrightarrow> coalesce_next (length xs) r c = Some (c, r)"
    and "ys = z # zs \<Longrightarrow> proper z \<Longrightarrow> hi q < lo z \<Longrightarrow> coalesce_next (length xs) r c = Some (c, r)"
    and "ys = z # zs \<Longrightarrow> proper z \<Longrightarrow> hi q = lo z \<Longrightarrow> \<exists>r'. coalesce_next (length xs) r c = Some (Suc c, r')
      \<and> sized r' \<and> live r' = xs @ grow (rsize z) q # zs"
proof -
  let ?n = "unat (cnt r)"
  have len: "length (region r) = 9" and n: "1 \<le> ?n" "?n \<le> 8" using s(1) by (auto simp: sized_def)
  have ln: "length xs + Suc (length ys) = ?n" using live_length [OF s(1)] s(2) by simp
  have pred: "unat (cnt r - 1) = ?n - 1" using n by (intro unat_pred) auto
  have cond: "word_of_nat (length xs) < cnt r - 1 \<longleftrightarrow> ys \<noteq> []"
    using index_less [of "length xs" "cnt r - 1"] ln n pred by (cases ys) auto
  then show "ys = [] \<Longrightarrow> coalesce_next (length xs) r c = Some (c, r)" by (simp add: coalesce_next_def)
  have adj: "lmb_regions_adjacent (region r) (length xs) (Suc (length xs)) = Some (if hi q = lo z then 1 else 0)"
    if z: "ys = z # zs" "proper z" "hi q \<le> lo z"
  proof -
    have "region r ! length xs = q" "region r ! Suc (length xs) = z"
      using live_nth [OF s, of "length xs"] live_nth [OF s, of "Suc (length xs)"] z(1) by (simp_all add: nth_append)
    moreover have "unat (rbase q + rsize q) = hi q" "unat (rbase z + rsize z) = hi z"
      using unat_end q z(2) by (auto simp: proper_def)
    ultimately show ?thesis using z q ln n len
      by (auto simp: lmb_regions_adjacent_def entry_def lmb_addrs_adjacent_def word_unat_eq_iff proper_def lo_def)
  qed
  show "ys = z # zs \<Longrightarrow> proper z \<Longrightarrow> hi q < lo z \<Longrightarrow> coalesce_next (length xs) r c = Some (c, r)"
    using adj cond by (simp add: coalesce_next_def)
  show "\<exists>r'. coalesce_next (length xs) r c = Some (Suc c, r') \<and> sized r' \<and> live r' = xs @ grow (rsize z) q # zs"
    if z: "ys = z # zs" "proper z" "hi q = lo z"
  proof -
    let ?r = "r\<lparr>region := (region r)[length xs := grow (rsize z) q]\<rparr>"
    have at: "region r ! length xs = q" "region r ! Suc (length xs) = z"
      using live_nth [OF s, of "length xs"] live_nth [OF s, of "Suc (length xs)"] z(1) by (simp_all add: nth_append)
    have "sized ?r" "live ?r = (xs @ [grow (rsize z) q]) @ z # zs" using update_live [OF s] z(1) by simp_all
    from remove_live [OF this] obtain r' where "lmb_remove_region ?r (Suc (length xs)) = Some r'"
      "length (region r') = 9" "unat (cnt r') = ?n - 1" "live r' = xs @ grow (rsize z) q # zs" by auto
    moreover have "length ys = Suc (length zs)" using z(1) by simp
    then have "1 \<le> ?n - 1" "?n - 1 \<le> 8" using ln n by linarith+
    then have "sized r'" using calculation(2,3) by (simp add: sized_def)
    ultimately show ?thesis using adj [OF z(1,2)] z cond at ln n len
      by (simp add: coalesce_next_def lmb_coalesce_regions_def entry_def)
  qed
qed

definition separate :: "lmb_property \<Rightarrow> lmb_property list \<Rightarrow> bool" where
  "separate n ps \<longleftrightarrow> (\<forall>p \<in> set ps. hi p \<le> lo n \<or> hi n \<le> lo p)"

definition adds :: "lmb_region \<Rightarrow> lmb_property \<Rightarrow> int \<Rightarrow> lmb_region \<Rightarrow> bool" where
  "adds r n ret r' \<longleftrightarrow> ret = -1 \<and> r' = r \<and> unat (cnt r) = 8 \<or> 0 \<le> ret \<and> sized r' \<and> added n (live r) (live r')"

lemma add_searches:
  assumes s: "table_ok r" and n: "n = \<lparr>rbase = b, rsize = sz\<rparr>" "proper n" and apart: "separate n (live r)"
  shows "lmb_add_region r b sz = Option.bind (coalesce_loop (cnt r) b sz 0 (region r)) (finish_add r n)"
    and "j < unat (cnt r) \<Longrightarrow> \<not> (rbase (region r ! j) = b \<and> rsize (region r ! j) = sz)"
proof -
  have len: "length (region r) = 9" and ord: "ordered (live r)" and sz: "sized r" using s by (auto simp: table_ok_def sized_def)
  have mem: "region r ! j \<in> set (live r)" if "j < unat (cnt r)" for j
    using live_nth [OF sz refl, of j] live_length [OF sz] that by (metis nth_mem)
  have "rsize (region r ! 0) \<noteq> 0" if "cnt r = 1" using mem [of 0] ord that by (auto simp: ordered_def proper_def lo_def hi_def)
  then show "lmb_add_region r b sz = Option.bind (coalesce_loop (cnt r) b sz 0 (region r)) (finish_add r n)"
    using len n(1) by (auto simp: lmb_add_region_def entry_def)
  show "\<not> (rbase (region r ! j) = b \<and> rsize (region r ! j) = sz)" if "j < unat (cnt r)"
    using mem [OF that] apart n by (auto simp: separate_def lo_def hi_def proper_def)
qed

lemma add_apart:
  assumes s: "table_ok r" and n: "n = \<lparr>rbase = b, rsize = sz\<rparr>" "proper n" and apart: "separate n (live r)"
    and none: "\<forall>p \<in> set (live r). \<not> touches b sz p"
  shows "\<exists>ret r'. lmb_add_region r b sz = Some (ret, r') \<and> adds r n ret r'"
proof -
  let ?k = "unat (cnt r)"
  have sz: "sized r" and ord: "ordered (live r)" using s by (auto simp: table_ok_def)
  then have len: "length (region r) = 9" "1 \<le> ?k" "?k \<le> 8" by (auto simp: sized_def)
  have away: "hi p < lo n \<or> hi n < lo p" if "p \<in> set (live r)" for p
  proof -
    have "proper p" using ord that by (simp add: ordered_def)
    then show ?thesis using that none apart touches_iff [OF _ n, of p] by (fastforce simp: separate_def)
  qed
  have untouched: "\<not> touches b sz (region r ! j)" if "j < ?k" for j
    using none live_nth [OF sz refl, of j] live_length [OF sz] that by (metis nth_mem)
  have c: "coalesce_loop (cnt r) b sz 0 (region r) = Some (Stopped ?k (region r) 0)"
    using add_searches(2) [OF s n apart] untouched len by (intro coalesce_none) auto
  have pred: "unat (cnt r - 1) = ?k - 1" using len by (intro unat_pred) auto
  have "\<not> ?k < ?k - 1" by linarith
  then have nx: "coalesce_next ?k r 0 = Some (0, r)"
    using index_less [of ?k "cnt r - 1"] pred len by (simp add: coalesce_next_def)
  have full: "MAX_LMB_REGIONS \<le> cnt r \<longleftrightarrow> ?k = 8" using len by (auto simp: MAX_LMB_REGIONS_def word_le_nat_alt)
  show ?thesis
  proof (cases "?k = 8")
    case True
    then show ?thesis using add_searches(1) [OF s n apart] c nx full by (simp add: adds_def finish_add_def)
  next
    case False
    let ?xs = "takeWhile (\<lambda>p. hi p < lo n) (live r)" and ?ys = "dropWhile (\<lambda>p. hi p < lo n) (live r)"
    have split: "live r = ?xs @ ?ys" by simp
    have xs: "hi x < lo n" if "x \<in> set ?xs" for x using that set_takeWhileD by fast
    have ys: "hi n < lo y" if y: "y \<in> set ?ys" for y
    proof (cases ?ys)
      case (Cons z zs)
      have "\<not> hi z < lo n" using hd_dropWhile [of "\<lambda>p. hi p < lo n" "live r"] Cons by simp
      then have "hi n < lo z" using away [of z] Cons set_dropWhileD [of z] by (metis list.set_intros(1))
      moreover have "y = z \<or> hi z < lo y" "proper z" using ord y Cons split by (metis ordered_append ordered_Cons set_ConsD)+
      ultimately show ?thesis by (auto simp: proper_def)
    qed (use y in \<open>simp del: dropWhile_eq_Nil_conv\<close>)
    have less: "?k < 8" using False len by simp
    have "\<not> rbase n < rbase x" if "x \<in> set ?xs" for x
      using xs [OF that] by (auto simp: word_less_nat_alt lo_def hi_def)
    moreover have "rbase n < rbase y" if "y \<in> set ?ys" for y
      using ys [OF that] n(2) by (auto simp: word_less_nat_alt lo_def hi_def proper_def)
    ultimately obtain r' where "insert_region r n = Some r'" "sized r'" "live r' = ?xs @ n # ?ys"
      using insert_live [OF sz less split, of n] by blast
    moreover have "added n (live r) (?xs @ n # ?ys)" using added.between [of ?xs n ?ys] xs ys by simp
    ultimately show ?thesis using add_searches(1) [OF s n apart] c nx full False by (auto simp: adds_def finish_add_def)
  qed
qed

lemma add_touching:
  assumes s: "table_ok r" and n: "n = \<lparr>rbase = b, rsize = sz\<rparr>" "proper n" and apart: "separate n (live r)"
    and l: "live r = xs @ q # ys" "touches b sz q" "\<forall>p \<in> set xs. \<not> touches b sz p"
  shows "\<exists>ret r'. lmb_add_region r b sz = Some (ret, r') \<and> adds r n ret r'"
proof -
  let ?q = "joined b sz q"
  let ?r = "r\<lparr>region := (region r)[length xs := ?q]\<rparr>"
  have sz: "sized r" and ord: "ordered (live r)" using s by (auto simp: table_ok_def)
  then have len: "length (region r) = 9" "unat (cnt r) < 9" by (auto simp: sized_def)
  have at: "region r ! j = (xs @ q # ys) ! j" if "j < unat (cnt r)" for j
    using live_nth [OF sz l(1)] live_length [OF sz] l(1) that by simp
  have k: "length xs < unat (cnt r)" using live_length [OF sz] l(1) by simp
  have "coalesce_loop (cnt r) b sz 0 (region r) = Some (Stopped (length xs) ((region r)[length xs := joined b sz (region r ! length xs)]) 1)"
    using add_searches(2) [OF s n apart] k at l(2,3) by (intro coalesce_first [OF len k]) (auto simp: nth_append)
  then have add: "lmb_add_region r b sz = Option.bind (coalesce_next (length xs) ?r 1) (\<lambda>(coalesced, rgn).
      if coalesced \<noteq> 0 then Some (int coalesced, rgn) else if cnt rgn \<ge> MAX_LMB_REGIONS then Some (-1, rgn)
      else map_option (\<lambda>r. (0, r)) (insert_region rgn n))"
    using add_searches(1) [OF s n apart] at [OF k] by (simp add: finish_add_def)
  have q: "proper q" and qs: "\<forall>x \<in> set xs. hi x < lo q" "\<forall>y \<in> set ys. hi q < lo y" and ys: "\<forall>y \<in> set ys. proper y" "ordered ys"
    using ord unfolding l(1) ordered_append ordered_Cons by (simp_all add: ordered_def)
  have sep: "hi p \<le> lo n \<or> hi n \<le> lo p" if "p \<in> set (live r)" for p using apart that by (simp add: separate_def)
  note u = update_live [OF sz l(1), of ?q]
  have either: "lo q = hi n \<or> lo n = hi q" using touches_iff [OF q n] l(2) by simp
  show ?thesis
  proof (cases "lo q = hi n")
    case below: True
    note j = joined_below [OF q n below]
    have "hi x < lo n" if x: "x \<in> set xs" for x
    proof -
      have "proper x" "x \<in> set (live r)" using ord x l(1) by (auto simp: ordered_def)
      moreover have "hi x < hi n" using qs(1) x below by auto
      moreover have "lo n \<noteq> hi x" using touches_iff [OF calculation(1) n] l(3) x by auto
      ultimately show ?thesis using sep [of x] by (auto simp: proper_def)
    qed
    then have "added n (live r) (live ?r)" unfolding u(2) unfolding l(1) by (intro added.below [OF below j])
    moreover have "coalesce_next (length xs) ?r 1 = Some (1, ?r)"
      using coalesce_next_live(1,2) [OF u] j q n(2) qs(2) ys(1) below by (cases ys) (auto simp: proper_def)
    ultimately show ?thesis using add u(1) by (simp add: adds_def)
  next
    case False
    then have above: "hi q = lo n" using either by simp
    note j = joined_above [OF q n above]
    have pq: "proper ?q" using j q n(2) above by (simp add: proper_def)
    have far: "hi n \<le> lo y" if y: "y \<in> set ys" for y
    proof -
      have "proper y" "lo n < lo y" using ys(1) qs(2) y above by auto
      then show ?thesis using sep [of y] l(1) y by (auto simp: proper_def)
    qed
    consider (last) "ys = []" | (gap) z zs where "ys = z # zs" "hi n < lo z" | (meet) z zs where "ys = z # zs" "hi n = lo z"
      using far by (metis le_neq_implies_less list.exhaust list.set_intros(1))
    then show ?thesis
    proof cases
      case meet
      have z: "proper z" using ys(1) meet(1) by simp
      then obtain r' where r': "coalesce_next (length xs) ?r 1 = Some (2, r')" "sized r'" "live r' = xs @ grow (rsize z) ?q # zs"
        using coalesce_next_live(3) [OF u pq meet(1)] meet(2) j by (auto simp: numeral_2_eq_2)
      have "hi ?q + unat (rsize z) = hi z" using j meet(2) by (simp add: hi_def [of z] lo_def)
      then have "lo (grow (rsize z) ?q) = lo q" "hi (grow (rsize z) ?q) = hi z"
        using grow_props [of ?q "rsize z"] z pq j by (auto simp: proper_def)
      then have "added n (live r) (live r')"
        unfolding r'(3) unfolding l(1) meet(1) using above meet(2) by (intro added.joining) auto
      then show ?thesis using add r' by (simp add: adds_def)
    next
      case gap
      have "hi n < lo y" if y: "y \<in> set ys" for y
      proof -
        have "proper z" "y = z \<or> hi z < lo y" using ys y gap(1) ordered_Cons [of z zs] by auto
        then show ?thesis using gap(2) by (auto simp: proper_def)
      qed
      then have "added n (live r) (live ?r)" unfolding u(2) unfolding l(1) by (intro added.above [OF above j])
      moreover have "coalesce_next (length xs) ?r 1 = Some (1, ?r)"
        using coalesce_next_live(2) [OF u pq gap(1)] ys(1) gap j by simp
      ultimately show ?thesis using add u(1) by (simp add: adds_def)
    next
      case last
      then have "added n (live r) (live ?r)" unfolding u(2) unfolding l(1) by (intro added.above [OF above j]) simp
      then show ?thesis using add u coalesce_next_live(1) [OF u pq last] by (simp add: adds_def)
    qed
  qed
qed

lemma add_region_adds:
  assumes "table_ok r" and "n = \<lparr>rbase = b, rsize = sz\<rparr>" "proper n" and "separate n (live r)"
  shows "\<exists>ret r'. lmb_add_region r b sz = Some (ret, r') \<and> adds r n ret r'"
proof (cases "\<exists>p \<in> set (live r). touches b sz p")
  case True
  then obtain xs q ys where "live r = xs @ q # ys" "touches b sz q" "\<forall>p \<in> set xs. \<not> touches b sz p"
    using split_list_first_prop by metis
  then show ?thesis by (rule add_touching [OF assms])
next
  case False
  then show ?thesis using add_apart [OF assms] by blast
qed

end
