(* ===== verification/Ub_LmbSets.thy ===== *)
theory Ub_LmbSets
  imports Ub_Lmb
begin

text \<open>
  What the tables of \<open>Ub_Lmb\<close> promise. The reserved regions represent a set of addresses: a locale
  states what reserving, freeing and asking do to such a set, and the table is an instance of it. The
  second part is the allocation; the last shows where the code does not keep its promises.
\<close>

section \<open>Searching\<close>

lemma scan_from:
  assumes "length rs = 9" and "unat n < 9"
  shows "i \<le> unat n \<Longrightarrow> (\<forall>j. i \<le> j \<and> j < unat n \<longrightarrow> \<not> c (rs ! j)) \<Longrightarrow> scan c n i rs = Some None"
    and "i \<le> k \<Longrightarrow> k < unat n \<Longrightarrow> c (rs ! k) \<Longrightarrow> (\<forall>j. i \<le> j \<and> j < k \<longrightarrow> \<not> c (rs ! j)) \<Longrightarrow> scan c n i rs = Some (Some k)"
proof -
  show "i \<le> unat n \<Longrightarrow> (\<forall>j. i \<le> j \<and> j < unat n \<longrightarrow> \<not> c (rs ! j)) \<Longrightarrow> scan c n i rs = Some None"
  proof (induction "unat n - i" arbitrary: i)
    case 0
    then show ?case using assms index_less [of i n] by (subst scan.simps) simp
  next
    case (Suc d)
    then have "scan c n (Suc i) rs = Some None" "\<not> c (rs ! i)" "i < unat n" by simp_all
    then show ?case using assms index_less [of i n] by (subst scan.simps) simp
  qed
  show "i \<le> k \<Longrightarrow> k < unat n \<Longrightarrow> c (rs ! k) \<Longrightarrow> (\<forall>j. i \<le> j \<and> j < k \<longrightarrow> \<not> c (rs ! j)) \<Longrightarrow> scan c n i rs = Some (Some k)"
  proof (induction "k - i" arbitrary: i)
    case 0
    then show ?case using assms index_less [of i n] by (subst scan.simps) simp
  next
    case (Suc d)
    then have "scan c n (Suc i) rs = Some (Some k)" "\<not> c (rs ! i)" "i < k" by simp_all
    then show ?case using assms index_less [of i n] Suc.prems by (subst scan.simps) simp
  qed
qed

lemma scan_none:
  assumes "sized r" and "\<forall>p \<in> set (live r). \<not> c p"
  shows "scan c (cnt r) 0 (region r) = Some None"
proof -
  have "\<not> c (region r ! j)" if "j < unat (cnt r)" for j
    using assms live_nth [OF assms(1) refl, of j] live_length [OF assms(1)] that by (metis nth_mem)
  then show ?thesis using assms(1) by (intro scan_from(1)) (auto simp: sized_def)
qed

lemma scan_first:
  assumes "sized r" and l: "live r = xs @ q # ys" and "c q" "\<forall>x \<in> set xs. \<not> c x"
  shows "scan c (cnt r) 0 (region r) = Some (Some (length xs))"
proof -
  have k: "length xs < unat (cnt r)" using live_length [OF assms(1)] l by simp
  have "region r ! j = (xs @ q # ys) ! j" if "j \<le> length xs" for j using live_nth [OF assms(1) l] that by simp
  then show ?thesis using assms k by (intro scan_from(2)) (auto simp: sized_def nth_append)
qed

lemma scan_cases:
  assumes "sized r"
  obtains "scan c (cnt r) 0 (region r) = Some None" "\<forall>p \<in> set (live r). \<not> c p"
  | k where "scan c (cnt r) 0 (region r) = Some (Some k)" "region r ! k \<in> set (live r)" "c (region r ! k)"
proof (cases "\<exists>p \<in> set (live r). c p")
  case True
  then obtain xs q ys where l: "live r = xs @ q # ys" "c q" "\<forall>x \<in> set xs. \<not> c x" using split_list_first_prop by metis
  moreover have "region r ! length xs = q" using live_nth [OF assms l(1), of "length xs"] by simp
  ultimately show ?thesis using that(2) scan_first [OF assms l] by simp
next
  case False
  then show ?thesis using that(1) scan_none [OF assms] by blast
qed

section \<open>Sets of addresses\<close>

datatype lmb_op = Reserve u32 u32 | Free u32 u32

definition block :: "u32 \<Rightarrow> u32 \<Rightarrow> nat set" where
  "block b sz = {unat b..<unat b + unat sz}"

definition valid_block :: "u32 \<Rightarrow> u32 \<Rightarrow> bool" where
  "valid_block b sz \<longleftrightarrow> 0 < unat sz \<and> unat b + unat sz < 2 ^ 32"

fun set_op :: "lmb_op \<Rightarrow> nat set \<Rightarrow> nat set" where
  "set_op (Reserve b sz) S = S \<union> block b sz"
| "set_op (Free b sz) S = S - block b sz"

text \<open>
  What is reserved was free before, what is freed was reserved, and something stays reserved.
\<close>

fun legal :: "lmb_op \<Rightarrow> nat set \<Rightarrow> bool" where
  "legal (Reserve b sz) S \<longleftrightarrow> valid_block b sz \<and> block b sz \<inter> S = {}"
| "legal (Free b sz) S \<longleftrightarrow> valid_block b sz \<and> block b sz \<subset> S"

fun legal_run :: "lmb_op list \<Rightarrow> nat set \<Rightarrow> bool" where
  "legal_run [] S \<longleftrightarrow> True"
| "legal_run (o1 # os) S \<longleftrightarrow> legal o1 S \<and> legal_run os (set_op o1 S)"

definition set_run :: "lmb_op list \<Rightarrow> nat set \<Rightarrow> nat set" where
  "set_run os S = fold set_op os S"

text \<open>A client stops at the first operation that reports an error.\<close>

fun run_lmb :: "(lmb_op \<Rightarrow> 's \<Rightarrow> (int \<times> 's) option) \<Rightarrow> lmb_op list \<Rightarrow> 's \<Rightarrow> (bool \<times> 's) option" where
  "run_lmb f [] s = Some (True, s)"
| "run_lmb f (o1 # os) s = Option.bind (f o1 s) (\<lambda>(ret, s'). if ret < 0 then Some (False, s') else run_lmb f os s')"

locale address_set =
  fixes exec :: "lmb_op \<Rightarrow> 's \<Rightarrow> (int \<times> 's) option"
    and ask :: "'s \<Rightarrow> u32 \<Rightarrow> bool option"
    and addrs :: "'s \<Rightarrow> nat set"
    and ok :: "'s \<Rightarrow> bool"
    and used :: "'s \<Rightarrow> nat"
  assumes exec_law: "ok s \<Longrightarrow> legal c (addrs s) \<Longrightarrow> \<exists>ret s'. exec c s = Some (ret, s') \<and> (ret < 0 \<longrightarrow> 8 \<le> used s)
      \<and> (0 \<le> ret \<longrightarrow> ok s' \<and> addrs s' = set_op c (addrs s) \<and> used s' \<le> Suc (used s))"
    and ask_law: "ok s \<Longrightarrow> ask s a = Some (unat a \<in> addrs s)"
begin

lemma run_addrs:
  "ok s \<Longrightarrow> legal_run os (addrs s) \<Longrightarrow> \<exists>fin s'. run_lmb exec os s = Some (fin, s')
     \<and> (fin \<longrightarrow> (\<forall>a. ask s' a = Some (unat a \<in> set_run os (addrs s)))) \<and> (used s + length os \<le> 8 \<longrightarrow> fin)"
proof (induction os arbitrary: s)
  case Nil
  then show ?case by (auto simp: ask_law set_run_def)
next
  case (Cons c os)
  then obtain ret s' where s': "exec c s = Some (ret, s')" "ret < 0 \<longrightarrow> 8 \<le> used s"
    "0 \<le> ret \<longrightarrow> ok s' \<and> addrs s' = set_op c (addrs s) \<and> used s' \<le> Suc (used s)"
    using exec_law [of s c] by auto
  show ?case
  proof (cases "ret < 0")
    case False
    then have n: "ok s'" "addrs s' = set_op c (addrs s)" "used s' \<le> Suc (used s)" using s'(3) by auto
    then obtain fin s2 where "run_lmb exec os s' = Some (fin, s2)"
      "fin \<longrightarrow> (\<forall>a. ask s2 a = Some (unat a \<in> set_run (c # os) (addrs s)))" "used s' + length os \<le> 8 \<longrightarrow> fin"
      using Cons.IH [of s'] Cons.prems(2) by (auto simp: set_run_def)
    moreover have "used s' + length os \<le> 8" if "used s + length (c # os) \<le> 8" using that n(3) by simp
    ultimately show ?thesis using s'(1) False by auto
  next
    case True
    then have "run_lmb exec (c # os) s = Some (False, s')" "8 \<le> used s" using s'(1,2) by simp_all
    then show ?thesis by auto
  qed
qed

end

section \<open>The table is such a set\<close>

definition lmb_exec :: "lmb_op \<Rightarrow> lmb \<Rightarrow> (int \<times> lmb) option" where
  "lmb_exec c l = (case c of Reserve b sz \<Rightarrow> lmb_reserve l b sz | Free b sz \<Rightarrow> lmb_free l b sz)"

definition lmb_addrs :: "lmb \<Rightarrow> nat set" where
  "lmb_addrs l = span (live (reserved l))"

definition lmb_ok :: "lmb \<Rightarrow> bool" where
  "lmb_ok l \<longleftrightarrow> table_ok (reserved l)"

lemma valid_proper: "valid_block b sz \<longleftrightarrow> proper \<lparr>rbase = b, rsize = sz\<rparr>"
  by (simp add: valid_block_def proper_def lo_def hi_def)

lemma block_bounds: "block b sz = {lo \<lparr>rbase = b, rsize = sz\<rparr>..<hi \<lparr>rbase = b, rsize = sz\<rparr>}"
  by (simp add: block_def lo_def hi_def)

lemma disjoint_separate:
  assumes "ordered ps" and "proper n" and "{lo n..<hi n} \<inter> span ps = {}"
  shows "separate n ps"
  unfolding separate_def
proof
  fix p assume p: "p \<in> set ps"
  then have "proper p" "{lo p..<hi p} \<subseteq> span ps" using assms(1) by (auto simp: ordered_def span_def)
  then have "max (lo n) (lo p) \<notin> {lo n..<hi n} \<inter> {lo p..<hi p}" using assms(3) by blast
  then show "hi p \<le> lo n \<or> hi n \<le> lo p" using assms(2) \<open>proper p\<close> by (simp add: proper_def) linarith
qed

text \<open>
  An operation on a table fails when there is no room for another region, or makes it a table of
  the addresses \<open>S\<close>.
\<close>

definition turns :: "lmb_region \<Rightarrow> nat set \<Rightarrow> int \<Rightarrow> lmb_region \<Rightarrow> bool" where
  "turns r S ret r' \<longleftrightarrow> (ret < 0 \<longrightarrow> length (live r) = 8)
     \<and> (0 \<le> ret \<longrightarrow> table_ok r' \<and> span (live r') = S \<and> length (live r') \<le> Suc (length (live r)))"

lemma added_length: "added n ps ps' \<Longrightarrow> length ps' \<le> Suc (length ps)"
  by (induction rule: added.induct) auto

lemma add_region_span:
  assumes "table_ok r" and "valid_block b sz" and "block b sz \<inter> span (live r) = {}"
  shows "\<exists>ret r'. lmb_add_region r b sz = Some (ret, r') \<and> turns r (span (live r) \<union> block b sz) ret r' \<and> (ret < 0 \<longrightarrow> r' = r)"
proof -
  let ?n = "\<lparr>rbase = b, rsize = sz\<rparr>"
  have ord: "ordered (live r)" and n: "proper ?n" using assms(1,2) by (auto simp: table_ok_def valid_proper)
  then have "separate ?n (live r)" using assms(3) by (intro disjoint_separate) (auto simp: block_bounds)
  from add_region_adds [OF assms(1) refl n this] show ?thesis
    using added_ordered [OF _ n ord] added_span [OF _ n ord] added_length live_length [of r] assms(1)
    by (fastforce simp: adds_def table_ok_def block_bounds turns_def)
qed

lemma reserve_law:
  assumes "lmb_ok l" and "legal (Reserve b sz) (lmb_addrs l)"
  shows "\<exists>ret l'. lmb_reserve l b sz = Some (ret, l') \<and> turns (reserved l) (lmb_addrs l \<union> block b sz) ret (reserved l')"
  using add_region_span [of "reserved l" b sz] assms by (auto simp: lmb_ok_def lmb_addrs_def lmb_reserve_def)

text \<open>A block of reserved addresses is part of one region.\<close>

lemma block_in_region:
  assumes "ordered ps" and "proper n" and "{lo n..<hi n} \<subseteq> span ps"
  obtains xs q ys where "ps = xs @ q # ys" "lo q \<le> lo n" "hi n \<le> hi q"
proof -
  have "lo n \<in> span ps" using assms(2,3) by (auto simp: proper_def)
  then obtain q where q: "q \<in> set ps" "lo q \<le> lo n" "lo n < hi q" by (auto simp: span_def)
  obtain xs ys where l: "ps = xs @ q # ys" using q(1) split_list by metis
  have "hi q \<notin> span ps"
  proof
    assume "hi q \<in> span ps"
    then obtain p where p: "p \<in> set ps" "lo p \<le> hi q" "hi q < hi p" by (auto simp: span_def)
    have "p = q \<or> hi p < lo q \<or> hi q < lo p" using p(1) assms(1) unfolding l ordered_append ordered_Cons by auto
    moreover have "lo q < hi q" using q by simp
    ultimately show False using p by auto
  qed
  then have "hi n \<le> hi q" using assms(3) q(3) by (meson atLeastLessThan_iff in_mono not_le less_imp_le)
  then show ?thesis using that l q(2) by blast
qed

lemma span_apart:
  assumes "ordered (xs @ q # ys)"
  shows "span xs \<inter> {lo q..<hi q} = {}" "span ys \<inter> {lo q..<hi q} = {}"
proof -
  have "hi x < lo q" if "x \<in> set xs" for x using assms that unfolding ordered_append ordered_Cons by auto
  then show "span xs \<inter> {lo q..<hi q} = {}" by (fastforce simp: span_def)
  have "hi q < lo y" if "y \<in> set ys" for y using assms that unfolding ordered_append ordered_Cons by auto
  then show "span ys \<inter> {lo q..<hi q} = {}" by (fastforce simp: span_def)
qed

lemma ordered_shrink:
  "ordered (xs @ q # ys) \<Longrightarrow> proper q' \<Longrightarrow> lo q \<le> lo q' \<Longrightarrow> hi q' \<le> hi q \<Longrightarrow> ordered (xs @ q' # ys)"
  unfolding ordered_append ordered_Cons by force

lemma span_shrink:
  "ordered (xs @ q # ys) \<Longrightarrow> B \<subseteq> {lo q..<hi q} \<Longrightarrow> span (xs @ q # ys) - B = span xs \<union> ({lo q..<hi q} - B) \<union> span ys"
  using span_apart [of xs q ys] by auto

lemma unat_diff: "unat y \<le> unat x \<Longrightarrow> unat (x - y) = unat x - unat y" for x y :: u32
  by (simp add: unat_sub word_le_nat_alt)

lemma contains_iff:
  assumes "valid_block b sz" and "proper p"
  shows "contains b (b + sz) p \<longleftrightarrow> lo p \<le> unat b \<and> unat b + unat sz \<le> hi p"
  using assms unat_end [of "\<lparr>rbase = b, rsize = sz\<rparr>"] unat_end [of p]
  by (simp add: contains_def word_le_nat_alt lo_def hi_def proper_def valid_block_def)

text \<open>What is left of the region a block is freed from: nothing, its end, its start or both.\<close>

lemma free_whole:
  assumes s: "table_ok r" "live r = xs @ q # ys" and v: "valid_block b sz"
    and at: "lo q = unat b" "hi q = unat b + unat sz" and more: "block b sz \<noteq> span (live r)"
  shows "\<exists>ret r'. free_in r (length xs) b sz = Some (ret, r') \<and> turns r (span (live r) - block b sz) ret r'"
proof -
  have sz: "sized r" and ord: "ordered (xs @ q # ys)" using s by (auto simp: table_ok_def)
  obtain r' where r': "lmb_remove_region r (length xs) = Some r'" "length (region r') = 9"
    "unat (cnt r') = unat (cnt r) - 1" "live r' = xs @ ys" using remove_live [OF sz s(2)] by blast
  have "block b sz = {lo q..<hi q}" using at by (simp add: block_def)
  then have "xs = [] \<Longrightarrow> ys \<noteq> []" and left: "span (live r') = span (live r) - block b sz"
    using more span_shrink [OF ord, of "block b sz"] s(2) r'(4) by auto
  then have "1 \<le> length xs + length ys" by (cases xs) (simp_all add: Suc_le_eq)
  moreover have "length xs + Suc (length ys) = unat (cnt r)" using live_length [OF sz] s(2) by simp
  ultimately have "1 \<le> unat (cnt r')" "unat (cnt r') \<le> 8" using r'(3) sz unfolding sized_def by linarith+
  then have "sized r'" using r'(2) by (simp only: sized_def)
  moreover have "ordered (xs @ ys)" using ord unfolding ordered_append ordered_Cons by auto
  moreover have "rbase q = b" using at(1) by (simp add: lo_def word_unat_eq_iff)
  moreover have "rsize q = sz" using at by (simp add: lo_def hi_def word_unat_eq_iff)
  moreover have "region r ! length xs = q" using live_nth [OF sz s(2), of "length xs"] by simp
  ultimately show ?thesis using r' left s(2) by (simp add: free_in_def table_ok_def turns_def)
qed

lemma free_shrink:
  assumes s: "table_ok r" "live r = xs @ q # ys" and q': "proper q'" "lo q \<le> lo q'" "hi q' \<le> hi q"
  defines "r' \<equiv> r\<lparr>region := (region r)[length xs := q']\<rparr>"
  shows "table_ok r'" "span (live r') = span (live r) - ({lo q..<hi q} - {lo q'..<hi q'})" "length (live r') = length (live r)"
proof -
  have sz: "sized r" and ord: "ordered (xs @ q # ys)" using s by (auto simp: table_ok_def)
  note u = update_live [OF sz s(2), of q', folded r'_def]
  show "table_ok r'" using u ordered_shrink [OF ord q'] by (simp add: table_ok_def)
  show "length (live r') = length (live r)" using u(2) s(2) by simp
  have "{lo q..<hi q} - ({lo q..<hi q} - {lo q'..<hi q'}) = {lo q'..<hi q'}" using q' by (simp add: double_diff)
  then have "span (live r) - ({lo q..<hi q} - {lo q'..<hi q'}) = span xs \<union> {lo q'..<hi q'} \<union> span ys"
    using span_shrink [OF ord Diff_subset, of "{lo q'..<hi q'}"] by (simp only: s(2))
  then show "span (live r') = span (live r) - ({lo q..<hi q} - {lo q'..<hi q'})" by (simp add: u(2) Un_assoc)
qed

lemma region_ends:
  assumes "proper q" "valid_block b sz"
  shows "unat (rbase q + rsize q) = hi q" "unat (b + sz) = unat b + unat sz"
    "rbase q = b \<longleftrightarrow> lo q = unat b" "rbase q + rsize q = b + sz \<longleftrightarrow> hi q = unat b + unat sz"
proof -
  show e: "unat (rbase q + rsize q) = hi q" using assms(1) unat_end by (simp add: proper_def)
  show f: "unat (b + sz) = unat b + unat sz"
    using assms(2) unat_end [of "\<lparr>rbase = b, rsize = sz\<rparr>"] by (simp add: hi_def valid_block_def)
  show "rbase q = b \<longleftrightarrow> lo q = unat b" by (simp add: lo_def word_unat_eq_iff)
  show "rbase q + rsize q = b + sz \<longleftrightarrow> hi q = unat b + unat sz" unfolding word_unat_eq_iff e f ..
qed

lemma region_of_table:
  assumes "table_ok r" and "live r = xs @ q # ys"
  shows "sized r" "ordered (xs @ q # ys)" "proper q"
  using assms by (auto simp: table_ok_def ordered_def)

lemma free_front:
  assumes s: "table_ok r" "live r = xs @ q # ys" and v: "valid_block b sz"
    and at: "lo q = unat b" "unat b + unat sz < hi q"
  shows "\<exists>ret r'. free_in r (length xs) b sz = Some (ret, r') \<and> turns r (span (live r) - block b sz) ret r'"
proof -
  let ?q = "\<lparr>rbase = b + sz, rsize = rsize q - sz\<rparr>"
  note sz = region_of_table [OF s]
  note e = region_ends [OF sz(3) v]
  have "unat (rsize q - sz) = unat (rsize q) - unat sz" using at by (intro unat_diff) (simp add: lo_def hi_def)
  then have q': "lo ?q = unat b + unat sz" "hi ?q = hi q" using at e(2) by (auto simp: lo_def hi_def)
  then have "proper ?q" "lo q \<le> lo ?q" "hi ?q \<le> hi q" using sz(3) at v by (auto simp: proper_def)
  note f = free_shrink [OF s this]
  have "{lo q..<hi q} - {lo ?q..<hi ?q} = block b sz" unfolding q' block_def using at by auto
  moreover have "region r ! length xs = q" using live_nth [OF sz(1) s(2), of "length xs"] by simp
  ultimately show ?thesis using f e(3,4) at by (simp add: free_in_def turns_def)
qed

lemma free_back:
  assumes s: "table_ok r" "live r = xs @ q # ys" and v: "valid_block b sz"
    and at: "lo q < unat b" "unat b + unat sz = hi q"
  shows "\<exists>ret r'. free_in r (length xs) b sz = Some (ret, r') \<and> turns r (span (live r) - block b sz) ret r'"
proof -
  let ?q = "q\<lparr>rsize := rsize q - sz\<rparr>"
  note sz = region_of_table [OF s]
  note e = region_ends [OF sz(3) v]
  have "unat (rsize q - sz) = unat (rsize q) - unat sz" using at by (intro unat_diff) (simp add: lo_def hi_def)
  then have q': "lo ?q = lo q" "hi ?q = unat b" using at by (auto simp: lo_def hi_def)
  then have "proper ?q" "lo q \<le> lo ?q" "hi ?q \<le> hi q" using sz(3) at v by (auto simp: proper_def)
  note f = free_shrink [OF s this]
  have "{lo q..<hi q} - {lo ?q..<hi ?q} = block b sz" unfolding q' block_def using at by auto
  moreover have "region r ! length xs = q" using live_nth [OF sz(1) s(2), of "length xs"] by simp
  ultimately show ?thesis using f e(3,4) at by (simp add: free_in_def turns_def)
qed

lemma free_middle:
  assumes s: "table_ok r" "live r = xs @ q # ys" and v: "valid_block b sz"
    and at: "lo q < unat b" "unat b + unat sz < hi q"
  shows "\<exists>ret r'. free_in r (length xs) b sz = Some (ret, r') \<and> turns r (span (live r) - block b sz) ret r'"
proof -
  let ?q = "q\<lparr>rsize := b - rbase q\<rparr>" and ?n = "rbase q + rsize q - (b + sz)"
  note sz = region_of_table [OF s]
  note e = region_ends [OF sz(3) v]
  have "unat (b - rbase q) = unat b - lo q" using at unat_diff [of "rbase q" b] by (simp add: lo_def)
  then have q': "lo ?q = lo q" "hi ?q = unat b" using at by (auto simp: lo_def hi_def)
  then have "proper ?q" "lo q \<le> lo ?q" "hi ?q \<le> hi q" using sz(3) at v by (auto simp: proper_def)
  note f = free_shrink [OF s this]
  have "unat ?n = hi q - (unat b + unat sz)" using unat_diff [of "b + sz" "rbase q + rsize q"] e(1,2) at by simp
  then have n: "valid_block (b + sz) ?n" "block (b + sz) ?n = {unat b + unat sz..<hi q}"
    using at e(2) sz(3) by (auto simp: valid_block_def block_def proper_def)
  have sub: "{lo q..<hi q} \<subseteq> span (live r)" using s(2) by auto
  have "block (b + sz) ?n \<inter> (span (live r) - ({lo q..<hi q} - {lo ?q..<hi ?q})) = {}" unfolding n(2) q' using at by auto
  moreover have "span (live r) - ({lo q..<hi q} - {lo ?q..<hi ?q}) \<union> block (b + sz) ?n = span (live r) - block b sz"
    unfolding n(2) q' block_def [of b sz] using sub at by auto
  moreover have "region r ! length xs = q" using live_nth [OF sz(1) s(2), of "length xs"] by simp
  ultimately show ?thesis using add_region_span [OF f(1) n(1)] e(3,4) at by (auto simp: free_in_def turns_def f(2,3))
qed

lemma free_law:
  assumes ok: "lmb_ok l" and "legal (Free b sz) (lmb_addrs l)"
  shows "\<exists>ret l'. lmb_free l b sz = Some (ret, l') \<and> turns (reserved l) (lmb_addrs l - block b sz) ret (reserved l')"
proof -
  let ?r = "reserved l" and ?n = "\<lparr>rbase = b, rsize = sz\<rparr>"
  have v: "valid_block b sz" and sub: "block b sz \<subseteq> span (live ?r)" and more: "block b sz \<noteq> span (live ?r)"
    and t: "table_ok ?r" "ordered (live ?r)" using assms by (auto simp: lmb_addrs_def lmb_ok_def table_ok_def)
  have pr: "proper p" if "p \<in> set (live ?r)" for p using t(2) that by (simp add: ordered_def)
  obtain as p bs where "live ?r = as @ p # bs" "lo p \<le> lo ?n" "hi ?n \<le> hi p"
    by (rule block_in_region [OF t(2), of ?n]) (use v sub in \<open>auto simp: block_bounds valid_proper\<close>)
  then have "p \<in> set (live ?r)" and "lo p \<le> unat b" "unat b + unat sz \<le> hi p" by (simp_all add: lo_def hi_def)
  then have "\<exists>p \<in> set (live ?r). contains b (b + sz) p" using contains_iff [OF v pr [of p]] by (intro bexI [of _ p]) simp_all
  from split_list_first_prop [OF this] obtain xs q ys where l: "live ?r = xs @ q # ys" "contains b (b + sz) q"
    "\<forall>x \<in> set xs. \<not> contains b (b + sz) x" by auto
  then have sc: "scan (contains b (b + sz)) (cnt ?r) 0 (region ?r) = Some (Some (length xs))"
    using t(1) by (intro scan_first) (auto simp: table_ok_def)
  have "q \<in> set (live ?r)" using l(1) by simp
  then have q: "lo q \<le> unat b" "unat b + unat sz \<le> hi q" using l(2) contains_iff [OF v pr [of q]] by simp_all
  then have "\<exists>ret r'. free_in ?r (length xs) b sz = Some (ret, r') \<and> turns ?r (span (live ?r) - block b sz) ret r'"
  proof (cases "lo q = unat b"; cases "hi q = unat b + unat sz")
    show ?thesis if "lo q = unat b" "hi q = unat b + unat sz" using free_whole [OF t(1) l(1) v that more] by blast
    show ?thesis if "lo q = unat b" "hi q \<noteq> unat b + unat sz" using free_front [OF t(1) l(1) v that(1)] that q by force
    show ?thesis if "lo q \<noteq> unat b" "hi q = unat b + unat sz" using free_back [OF t(1) l(1) v] that q by force
    show ?thesis if "lo q \<noteq> unat b" "hi q \<noteq> unat b + unat sz" using free_middle [OF t(1) l(1) v] that q by force
  qed
  then show ?thesis using sc by (auto simp: lmb_free_def lmb_ok_def lmb_addrs_def)
qed

lemma within_iff: "proper p \<Longrightarrow> within a p \<longleftrightarrow> unat a \<in> {lo p..<hi p}"
proof -
  assume p: "proper p"
  then have e: "unat (rbase p + rsize p) = hi p" using unat_end by (simp add: proper_def)
  then have "rbase p + rsize p \<noteq> 0" using p by (metis proper_def less_zeroE unat_0)
  then have "unat (rbase p + rsize p - 1) = hi p - 1" using unat_pred e by metis
  then show ?thesis using p by (auto simp: within_def word_le_nat_alt lo_def proper_def)
qed

lemma reserved_law:
  assumes "lmb_ok l"
  shows "lmb_is_reserved l a = Some (unat a \<in> lmb_addrs l)"
proof -
  have s: "sized (reserved l)" and pr: "\<forall>p \<in> set (live (reserved l)). proper p"
    using assms by (auto simp: lmb_ok_def table_ok_def ordered_def)
  show ?thesis
  proof (cases rule: scan_cases [OF s, of "within a"])
    case 1
    then show ?thesis using pr within_iff by (auto simp: lmb_is_reserved_def lmb_addrs_def span_def)
  next
    case (2 k)
    then show ?thesis using pr within_iff by (fastforce simp: lmb_is_reserved_def lmb_addrs_def span_def)
  qed
qed

definition lmb_used :: "lmb \<Rightarrow> nat" where
  "lmb_used l = length (live (reserved l))"

interpretation lmbs: address_set lmb_exec lmb_is_reserved lmb_addrs lmb_ok lmb_used
proof unfold_locales
  show "\<exists>ret s'. lmb_exec c l = Some (ret, s') \<and> (ret < 0 \<longrightarrow> 8 \<le> lmb_used l)
      \<and> (0 \<le> ret \<longrightarrow> lmb_ok s' \<and> lmb_addrs s' = set_op c (lmb_addrs l) \<and> lmb_used s' \<le> Suc (lmb_used l))"
    if ok: "lmb_ok l" and legal: "legal c (lmb_addrs l)" for l c
  proof -
    have "\<exists>ret l'. lmb_exec c l = Some (ret, l') \<and> turns (reserved l) (set_op c (lmb_addrs l)) ret (reserved l')"
      using legal reserve_law [OF ok] free_law [OF ok] by (cases c) (auto simp: lmb_exec_def)
    then show ?thesis by (auto simp: turns_def lmb_ok_def lmb_addrs_def lmb_used_def)
  qed
  show "lmb_is_reserved l a = Some (unat a \<in> lmb_addrs l)" if "lmb_ok l" for l a using that by (rule reserved_law)
qed

lemma first_reserve:
  assumes "length (region (reserved l)) = 9" and "valid_block b sz"
  obtains l' where "lmb_exec (Reserve b sz) (lmb_init l) = Some (0, l')" "lmb_ok l'" "lmb_addrs l' = block b sz" "lmb_used l' = 1"
proof -
  let ?r = "(init_region (reserved l))\<lparr>region := (region (init_region (reserved l)))[0 := \<lparr>rbase = b, rsize = sz\<rparr>]\<rparr>"
  let ?l = "(lmb_init l)\<lparr>reserved := ?r\<rparr>"
  have "lmb_exec (Reserve b sz) (lmb_init l) = Some (0, ?l)"
    using assms(1) by (simp add: lmb_exec_def lmb_reserve_def lmb_add_region_def lmb_init_def init_region_def entry_def)
  moreover have "live ?r = [\<lparr>rbase = b, rsize = sz\<rparr>]" "sized ?r"
    using assms(1) by (auto simp: live_def init_region_def sized_def take_Suc_conv_app_nth)
  ultimately show ?thesis using that assms(2)
    by (auto simp: lmb_ok_def table_ok_def ordered_simps valid_proper block_bounds lmb_addrs_def lmb_used_def)
qed

text \<open>
  C39. After \<^verbatim>\<open>lmb_init\<close> and a first reservation, any sequence of \<^verbatim>\<open>lmb_reserve\<close> of free
  blocks and \<^verbatim>\<open>lmb_free\<close> of reserved ones stays within the tables, and \<^verbatim>\<open>lmb_is_reserved\<close> answers
  for every address as the set does that the sequence describes, unless an operation has reported an
  error, which none of the first seven can. Blocks are not empty and end below the last address, and something stays reserved.
\<close>

theorem reserved_is_set:
  assumes "length (region (reserved l)) = 9" and "valid_block b sz" and "legal_run os (block b sz)"
  shows "\<exists>fin l'. run_lmb lmb_exec (Reserve b sz # os) (lmb_init l) = Some (fin, l')
    \<and> (fin \<longrightarrow> (\<forall>a. lmb_is_reserved l' a = Some (unat a \<in> set_run os (block b sz)))) \<and> (length os \<le> 7 \<longrightarrow> fin)"
proof -
  obtain l' where l': "lmb_exec (Reserve b sz) (lmb_init l) = Some (0, l')" "lmb_ok l'" "lmb_addrs l' = block b sz"
    "lmb_used l' = 1" using first_reserve [OF assms(1,2)] .
  then show ?thesis using lmbs.run_addrs [OF l'(2), of os] assms(3) by auto
qed

text \<open>A table of nine entries as it stands before \<^verbatim>\<open>lmb_init\<close>.\<close>

definition blank :: lmb_region where
  "blank = \<lparr>cnt = 0, total_size = 0, region = replicate 9 \<lparr>rbase = 0, rsize = 0\<rparr>\<rparr>"

theorem reserved_is_set_witness:
  "\<exists>l'. run_lmb lmb_exec [Reserve 0x1000 0x100, Reserve 0x2000 0x100, Free 0x1010 0x20] (lmb_init \<lparr>memory = blank, reserved = blank\<rparr>)
      = Some (True, l')
    \<and> (\<forall>a. lmb_is_reserved l' a = Some (unat a \<in> {0x1000..<0x1010} \<union> {0x1030..<0x1100} \<union> {0x2000..<0x2100}))"
proof -
  let ?os = "[Reserve 0x2000 0x100, Free 0x1010 0x20]"
  have b: "block 0x1000 0x100 = {0x1000..<0x1100}" "block 0x2000 0x100 = {0x2000..<0x2100}" "block 0x1010 0x20 = {0x1010..<0x1030}"
    by (simp_all add: block_def)
  have "{0x1000..<0x1100} \<inter> {0x2000..<0x2100::nat} = {}" by auto
  moreover have "{0x1010..<0x1030} \<subset> {0x1000..<0x1100} \<union> {0x2000..<0x2100::nat}" by (rule psubsetI) auto
  ultimately have legal: "legal_run ?os (block 0x1000 0x100)" by (auto simp: b valid_block_def)
  have "length (region (reserved \<lparr>memory = blank, reserved = blank\<rparr>)) = 9" "valid_block 0x1000 0x100"
    by (simp_all add: blank_def valid_block_def)
  from reserved_is_set [OF this legal] obtain fin l' where
    run: "run_lmb lmb_exec (Reserve 0x1000 0x100 # ?os) (lmb_init \<lparr>memory = blank, reserved = blank\<rparr>) = Some (fin, l')"
    and res: "fin \<longrightarrow> (\<forall>a. lmb_is_reserved l' a = Some (unat a \<in> set_run ?os (block 0x1000 0x100)))"
    and seven: "length ?os \<le> 7 \<longrightarrow> fin" by blast
  have "set_run ?os (block 0x1000 0x100) = {0x1000..<0x1010} \<union> {0x1030..<0x1100} \<union> {0x2000..<0x2100}"
    by (auto simp: set_run_def b)
  moreover have "fin" using seven by simp
  ultimately show ?thesis using run res by auto
qed

section \<open>Alignment\<close>

lemma unat_power2: "k < 32 \<Longrightarrow> unat (2 ^ k :: u32) = 2 ^ k"
proof -
  assume "k < 32"
  then have "(2 :: nat) ^ k < 2 ^ 32" by (rule power_strict_increasing) simp
  then have "unat (word_of_nat (2 ^ k) :: u32) = 2 ^ k" by (simp add: unat_of_nat del: of_nat_power)
  then show ?thesis by simp
qed

lemma unat_take_bit: "unat (take_bit k x) = unat x mod 2 ^ k" for x :: u32
  unfolding unsigned_take_bit_eq by (rule take_bit_eq_mod)

lemma unat_align_down: "unat (lmb_align_down x (2 ^ k)) = unat x - unat x mod 2 ^ k"
proof -
  have "push_bit k (drop_bit k x) = x AND NOT (mask k)" by (rule bit_eqI) (auto simp: bit_simps)
  then have "lmb_align_down x (2 ^ k) = push_bit k (drop_bit k x)" by (simp add: lmb_align_down_def mask_eq_exp_minus_1)
  then have "lmb_align_down x (2 ^ k) = x - take_bit k x" using bits_ident [of k x] by (metis add_diff_cancel_right')
  moreover have "unat (take_bit k x) \<le> unat x" by (simp only: unat_take_bit mod_less_eq_dividend)
  ultimately show ?thesis using unat_diff [of "take_bit k x" x] by (simp only: unat_take_bit)
qed

lemma align_down_le: "unat (lmb_align_down x (2 ^ k)) \<le> unat x"
  by (simp add: unat_align_down)

lemma align_down_dvd: "2 ^ k dvd unat (lmb_align_down x (2 ^ k))"
  by (simp add: unat_align_down minus_mod_eq_mult_div)

lemma align_down_greatest:
  assumes "2 ^ k dvd b" and "b \<le> unat x"
  shows "b \<le> unat (lmb_align_down x (2 ^ k))"
proof -
  obtain c where c: "b = 2 ^ k * c" using assms(1) by (auto simp: dvd_def)
  then have "c \<le> unat x div 2 ^ k" using assms(2) by (simp add: less_eq_div_iff_mult_less_eq mult.commute)
  then show ?thesis using c by (simp add: unat_align_down minus_mod_eq_mult_div)
qed

lemma align_up_same:
  assumes "2 ^ k dvd unat x"
  shows "lmb_align_up x (2 ^ k) = x"
proof -
  have "take_bit k x = 0" using assms unat_take_bit [of k x] by (simp add: mod_eq_0_iff_dvd unat_eq_0)
  then have n: "\<not> (bit x n \<and> n < k)" for n by (metis bit_take_bit_iff bit_0_eq bot_apply bot_bool_def)
  then have "x + mask k = x OR mask k" by (intro disjunctive_add) (auto simp: bit_mask_iff)
  moreover have "(x OR mask k) AND NOT (mask k) = x" using n by (intro bit_eqI) (auto simp: bit_simps)
  ultimately show ?thesis by (simp add: lmb_align_up_def mask_eq_exp_minus_1)
qed

section \<open>Allocation\<close>

text \<open>An address at which a block fits between two bounds without touching what is reserved.\<close>

definition fits :: "nat set \<Rightarrow> nat \<Rightarrow> nat \<Rightarrow> nat \<Rightarrow> nat \<Rightarrow> nat \<Rightarrow> bool" where
  "fits S bottom limit sz align b \<longleftrightarrow>
     0 < b \<and> bottom \<le> b \<and> b + sz \<le> limit \<and> align dvd b \<and> {b..<b + sz} \<inter> S = {}"

lemma coalesce_loop_total:
  "length rs = 9 \<Longrightarrow> unat n \<le> 8 \<Longrightarrow> i \<le> unat n \<Longrightarrow> \<exists>s. coalesce_loop n b sz i rs = Some s
     \<and> (\<forall>j rs' c. s = Stopped j rs' c \<longrightarrow> length rs' = 9 \<and> j \<le> 8)"
proof (induction n b sz i rs rule: coalesce_loop.induct)
  case (1 n b sz i rs)
  show ?case
  proof (cases "i < unat n")
    case True
    then have "word_of_nat i < n" using index_less [of i n] "1.prems" by simp
    then show ?thesis using "1.IH" "1.prems" True by (subst coalesce_loop.simps) (auto simp: Let_def)
  next
    case False
    then have "\<not> word_of_nat i < n" using index_less [of i n] "1.prems" by simp
    then show ?thesis using "1.prems" by (subst coalesce_loop.simps) auto
  qed
qed

lemma insert_loop_total: "n < length rs \<Longrightarrow> \<exists>rs'. insert_loop p n rs = Some rs' \<and> length rs' = length rs"
proof (induction n arbitrary: rs)
  case (Suc n)
  then show ?case using Suc.IH [of "rs[Suc n := rs ! n]"] by auto
qed simp

lemma coalesce_next_total:
  assumes "sized r" and "i \<le> 8"
  shows "\<exists>c' r'. coalesce_next i r c = Some (c', r') \<and> (c' = 0 \<longrightarrow> r' = r)"
proof (cases "word_of_nat i < cnt r - 1")
  case True
  let ?r = "\<lambda>p. r\<lparr>region := (region r)[i := p]\<rparr>"
  have n: "length (region r) = 9" "cnt r \<noteq> 0" "unat (cnt r) \<le> 8" using assms(1) by (auto simp: sized_def)
  have "i < unat (cnt r - 1)" using True assms(2) index_less [of i "cnt r - 1"] by simp
  then have i: "Suc i \<le> unat (cnt r - 1)" "unat (cnt r - 1) < 9" using unat_pred [OF n(2)] n(3) by auto
  have "\<exists>r'. lmb_remove_region (?r p) (Suc i) = Some r'" for p
    using shift_down_nth [of "region (?r p)" "Suc i" "cnt r - 1"] i n(1) by (auto simp: lmb_remove_region_def)
  then have "\<exists>r'. lmb_coalesce_regions r i (Suc i) = Some r'" using i n(1) by (simp add: lmb_coalesce_regions_def entry_def)
  then show ?thesis using True i n(1) by (auto simp: coalesce_next_def lmb_regions_adjacent_def entry_def)
qed (simp add: coalesce_next_def)

lemma add_region_total:
  assumes "sized r"
  shows "\<exists>ret r'. lmb_add_region r b sz = Some (ret, r') \<and> (ret < 0 \<longrightarrow> length (live r) = 8)"
proof -
  have n: "length (region r) = 9" "unat (cnt r) \<le> 8" using assms by (auto simp: sized_def)
  obtain s where s: "coalesce_loop (cnt r) b sz 0 (region r) = Some s"
    "\<And>j rs c. s = Stopped j rs c \<Longrightarrow> length rs = 9 \<and> j \<le> 8" using coalesce_loop_total [OF n, of 0 b sz] by auto
  have "\<exists>ret r'. finish_add r p s = Some (ret, r') \<and> (ret < 0 \<longrightarrow> length (live r) = 8)" for p
  proof (cases s)
    case (Stopped j rs c)
    let ?r = "r\<lparr>region := rs\<rparr>"
    have rs: "length rs = 9" "j \<le> 8" using s(2) [OF Stopped] by auto
    then have "sized ?r" using assms by (simp add: sized_def)
    then obtain c' r' where c': "coalesce_next j ?r c = Some (c', r')" "c' = 0 \<longrightarrow> r' = ?r"
      using coalesce_next_total [OF _ rs(2)] by blast
    show ?thesis
    proof (cases "c' = 0 \<and> cnt r < MAX_LMB_REGIONS")
      case True
      then have "unat (cnt r) < length rs" using n rs by simp
      from insert_loop_total [OF this, of p] have "\<exists>r2. insert_region ?r p = Some r2"
        using rs by (auto simp: insert_region_def entry_def)
      then show ?thesis using True c' Stopped by (auto simp: finish_add_def)
    next
      case False
      then have "length (live r) = 8" if "c' = 0"
        using that n live_length [OF assms] by (auto simp: MAX_LMB_REGIONS_def word_less_nat_alt)
      then show ?thesis using False c' Stopped by (auto simp: finish_add_def not_less)
    qed
  qed (simp add: finish_add_def)
  then show ?thesis using s(1) n by (auto simp: lmb_add_region_def entry_def)
qed

lemma overlap_iff:
  assumes "valid_block b sz" and "proper q"
  shows "lmb_addrs_overlap b sz (rbase q) (rsize q) \<longleftrightarrow> unat b < hi q \<and> lo q < unat b + unat sz"
  using region_ends(1,2) [OF assms(2,1)] by (simp add: lmb_addrs_overlap_def word_less_nat_alt lo_def)

text \<open>What the search in one region of memory ends with.\<close>

definition place_ok :: "lmb_region \<Rightarrow> nat \<Rightarrow> nat \<Rightarrow> u32 \<Rightarrow> nat \<Rightarrow> place \<Rightarrow> bool" where
  "place_ok res bottom limit sz align f \<longleftrightarrow> (case f of
       Taken a res' \<Rightarrow> fits (span (live res)) bottom limit (unat sz) align (unat a)
         \<and> (align dvd unat sz \<longrightarrow> table_ok res' \<and> span (live res') = span (live res) \<union> block a sz)
     | Full res' \<Rightarrow> length (live res) = 8 \<and> (align dvd unat sz \<longrightarrow> res' = res)
     | Next_region \<Rightarrow> (\<forall>b. \<not> fits (span (live res)) bottom limit (unat sz) align b))"

lemma take_place:
  assumes res: "table_ok res" and v: "valid_block base sz" and free: "\<forall>p \<in> set (live res). \<not> lmb_addrs_overlap base sz (rbase p) (rsize p)"
    and "base \<noteq> 0" "bottom \<le> unat base" "2 ^ k dvd unat base"
  shows "\<exists>ret res'. lmb_add_region res base (lmb_align_up sz (2 ^ k)) = Some (ret, res')
    \<and> place_ok res bottom (unat base + unat sz) sz (2 ^ k) (if ret < 0 then Full res' else Taken base res')"
proof -
  have s: "sized res" and pr: "\<forall>p \<in> set (live res). proper p" using res by (auto simp: table_ok_def ordered_def)
  have disj: "block base sz \<inter> span (live res) = {}" using free pr overlap_iff [OF v] by (fastforce simp: block_def span_def)
  then have f: "fits (span (live res)) bottom (unat base + unat sz) (unat sz) (2 ^ k) (unat base)"
    using assms(4-6) by (auto simp: fits_def block_def unat_gt_0)
  show ?thesis
  proof (cases "2 ^ k dvd unat sz")
    case True
    then show ?thesis using add_region_span [OF res v disj] f by (fastforce simp: align_up_same place_ok_def turns_def)
  next
    case False
    then show ?thesis using add_region_total [OF s] f by (fastforce simp: place_ok_def)
  qed
qed

lemma fits_above:
  assumes "fits S bottom limit sz align b" and "{l..<h} \<subseteq> S" "l < h" "0 < sz" "limit < h + sz"
  shows "b + sz \<le> l"
proof (rule ccontr)
  assume "\<not> b + sz \<le> l"
  then have "max b l \<in> {b..<b + sz} \<inter> {l..<h}" using assms by (auto simp: fits_def)
  then show False using assms(1,2) unfolding fits_def by blast
qed

text \<open>No place is missed between a base and the one tried after it.\<close>

lemma next_base:
  assumes v: "valid_block base sz" and q: "proper q" "{lo q..<hi q} \<subseteq> S"
    and o: "lmb_addrs_overlap base sz (rbase q) (rsize q)"
  shows "rbase q < sz \<Longrightarrow> \<not> fits S bottom (unat base + unat sz) (unat sz) (2 ^ k) b"
    and "\<not> rbase q < sz \<Longrightarrow> unat (lmb_align_down (rbase q - sz) (2 ^ k)) < unat base"
    and "\<not> rbase q < sz \<Longrightarrow> fits S bottom (unat (lmb_align_down (rbase q - sz) (2 ^ k)) + unat sz) (unat sz) (2 ^ k) b \<longleftrightarrow>
      fits S bottom (unat base + unat sz) (unat sz) (2 ^ k) b"
proof -
  let ?b = "lmb_align_down (rbase q - sz) (2 ^ k)" and ?fits = "fits S bottom (unat base + unat sz) (unat sz) (2 ^ k)"
  have at: "unat base < hi q" "lo q < unat base + unat sz" using overlap_iff [OF v q(1)] o by auto
  have low: "b + unat sz \<le> lo q" if "?fits b"
    using fits_above [OF that q(2)] q(1) at v by (simp add: proper_def valid_block_def)
  show "\<not> ?fits b" if "rbase q < sz" using low that by (auto simp: lo_def word_less_nat_alt)
  assume "\<not> rbase q < sz"
  then have d: "unat (rbase q - sz) = lo q - unat sz" "unat sz \<le> lo q"
    using unat_diff [of sz "rbase q"] by (simp_all add: lo_def word_less_nat_alt)
  have "unat ?b \<le> lo q - unat sz" using align_down_le [of "rbase q - sz" k] d by simp
  then show less: "unat ?b < unat base" using at d(2) by linarith
  show "fits S bottom (unat ?b + unat sz) (unat sz) (2 ^ k) b \<longleftrightarrow> ?fits b"
    using low align_down_greatest [of k b "rbase q - sz"] d less by (auto simp: fits_def)
qed

lemma find_place_spec:
  assumes res: "table_ok res" and sz: "0 < unat sz"
  shows "2 ^ k dvd unat base \<Longrightarrow> unat base + unat sz < 2 ^ 32 \<Longrightarrow>
    \<exists>f. find_place res start sz (2 ^ k) base = Some f \<and> place_ok res (unat start) (unat base + unat sz) sz (2 ^ k) f"
proof (induction "unat base" arbitrary: base rule: less_induct)
  case less
  have v: "valid_block base sz" using less.prems sz by (simp add: valid_block_def)
  have s: "sized res" and pr: "\<forall>p \<in> set (live res). proper p" using res by (auto simp: table_ok_def ordered_def)
  let ?c = "\<lambda>p. lmb_addrs_overlap base sz (rbase p) (rsize p)" and ?S = "span (live res)"
  show ?case
  proof (cases "base \<noteq> 0 \<and> start \<le> base")
    case False
    then have "\<not> fits ?S (unat start) (unat base + unat sz) (unat sz) (2 ^ k) b" for b
      by (auto simp: fits_def word_le_nat_alt)
    then show ?thesis using False by (auto simp: find_place.simps [of res start sz _ base] place_ok_def)
  next
    case at: True
    show ?thesis
    proof (cases rule: scan_cases [OF s, of ?c])
      case 1
      then show ?thesis using take_place [OF res v, of "unat start" k] at less.prems(1)
        by (auto simp: find_place.simps [of res start sz _ base] lmb_overlaps_region_def word_le_nat_alt)
    next
      case (2 j)
      let ?q = "region res ! j" and ?b = "lmb_align_down (rbase (region res ! j) - sz) (2 ^ k)"
      have q: "proper ?q" "{lo ?q..<hi ?q} \<subseteq> ?S" using pr 2(2) by (auto simp: span_def)
      note nb = next_base [OF v q 2(3)]
      show ?thesis
      proof (cases "rbase ?q < sz")
        case True
        then show ?thesis using nb(1) at 2
          by (auto simp: find_place.simps [of res start sz _ base] lmb_overlaps_region_def place_ok_def)
      next
        case False
        have less: "unat ?b < unat base" using False by (rule nb(2))
        then have "unat ?b + unat sz < 2 ^ 32" using less.prems(2) by linarith
        from less.hyps [OF less align_down_dvd this] obtain f where f: "find_place res start sz (2 ^ k) ?b = Some f"
          "place_ok res (unat start) (unat ?b + unat sz) sz (2 ^ k) f"
          by blast
        then have "place_ok res (unat start) (unat base + unat sz) sz (2 ^ k) f"
          using nb(3) [OF False] by (simp add: place_ok_def cong: place.case_cong)
        then show ?thesis using f(1) at 2 False
          by (auto simp: find_place.simps [of res start sz _ base] lmb_overlaps_region_def Let_def)
      qed
    qed
  qed
qed

text \<open>The limit for what is allocated in a region of memory.\<close>

definition limit :: "u32 \<Rightarrow> lmb_property \<Rightarrow> nat" where
  "limit max_addr p = (if max_addr = LMB_ALLOC_ANYWHERE then hi p else min (hi p) (unat max_addr))"

lemma first_base_spec:
  assumes p: "proper p" and sz: "0 < unat sz" and m: "max_addr = LMB_ALLOC_ANYWHERE \<or> sz \<le> max_addr"
  shows "first_base p sz (2 ^ k) max_addr = None \<Longrightarrow> \<not> fits S (lo p) (limit max_addr p) (unat sz) (2 ^ k) b"
    and "first_base p sz (2 ^ k) max_addr = Some c \<Longrightarrow> 2 ^ k dvd unat c \<and> unat c + unat sz < 2 ^ 32
      \<and> (fits S (lo p) (unat c + unat sz) (unat sz) (2 ^ k) b \<longleftrightarrow> fits S (lo p) (limit max_addr p) (unat sz) (2 ^ k) b)"
proof -
  have e: "unat (rbase p + rsize p) = hi p" using p unat_end by (simp add: proper_def)
  show "\<not> fits S (lo p) (limit max_addr p) (unat sz) (2 ^ k) b" if "first_base p sz (2 ^ k) max_addr = None"
    using that sz by (auto simp: first_base_def fits_def limit_def lo_def hi_def word_less_nat_alt split: if_splits)
  assume b: "first_base p sz (2 ^ k) max_addr = Some c"
  define t where "t = (if max_addr = LMB_ALLOC_ANYWHERE then rbase p + rsize p else min (rbase p + rsize p) max_addr)"
  have c: "c = lmb_align_down (t - sz) (2 ^ k)" "unat t = limit max_addr p" "unat sz \<le> unat t"
    using b m e by (auto simp: first_base_def t_def limit_def min_def hi_def word_less_nat_alt word_le_nat_alt split: if_splits)
  then have t: "unat (t - sz) = limit max_addr p - unat sz" using unat_diff by metis
  then have le: "unat c + unat sz \<le> limit max_addr p" using align_down_le [of "t - sz" k] c(2,3) unfolding c(1) by linarith
  moreover have "limit max_addr p < 2 ^ 32" using p by (auto simp: limit_def proper_def)
  moreover have "b \<le> unat c" if "2 ^ k dvd b" "b + unat sz \<le> limit max_addr p"
    using that t align_down_greatest [of k b "t - sz"] c(1) by simp
  ultimately show "2 ^ k dvd unat c \<and> unat c + unat sz < 2 ^ 32
      \<and> (fits S (lo p) (unat c + unat sz) (unat sz) (2 ^ k) b \<longleftrightarrow> fits S (lo p) (limit max_addr p) (unat sz) (2 ^ k) b)"
    using align_down_dvd [of k "t - sz"] c(1) by (auto simp: fits_def)
qed

definition region_place :: "lmb \<Rightarrow> u32 \<Rightarrow> u32 \<Rightarrow> u32 \<Rightarrow> lmb_property \<Rightarrow> place option" where
  "region_place l sz align max_addr p = (case first_base p sz align max_addr of
       None \<Rightarrow> Some Next_region
     | Some b \<Rightarrow> find_place (reserved l) (rbase p) sz align b)"

lemma alloc_loop_place:
  "alloc_loop l sz align max_addr (Suc i) =
     Option.bind (entry (region (memory l)) i) (\<lambda>p. Option.bind (region_place l sz align max_addr p) (\<lambda>f. case f of
         Taken a res \<Rightarrow> Some (a, l\<lparr>reserved := res\<rparr>)
       | Full res \<Rightarrow> Some (0, l\<lparr>reserved := res\<rparr>)
       | Next_region \<Rightarrow> alloc_loop l sz align max_addr i))"
  by (cases "entry (region (memory l)) i") (simp_all add: region_place_def split: option.split)

declare alloc_loop.simps(2) [simp del]

lemma region_place_ok:
  assumes "table_ok (reserved l)" and p: "proper p" and sz: "0 < unat sz" and m: "max_addr = LMB_ALLOC_ANYWHERE \<or> sz \<le> max_addr"
  shows "\<exists>f. region_place l sz (2 ^ k) max_addr p = Some f \<and> place_ok (reserved l) (lo p) (limit max_addr p) sz (2 ^ k) f"
proof (cases "first_base p sz (2 ^ k) max_addr")
  case None
  then show ?thesis using first_base_spec(1) [OF p sz m None] by (simp add: region_place_def place_ok_def)
next
  case (Some c)
  note c = first_base_spec(2) [OF p sz m Some]
  obtain f where f: "find_place (reserved l) (rbase p) sz (2 ^ k) c = Some f"
    "place_ok (reserved l) (lo p) (unat c + unat sz) sz (2 ^ k) f"
    using find_place_spec [OF assms(1) sz, of k c "rbase p"] c by (auto simp: lo_def)
  then have "place_ok (reserved l) (lo p) (limit max_addr p) sz (2 ^ k) f"
    using c by (simp add: place_ok_def cong: place.case_cong)
  then show ?thesis using f(1) Some by (simp add: region_place_def)
qed

text \<open>The result of an allocation in some regions of memory.\<close>

definition alloc_ok :: "lmb \<Rightarrow> u32 \<Rightarrow> nat \<Rightarrow> u32 \<Rightarrow> lmb_property list \<Rightarrow> u32 \<Rightarrow> lmb \<Rightarrow> bool" where
  "alloc_ok l sz align max_addr ps a l' \<longleftrightarrow> memory l' = memory l
     \<and> (a \<noteq> 0 \<longrightarrow> (\<exists>p \<in> set ps. fits (lmb_addrs l) (lo p) (limit max_addr p) (unat sz) align (unat a))
          \<and> (align dvd unat sz \<longrightarrow> lmb_ok l' \<and> lmb_addrs l' = lmb_addrs l \<union> block a sz))
     \<and> (a = 0 \<longrightarrow> (lmb_used l = 8 \<or> (\<forall>p \<in> set ps. \<forall>b. \<not> fits (lmb_addrs l) (lo p) (limit max_addr p) (unat sz) align b))
          \<and> (align dvd unat sz \<longrightarrow> l' = l))"

lemma alloc_loop_spec:
  assumes mem: "table_ok (memory l)" and res: "lmb_ok l" and sz: "0 < unat sz"
    and m: "max_addr = LMB_ALLOC_ANYWHERE \<or> sz \<le> max_addr"
  shows "i \<le> unat (cnt (memory l)) \<Longrightarrow> \<exists>a l'. alloc_loop l sz (2 ^ k) max_addr i = Some (a, l')
    \<and> alloc_ok l sz (2 ^ k) max_addr (take i (live (memory l))) a l'"
proof (induction i)
  case 0
  then show ?case by (simp add: alloc_ok_def)
next
  case (Suc i)
  let ?p = "live (memory l) ! i"
  have s: "sized (memory l)" and pr: "\<forall>p \<in> set (live (memory l)). proper p" using mem by (auto simp: table_ok_def ordered_def)
  have len: "i < length (live (memory l))" using Suc.prems live_length [OF s] by simp
  then have p: "region (memory l) ! i = ?p" "proper ?p" using live_nth [OF s refl] pr by auto
  have e: "entry (region (memory l)) i = Some ?p" using len p(1) by (auto simp: entry_def live_def)
  have t: "take (Suc i) (live (memory l)) = take i (live (memory l)) @ [?p]" using len by (rule take_Suc_conv_app_nth)
  obtain f where f: "region_place l sz (2 ^ k) max_addr ?p = Some f"
    "place_ok (reserved l) (lo ?p) (limit max_addr ?p) sz (2 ^ k) f"
    using region_place_ok [OF _ p(2) sz m] res by (auto simp: lmb_ok_def)
  show ?case
  proof (cases f)
    case (Taken a r)
    moreover have "a \<noteq> 0" using Taken f(2) by (auto simp: place_ok_def fits_def)
    ultimately show ?thesis using f e by (simp add: alloc_loop_place place_ok_def alloc_ok_def t lmb_addrs_def lmb_ok_def)
  next
    case (Full r)
    then show ?thesis using f e by (simp add: alloc_loop_place place_ok_def alloc_ok_def lmb_used_def)
  next
    case Next_region
    obtain a l' where "alloc_loop l sz (2 ^ k) max_addr i = Some (a, l')"
      "alloc_ok l sz (2 ^ k) max_addr (take i (live (memory l))) a l'" using Suc by auto
    then show ?thesis using Next_region f e by (auto simp: alloc_loop_place place_ok_def alloc_ok_def t lmb_addrs_def)
  qed
qed

text \<open>
  C40. An allocation of a block with an alignment that is a power of two ends, and
  its result is right in both cases. An address other than 0 is one at which the block fits: aligned,
  in one region of memory, below \<^verbatim>\<open>max_addr\<close> and apart from what was reserved; when the size is a
  multiple of the alignment, exactly this block becomes reserved. The result 0 means that there is no such
  address in any region, or that the table of reservations is full; it is reported, and leaves the
  tables as they were for such a size.
\<close>

theorem alloc_finds_room:
  assumes "table_ok (memory l)" and "lmb_ok l" and "0 < unat sz" and "max_addr = LMB_ALLOC_ANYWHERE \<or> sz \<le> max_addr"
  shows "\<exists>a l'. lmb_alloc_base l sz (2 ^ k) max_addr = Some ((a, if a = 0 then Some (sz, max_addr) else None), l')
    \<and> alloc_ok l sz (2 ^ k) max_addr (live (memory l)) a l'"
proof -
  have "take (unat (cnt (memory l))) (live (memory l)) = live (memory l)" by (simp add: live_def)
  then show ?thesis using alloc_loop_spec [OF assms, of "unat (cnt (memory l))"]
    by (auto simp: lmb_alloc_base_def internal_alloc_base_def)
qed

definition one_region :: "u32 \<Rightarrow> u32 \<Rightarrow> lmb_region" where
  "one_region b sz = \<lparr>cnt = 1, total_size = 0, region = \<lparr>rbase = b, rsize = sz\<rparr> # replicate 8 \<lparr>rbase = 0, rsize = 0\<rparr>\<rparr>"

lemma one_region_ok: "valid_block b sz \<Longrightarrow> table_ok (one_region b sz)"
  by (simp add: table_ok_def sized_def live_def one_region_def ordered_simps valid_proper)

theorem alloc_finds_room_witness:
  "\<exists>a l'. lmb_alloc_base \<lparr>memory = one_region 0x10000000 0x1000, reserved = one_region 0x10000800 0x100\<rparr> 0x900 (2 ^ 8) 0
      = Some ((a, if a = 0 then Some (0x900, 0) else None), l')
    \<and> alloc_ok \<lparr>memory = one_region 0x10000000 0x1000, reserved = one_region 0x10000800 0x100\<rparr> 0x900 (2 ^ 8) 0
        (live (one_region 0x10000000 0x1000)) a l'"
  using alloc_finds_room [of "\<lparr>memory = one_region 0x10000000 0x1000, reserved = one_region 0x10000800 0x100\<rparr>" "0x900" 0 8]
  by (simp add: one_region_ok lmb_ok_def valid_block_def LMB_ALLOC_ANYWHERE_def)

section \<open>Where the code does not keep its promises\<close>

text \<open>
  The last region is freed by setting the count to 0. The next block then meets the entry left
  behind: it is not inserted when it lies above, and the old region is reserved again.
\<close>

lemma lost_reservation:
  "Option.bind (run_lmb lmb_exec [Reserve 0x1000 0x100, Free 0x1000 0x100, Reserve 0x2000 0x100]
       (lmb_init \<lparr>memory = blank, reserved = blank\<rparr>))
     (\<lambda>(fin, l). if fin then Some (lmb_is_reserved l 0x1000, lmb_is_reserved l 0x2000) else None) =
   Some (Some True, Some False)"
  by code_simp

text \<open>Before the first reservation every address is reserved, since the empty region ends at the last address.\<close>

lemma all_reserved_at_first:
  assumes "length (region (reserved l)) = 9"
  shows "lmb_is_reserved (lmb_init l) a = Some True"
proof -
  have "scan (within a) 1 0 (region (init_region (reserved l))) = Some (Some 0)"
    using assms by (subst scan.simps) (auto simp: init_region_def within_def word_order.extremum)
  then show ?thesis by (simp add: lmb_is_reserved_def lmb_init_def init_region_def)
qed

text \<open>With a limit below the size the place wraps around and lies outside of memory.\<close>

lemma alloc_outside_memory:
  "map_option (fst \<circ> fst) (lmb_alloc_base \<lparr>memory = one_region 0x100 0x10000, reserved = one_region 0x200 0x10\<rparr> 0x1000 0x100 0x800) =
   Some 0xFFFFF800"
  by code_simp

text \<open>
  A block freed in the middle of a region of a full table takes the rest of the region with it,
  although the call reports an error.
\<close>

lemma free_loses_tail:
  "Option.bind (run_lmb lmb_exec (map (\<lambda>i. Reserve (i * 0x1000) 0x100) [1, 2, 3, 4, 5, 6, 7, 8] @ [Free 0x1010 0x10])
       (lmb_init \<lparr>memory = blank, reserved = blank\<rparr>))
     (\<lambda>(fin, l). Some (fin, lmb_is_reserved l 0x1000, lmb_is_reserved l 0x1010, lmb_is_reserved l 0x1020)) =
   Some (False, Some True, Some False, Some False)"
  by code_simp

end
