(* ===== verification/Ub_NandEcc.thy ===== *)
theory Ub_NandEcc
  imports Br_Prelude
begin

text \<open>
  The error correcting code of \<^verbatim>\<open>drivers/mtd/nand/nand_ecc.c\<close> for blocks of 256 bytes:
  the three code bytes, and the correction of a block that was read. The byte order of the code
  (\<^verbatim>\<open>CONFIG_MTD_NAND_ECC_SMC\<close>) is an argument.
\<close>

section \<open>The code of a block\<close>

definition nand_ecc_precalc_table :: "u8 list" where
  "nand_ecc_precalc_table = [
    0x00, 0x55, 0x56, 0x03, 0x59, 0x0c, 0x0f, 0x5a, 0x5a, 0x0f, 0x0c, 0x59, 0x03, 0x56, 0x55, 0x00,
    0x65, 0x30, 0x33, 0x66, 0x3c, 0x69, 0x6a, 0x3f, 0x3f, 0x6a, 0x69, 0x3c, 0x66, 0x33, 0x30, 0x65,
    0x66, 0x33, 0x30, 0x65, 0x3f, 0x6a, 0x69, 0x3c, 0x3c, 0x69, 0x6a, 0x3f, 0x65, 0x30, 0x33, 0x66,
    0x03, 0x56, 0x55, 0x00, 0x5a, 0x0f, 0x0c, 0x59, 0x59, 0x0c, 0x0f, 0x5a, 0x00, 0x55, 0x56, 0x03,
    0x69, 0x3c, 0x3f, 0x6a, 0x30, 0x65, 0x66, 0x33, 0x33, 0x66, 0x65, 0x30, 0x6a, 0x3f, 0x3c, 0x69,
    0x0c, 0x59, 0x5a, 0x0f, 0x55, 0x00, 0x03, 0x56, 0x56, 0x03, 0x00, 0x55, 0x0f, 0x5a, 0x59, 0x0c,
    0x0f, 0x5a, 0x59, 0x0c, 0x56, 0x03, 0x00, 0x55, 0x55, 0x00, 0x03, 0x56, 0x0c, 0x59, 0x5a, 0x0f,
    0x6a, 0x3f, 0x3c, 0x69, 0x33, 0x66, 0x65, 0x30, 0x30, 0x65, 0x66, 0x33, 0x69, 0x3c, 0x3f, 0x6a,
    0x6a, 0x3f, 0x3c, 0x69, 0x33, 0x66, 0x65, 0x30, 0x30, 0x65, 0x66, 0x33, 0x69, 0x3c, 0x3f, 0x6a,
    0x0f, 0x5a, 0x59, 0x0c, 0x56, 0x03, 0x00, 0x55, 0x55, 0x00, 0x03, 0x56, 0x0c, 0x59, 0x5a, 0x0f,
    0x0c, 0x59, 0x5a, 0x0f, 0x55, 0x00, 0x03, 0x56, 0x56, 0x03, 0x00, 0x55, 0x0f, 0x5a, 0x59, 0x0c,
    0x69, 0x3c, 0x3f, 0x6a, 0x30, 0x65, 0x66, 0x33, 0x33, 0x66, 0x65, 0x30, 0x6a, 0x3f, 0x3c, 0x69,
    0x03, 0x56, 0x55, 0x00, 0x5a, 0x0f, 0x0c, 0x59, 0x59, 0x0c, 0x0f, 0x5a, 0x00, 0x55, 0x56, 0x03,
    0x66, 0x33, 0x30, 0x65, 0x3f, 0x6a, 0x69, 0x3c, 0x3c, 0x69, 0x6a, 0x3f, 0x65, 0x30, 0x33, 0x66,
    0x65, 0x30, 0x33, 0x66, 0x3c, 0x69, 0x6a, 0x3f, 0x3f, 0x6a, 0x69, 0x3c, 0x66, 0x33, 0x30, 0x65,
    0x00, 0x55, 0x56, 0x03, 0x59, 0x0c, 0x0f, 0x5a, 0x5a, 0x0f, 0x0c, 0x59, 0x03, 0x56, 0x55, 0x00]"

definition precalc :: "u8 \<Rightarrow> u8" where
  "precalc d = nand_ecc_precalc_table ! unat d"

type_synonym regs = "u8 \<times> u8 \<times> u8"

text \<open>The loop over the bytes; the counter is converted to a byte where it is used.\<close>

fun ecc_loop :: "nat \<Rightarrow> u8 list \<Rightarrow> regs \<Rightarrow> regs" where
  "ecc_loop i [] r = r"
| "ecc_loop i (d # ds) (reg1, reg2, reg3) =
     (let idx = precalc d; r1 = reg1 XOR (idx AND 0x3f) in
      if idx AND 0x40 \<noteq> 0
      then ecc_loop (Suc i) ds (r1, reg2 XOR NOT (word_of_nat i), reg3 XOR word_of_nat i)
      else ecc_loop (Suc i) ds (r1, reg2, reg3))"

definition ecc_tmp1 :: "u8 \<Rightarrow> u8 \<Rightarrow> u8" where
  "ecc_tmp1 reg2 reg3 =
     (reg3 AND 0x80) OR drop_bit 1 (reg2 AND 0x80) OR drop_bit 1 (reg3 AND 0x40)
     OR drop_bit 2 (reg2 AND 0x40) OR drop_bit 2 (reg3 AND 0x20) OR drop_bit 3 (reg2 AND 0x20)
     OR drop_bit 3 (reg3 AND 0x10) OR drop_bit 4 (reg2 AND 0x10)"

definition ecc_tmp2 :: "u8 \<Rightarrow> u8 \<Rightarrow> u8" where
  "ecc_tmp2 reg2 reg3 =
     push_bit 4 (reg3 AND 0x08) OR push_bit 3 (reg2 AND 0x08) OR push_bit 3 (reg3 AND 0x04)
     OR push_bit 2 (reg2 AND 0x04) OR push_bit 2 (reg3 AND 0x02) OR push_bit 1 (reg2 AND 0x02)
     OR push_bit 1 (reg3 AND 0x01) OR (reg2 AND 0x01)"

definition nand_calculate_ecc :: "bool \<Rightarrow> u8 list \<Rightarrow> u8 \<times> u8 \<times> u8" where
  "nand_calculate_ecc smc dat = (case ecc_loop 0 dat (0, 0, 0) of (reg1, reg2, reg3) \<Rightarrow>
     let tmp1 = ecc_tmp1 reg2 reg3; tmp2 = ecc_tmp2 reg2 reg3; c2 = push_bit 2 (NOT reg1) OR 0x03 in
     if smc then (NOT tmp2, NOT tmp1, c2) else (NOT tmp1, NOT tmp2, c2))"

section \<open>Correction\<close>

function countbits :: "u32 \<Rightarrow> nat" where
  "countbits b = (if b = 0 then 0 else unat (b AND 1) + countbits (drop_bit 1 b))"
  by auto

lemma drop_bit_less: "b \<noteq> 0 \<Longrightarrow> unat (drop_bit 1 b) < unat (b :: u32)"
  by (simp add: drop_bit_eq_div unat_div unat_gt_0)

termination countbits
  by (relation "measure unat") (use drop_bit_less in simp_all)

declare countbits.simps [simp del]

definition single_bit :: "u8 \<Rightarrow> u8 \<Rightarrow> u8 \<Rightarrow> bool" where
  "single_bit s0 s1 s2 \<longleftrightarrow>
     (s0 XOR drop_bit 1 s0) AND 0x55 = 0x55 \<and> (s1 XOR drop_bit 1 s1) AND 0x55 = 0x55
     \<and> (s2 XOR drop_bit 1 s2) AND 0x54 = 0x54"

definition byteoffs :: "u8 \<Rightarrow> u8 \<Rightarrow> u8" where
  "byteoffs s0 s1 =
     (s1 AND 0x80) OR (push_bit 1 s1 AND 0x40) OR (push_bit 2 s1 AND 0x20) OR (push_bit 3 s1 AND 0x10)
     OR (drop_bit 4 s0 AND 0x08) OR (drop_bit 3 s0 AND 0x04) OR (drop_bit 2 s0 AND 0x02) OR (drop_bit 1 s0 AND 0x01)"

definition bitnum :: "u8 \<Rightarrow> u8" where
  "bitnum s2 = (drop_bit 5 s2 AND 0x04) OR (drop_bit 4 s2 AND 0x02) OR (drop_bit 3 s2 AND 0x01)"

datatype outcome = No_error | Corrected | Bad_message

definition flip_bit :: "nat \<Rightarrow> nat \<Rightarrow> u8 list \<Rightarrow> u8 list" where
  "flip_bit i b dat = dat[i := dat ! i XOR push_bit b 1]"

definition syndrome_word :: "u8 \<Rightarrow> u8 \<Rightarrow> u8 \<Rightarrow> u32" where
  "syndrome_word s0 s1 s2 = ucast s0 OR push_bit 8 (ucast s1) OR push_bit 16 (ucast s2)"

definition correct_by :: "u8 list \<Rightarrow> u8 \<Rightarrow> u8 \<Rightarrow> u8 \<Rightarrow> outcome \<times> u8 list" where
  "correct_by dat s0 s1 s2 =
     (if s0 OR s1 OR s2 = 0 then (No_error, dat)
      else if single_bit s0 s1 s2 then (Corrected, flip_bit (unat (byteoffs s0 s1)) (unat (bitnum s2)) dat)
      else if countbits (syndrome_word s0 s1 s2) = 1 then (Corrected, dat)
      else (Bad_message, dat))"

definition nand_correct_data :: "bool \<Rightarrow> u8 list \<Rightarrow> u8 \<times> u8 \<times> u8 \<Rightarrow> u8 \<times> u8 \<times> u8 \<Rightarrow> outcome \<times> u8 list" where
  "nand_correct_data smc dat read_ecc calc_ecc = (case (read_ecc, calc_ecc) of ((r0, r1, r2), (c0, c1, c2)) \<Rightarrow>
     if smc then correct_by dat (c0 XOR r0) (c1 XOR r1) (c2 XOR r2)
     else correct_by dat (c1 XOR r1) (c0 XOR r0) (c2 XOR r2))"

section \<open>The code is linear\<close>

lemma byte_eqI:
  "bit x 0 = bit y 0 \<Longrightarrow> bit x 1 = bit y 1 \<Longrightarrow> bit x 2 = bit y 2 \<Longrightarrow> bit x 3 = bit y 3 \<Longrightarrow>
   bit x 4 = bit y 4 \<Longrightarrow> bit x 5 = bit y 5 \<Longrightarrow> bit x 6 = bit y 6 \<Longrightarrow> bit x 7 = bit y 7 \<Longrightarrow> x = (y :: u8)"
proof (rule bit_word_eqI)
  fix n assume b: "bit x 0 = bit y 0" "bit x 1 = bit y 1" "bit x 2 = bit y 2" "bit x 3 = bit y 3"
   "bit x 4 = bit y 4" "bit x 5 = bit y 5" "bit x 6 = bit y 6" "bit x 7 = bit y 7" and "n < LENGTH(8)"
  then have "n < 8" by simp
  then have "n = 0 \<or> n = 1 \<or> n = 2 \<or> n = 3 \<or> n = 4 \<or> n = 5 \<or> n = 6 \<or> n = 7" by presburger
  then show "bit x n = bit y n" by (elim disjE) (simp_all only: b)
qed

lemma tmp1_linear: "ecc_tmp1 (a XOR b) (c XOR d) = ecc_tmp1 a c XOR ecc_tmp1 b d"
  by (rule byte_eqI) (simp_all add: ecc_tmp1_def bit_simps)

lemma tmp2_linear: "ecc_tmp2 (a XOR b) (c XOR d) = ecc_tmp2 a c XOR ecc_tmp2 b d"
  by (rule byte_eqI) (simp_all add: ecc_tmp2_def bit_simps)

text \<open>The table is the sum of one column parity for each bit that is set.\<close>

definition column :: "nat \<Rightarrow> u8 \<Rightarrow> u8 \<Rightarrow> u8" where
  "column n c d = (if bit d n then c else 0)"

definition parity_of :: "u8 \<Rightarrow> u8" where
  "parity_of d = column 0 0x55 d XOR column 1 0x56 d XOR column 2 0x59 d XOR column 3 0x5a d
     XOR column 4 0x65 d XOR column 5 0x66 d XOR column 6 0x69 d XOR column 7 0x6a d"

lemma column_linear: "column n c (a XOR b) = column n c a XOR column n c b"
  by (simp add: column_def bit_simps)

lemma parity_linear: "parity_of (a XOR b) = parity_of a XOR parity_of b"
  by (simp add: parity_of_def column_linear xor.assoc xor.left_commute xor.commute)

lemma table_parity: "nand_ecc_precalc_table = map (\<lambda>i. parity_of (word_of_nat i)) [0..<256]"
  by code_simp

lemma precalc_parity: "precalc d = parity_of d"
proof -
  have "unat d < 256" using unsigned_less [of d] by simp
  then show ?thesis by (simp add: precalc_def table_parity)
qed

definition add_regs :: "regs \<Rightarrow> regs \<Rightarrow> regs" where
  "add_regs r e = (fst r XOR fst e, fst (snd r) XOR fst (snd e), snd (snd r) XOR snd (snd e))"

text \<open>What flipping bit \<open>b\<close> of byte \<open>n\<close> adds to the registers.\<close>

definition flip_regs :: "nat \<Rightarrow> nat \<Rightarrow> regs" where
  "flip_regs n b = (parity_of (push_bit b 1) AND 0x3f, NOT (word_of_nat n), word_of_nat n)"

lemma add_regs_simps [simp]: "add_regs (a, b, c) (d, e, f) = (a XOR d, b XOR e, c XOR f)"
  by (simp add: add_regs_def)

lemma ecc_loop_add: "ecc_loop i ds (add_regs r e) = add_regs (ecc_loop i ds r) e"
proof (induction i ds r rule: ecc_loop.induct)
  case (2 i d ds r1 r2 r3)
  obtain e1 e2 e3 where e: "e = (e1, e2, e3)" by (cases e) auto
  show ?case
  proof (cases "precalc d AND 0x40 = 0")
    case True
    with "2.IH"(2) [OF refl refl] show ?thesis
      by (simp add: e Let_def xor.assoc xor.commute xor.left_commute)
  next
    case False
    with "2.IH"(1) [OF refl refl] show ?thesis
      by (simp add: e Let_def xor.assoc xor.commute xor.left_commute)
  qed
qed simp

lemma parity_bit: "x AND 0x40 = (0 :: u8) \<longleftrightarrow> \<not> bit x 6"
  using and_exp_eq_0_iff_not_bit [of x 6] by simp

lemma below_8: "b < 8 \<Longrightarrow> b = 0 \<or> b = 1 \<or> b = 2 \<or> b = 3 \<or> b = 4 \<or> b = 5 \<or> b = 6 \<or> (b :: nat) = 7"
  by presburger

lemma all_below_8: "(\<forall>b < 8. P b) \<longleftrightarrow> list_all P [0..<8]"
  by (auto simp: list_all_iff)

lemma single_parity: "b < 8 \<Longrightarrow> bit (parity_of (push_bit b 1)) 6"
proof -
  have "list_all (\<lambda>b. bit (parity_of (push_bit b 1)) 6) [0..<8]" by code_simp
  then show "b < 8 \<Longrightarrow> ?thesis" by (simp add: list_all_iff)
qed

lemma ecc_step_flip:
  assumes "b < 8"
  shows "ecc_loop i ((d XOR push_bit b 1) # ds) r = add_regs (ecc_loop i (d # ds) r) (flip_regs i b)"
proof -
  obtain r1 r2 r3 where r: "r = (r1, r2, r3)" by (cases r) auto
  define q :: u8 where "q = push_bit b 1"
  let ?p = "parity_of q"
  have pd: "precalc (d XOR q) = precalc d XOR ?p" by (simp add: precalc_parity parity_linear)
  have b6: "bit (precalc (d XOR q)) 6 \<longleftrightarrow> \<not> bit (precalc d) 6"
    using single_parity [OF assms] by (simp add: pd bit_simps) (simp add: q_def)
  have m: "precalc (d XOR q) AND 0x3f = (precalc d AND 0x3f) XOR (?p AND 0x3f)"
    unfolding pd by (rule byte_eqI) (auto simp: bit_simps)
  show ?thesis
    unfolding flip_regs_def q_def [symmetric]
    by (cases "bit (precalc d) 6")
       (simp_all add: r parity_bit b6 m Let_def ecc_loop_add [symmetric]
          xor.assoc xor.commute xor.left_commute)
qed

lemma ecc_loop_flip:
  "b < 8 \<Longrightarrow> j < length ds \<Longrightarrow> ecc_loop i (flip_bit j b ds) r = add_regs (ecc_loop i ds r) (flip_regs (i + j) b)"
proof (induction ds arbitrary: i j r)
  case (Cons d ds)
  obtain r1 r2 r3 where r: "r = (r1, r2, r3)" by (cases r) auto
  show ?case
  proof (cases j)
    case 0
    then show ?thesis using ecc_step_flip [OF Cons.prems(1)] by (simp add: flip_bit_def)
  next
    case (Suc n)
    have "flip_bit j b (d # ds) = d # flip_bit n b ds" by (simp add: flip_bit_def Suc)
    then show ?thesis
      using Cons.IH [OF Cons.prems(1), of n "Suc i"] Cons.prems(2) Suc
      by (simp add: r Let_def)
  qed
qed simp

section \<open>Syndromes\<close>

text \<open>The correction with the syndromes of a change \<open>e\<close> of the registers.\<close>

definition correct_regs :: "u8 list \<Rightarrow> regs \<Rightarrow> outcome \<times> u8 list" where
  "correct_regs dat e = (case e of (e1, e2, e3) \<Rightarrow>
     correct_by dat (ecc_tmp2 e2 e3) (ecc_tmp1 e2 e3) (push_bit 2 e1))"

lemma not_xor_not: "NOT a XOR NOT (b :: u8) = a XOR b"
  by (rule bit_word_eqI) (auto simp: bit_simps)

lemma code2_linear: "(push_bit 2 (NOT (a XOR e)) OR 0x03) XOR (push_bit 2 (NOT a) OR 0x03) = push_bit 2 (e :: u8)"
  by (rule byte_eqI) (auto simp: bit_simps)

lemma correct_regs_add:
  assumes "ecc_loop 0 dat (0, 0, 0) = add_regs (ecc_loop 0 orig (0, 0, 0)) e"
  shows "nand_correct_data smc dat (nand_calculate_ecc smc orig) (nand_calculate_ecc smc dat) = correct_regs dat e"
proof -
  obtain r1 r2 r3 where r: "ecc_loop 0 orig (0, 0, 0) = (r1, r2, r3)" by (metis prod_cases3)
  obtain e1 e2 e3 where e: "e = (e1, e2, e3)" by (metis prod_cases3)
  have x: "NOT (a XOR b) XOR NOT a = (b :: u8)"
    "(a XOR b) XOR a = (b :: u8)" for a b
    by (rule bit_word_eqI; auto simp: bit_simps)+
  show ?thesis
    unfolding nand_correct_data_def nand_calculate_ecc_def correct_regs_def
    by (simp add: assms r e Let_def tmp1_linear tmp2_linear x code2_linear)
qed

lemma flip_length [simp]: "length (flip_bit i b dat) = length dat"
  by (simp add: flip_bit_def)

lemma flip_flip: "i < length dat \<Longrightarrow> flip_bit i b (flip_bit i b dat) = dat"
  by (simp add: flip_bit_def xor.assoc)

lemma line_syndrome:
  "(ecc_tmp1 (NOT w) w XOR drop_bit 1 (ecc_tmp1 (NOT w) w)) AND 0x55 = 0x55"
  "(ecc_tmp2 (NOT w) w XOR drop_bit 1 (ecc_tmp2 (NOT w) w)) AND 0x55 = 0x55"
  "byteoffs (ecc_tmp2 v w) (ecc_tmp1 v w) = w"
  by (rule byte_eqI; simp add: ecc_tmp1_def ecc_tmp2_def byteoffs_def bit_simps;
      (simp add: eval_nat_numeral bit_not_iff bit_drop_bit_eq bit_double_iff mult.commute [of _ "2 :: u8"])?)+

definition column_syndrome :: "nat \<Rightarrow> u8" where
  "column_syndrome b = push_bit 2 (parity_of (push_bit b 1) AND 0x3f)"

lemma column_syndrome_ok:
  assumes "b < 8"
  shows "(column_syndrome b XOR drop_bit 1 (column_syndrome b)) AND 0x54 = 0x54"
    and "unat (bitnum (column_syndrome b)) = b" and "column_syndrome b \<noteq> 0"
proof -
  have "list_all (\<lambda>b. (column_syndrome b XOR drop_bit 1 (column_syndrome b)) AND 0x54 = 0x54
      \<and> unat (bitnum (column_syndrome b)) = b \<and> column_syndrome b \<noteq> 0) [0..<8]" by code_simp
  with assms show "(column_syndrome b XOR drop_bit 1 (column_syndrome b)) AND 0x54 = 0x54"
    and "unat (bitnum (column_syndrome b)) = b" and "column_syndrome b \<noteq> 0"
    by (auto simp: list_all_iff)
qed

lemma correct_flip:
  assumes "length dat = 256" and "i < 256" and "b < 8"
  shows "correct_regs (flip_bit i b dat) (flip_regs i b) = (Corrected, dat)"
proof -
  define w :: u8 where "w = word_of_nat i"
  have w: "unat w = i" using assms(2) by (simp add: w_def unat_of_nat take_bit_eq_mod)
  have s: "correct_regs (flip_bit i b dat) (flip_regs i b) =
      correct_by (flip_bit i b dat) (ecc_tmp2 (NOT w) w) (ecc_tmp1 (NOT w) w) (column_syndrome b)"
    by (simp add: correct_regs_def flip_regs_def column_syndrome_def w_def)
  have ne: "ecc_tmp2 (NOT w) w OR ecc_tmp1 (NOT w) w OR column_syndrome b \<noteq> 0"
    using column_syndrome_ok(3) [OF assms(3)] by (simp add: or_eq_0_iff)
  show ?thesis
    unfolding s correct_by_def single_bit_def
    using ne line_syndrome [of w] line_syndrome(3) [of "NOT w" w] column_syndrome_ok [OF assms(3)] flip_flip [of i dat b] assms w by simp
qed

section \<open>Two flipped bits\<close>

text \<open>Two errors cancel in every pair of syndrome bits or set both bits.\<close>

definition paired :: "u8 \<Rightarrow> bool" where
  "paired s \<longleftrightarrow> bit s 0 = bit s 1 \<and> bit s 2 = bit s 3 \<and> bit s 4 = bit s 5 \<and> bit s 6 = bit s 7"

lemma countbits_step: "countbits b = of_bool (bit b 0) + countbits (drop_bit 1 b)"
proof (cases "b = 0")
  case True
  then show ?thesis by (simp add: countbits.simps [of 0])
next
  case False
  have "unat (b AND 1) = of_bool (bit b 0)" by (simp add: and_one_eq bit_0 odd_iff_mod_2_eq_one even_iff_mod_2_eq_zero)
  with False show ?thesis by (simp add: countbits.simps [of b])
qed

lemma even_countbits: "(\<forall>k. bit b (2 * k) = bit b (2 * k + 1)) \<Longrightarrow> even (countbits b)"
proof (induction b rule: measure_induct_rule [of unat])
  case (less b)
  show ?case
  proof (cases "b = 0")
    case True
    then show ?thesis by (simp add: countbits.simps [of 0])
  next
    case False
    let ?c = "drop_bit 1 (drop_bit 1 b)"
    have "unat ?c \<le> unat (drop_bit 1 b)"
      using drop_bit_less [of "drop_bit 1 b"] by (cases "drop_bit 1 b = 0") (auto simp: less_imp_le)
    with drop_bit_less [OF False] have "unat ?c < unat b" by simp
    moreover have "\<forall>k. bit ?c (2 * k) = bit ?c (2 * k + 1)"
    proof
      fix k
      show "bit ?c (2 * k) = bit ?c (2 * k + 1)"
        using spec [OF less.prems, of "Suc k"] by (simp add: bit_drop_bit_eq)
    qed
    ultimately have "even (countbits ?c)" by (rule less.IH)
    moreover have "countbits b = of_bool (bit b 0) + (of_bool (bit b 1) + countbits ?c)"
      by (subst countbits_step, subst countbits_step [of "drop_bit 1 b"]) (simp add: bit_drop_bit_eq)
    moreover have "bit b 0 = bit b 1" using spec [OF less.prems, of 0] by simp
    ultimately show ?thesis by simp
  qed
qed

lemma bit_syndrome_word: "bit (syndrome_word s0 s1 s2) n \<longleftrightarrow>
    (if n < 8 then bit s0 n else if n < 16 then bit s1 (n - 8) else n < 24 \<and> bit s2 (n - 16))"
  using bit_imp_le_length [of s0 n] bit_imp_le_length [of s1 "n - 8"] bit_imp_le_length [of s2 "n - 16"]
  by (auto simp: syndrome_word_def bit_simps)

lemma paired_pair: "paired s \<Longrightarrow> k < 4 \<Longrightarrow> bit s (2 * k) = bit s (Suc (2 * k))"
proof -
  assume s: "paired s" and "k < 4"
  then have "k = 0 \<or> k = 1 \<or> k = 2 \<or> k = 3" by presburger
  with s show ?thesis by (auto simp: paired_def eval_nat_numeral)
qed

lemma paired_even:
  assumes "paired s0" and "paired s1" and "paired s2"
  shows "even (countbits (syndrome_word s0 s1 s2))"
proof (rule even_countbits, rule allI)
  fix k :: nat
  have "2 * k - 8 = 2 * (k - 4)" "2 * k - 16 = 2 * (k - 8)"
    "8 \<le> 2 * k \<Longrightarrow> Suc (2 * k) - 8 = Suc (2 * (k - 4))" "16 \<le> 2 * k \<Longrightarrow> Suc (2 * k) - 16 = Suc (2 * (k - 8))" by auto
  then show "bit (syndrome_word s0 s1 s2) (2 * k) = bit (syndrome_word s0 s1 s2) (2 * k + 1)"
    using paired_pair [OF assms(1), of k] paired_pair [OF assms(2), of "k - 4"] paired_pair [OF assms(3), of "k - 8"]
    by (auto simp: bit_syndrome_word)
qed

lemma not_single: "paired s0 \<Longrightarrow> \<not> single_bit s0 s1 s2"
proof
  assume "paired s0" and "single_bit s0 s1 s2"
  then have e: "(s0 XOR drop_bit 1 s0) AND 0x55 = 0x55" and p: "bit s0 0 = bit s0 1"
    by (auto simp: single_bit_def paired_def)
  have "bit ((s0 XOR drop_bit 1 s0) AND 0x55) 0 = bit (0x55 :: u8) 0" by (simp only: e)
  with p show False by (simp add: bit_simps bit_drop_bit_eq)
qed

lemma tmp_paired: "paired (ecc_tmp1 w w)" "paired (ecc_tmp2 w w)"
  unfolding paired_def ecc_tmp1_def ecc_tmp2_def
  by (simp_all add: bit_simps) (simp_all add: eval_nat_numeral bit_simps bit_drop_bit_eq bit_double_iff mult.commute [of _ "2 :: u8"])

lemma xor_zero: "x XOR y = 0 \<Longrightarrow> x = (y :: u8)"
proof -
  assume "x XOR y = 0"
  then have "(x XOR y) XOR y = y" by simp
  then show "x = y" by (simp add: xor.assoc)
qed

lemma column_pair:
  assumes "b < 8" and "c < 8"
  shows "paired (column_syndrome b XOR column_syndrome c)"
    and "b \<noteq> c \<Longrightarrow> column_syndrome b XOR column_syndrome c \<noteq> 0"
proof -
  have "list_all (\<lambda>b. let s = column_syndrome b in \<not> bit s 0 \<and> \<not> bit s 1 \<and> bit s 2 = (\<not> bit s 3)
      \<and> bit s 4 = (\<not> bit s 5) \<and> bit s 6 = (\<not> bit s 7)) [0..<8]" by code_simp
  then have "let s = column_syndrome b in \<not> bit s 0 \<and> \<not> bit s 1 \<and> bit s 2 = (\<not> bit s 3)
      \<and> bit s 4 = (\<not> bit s 5) \<and> bit s 6 = (\<not> bit s 7)" if "b < 8" for b
    using that unfolding list_all_iff by simp
  from this [OF assms(1)] this [OF assms(2)] show "paired (column_syndrome b XOR column_syndrome c)"
    by (simp add: paired_def Let_def bit_xor_iff)
  assume "b \<noteq> c"
  then show "column_syndrome b XOR column_syndrome c \<noteq> 0"
    using xor_zero column_syndrome_ok(2) assms by metis
qed

lemma correct_two:
  assumes i: "i < 256" "j < 256" and b: "b < 8" "c < 8" and ne: "(i, b) \<noteq> (j, c)"
  shows "correct_regs dat (add_regs (flip_regs j c) (flip_regs i b)) = (Bad_message, dat)"
proof -
  define w :: u8 where "w = word_of_nat j XOR word_of_nat i"
  define s2 where "s2 = column_syndrome c XOR column_syndrome b"
  have push: "push_bit 2 (x XOR y) = push_bit 2 x XOR push_bit 2 (y :: u8)" for x y
    by (rule bit_word_eqI) (auto simp: bit_simps)
  have s: "correct_regs dat (add_regs (flip_regs j c) (flip_regs i b)) =
      correct_by dat (ecc_tmp2 w w) (ecc_tmp1 w w) s2"
    by (simp add: correct_regs_def flip_regs_def w_def s2_def column_syndrome_def not_xor_not push)
  have nz: "ecc_tmp2 w w OR ecc_tmp1 w w OR s2 \<noteq> 0"
  proof
    assume "ecc_tmp2 w w OR ecc_tmp1 w w OR s2 = 0"
    then have z: "ecc_tmp2 w w = 0" "ecc_tmp1 w w = 0" "s2 = 0" by (simp_all add: or_eq_0_iff)
    have "w = 0" using line_syndrome(3) [of w w] z by (simp add: byteoffs_def)
    then have "word_of_nat j = (word_of_nat i :: u8)" using xor_zero by (simp add: w_def)
    then have "i = j" using i by (simp add: word_of_nat_eq_iff take_bit_eq_mod)
    moreover have "b = c" using column_pair(2) [OF b(2,1)] z(3) s2_def by metis
    ultimately show False using ne by simp
  qed
  have "paired s2" using column_pair(1) [OF b(2,1)] by (simp add: s2_def)
  then have "even (countbits (syndrome_word (ecc_tmp2 w w) (ecc_tmp1 w w) s2))"
    by (intro paired_even tmp_paired)
  then have "countbits (syndrome_word (ecc_tmp2 w w) (ecc_tmp1 w w) s2) \<noteq> 1" by auto
  then show ?thesis using s nz not_single [OF tmp_paired(2)] by (simp add: correct_by_def)
qed

section \<open>Properties\<close>

text \<open>A single wrong bit of the three code bytes as they were read.\<close>

definition flip_code :: "nat \<Rightarrow> u8 \<times> u8 \<times> u8 \<Rightarrow> u8 \<times> u8 \<times> u8" where
  "flip_code n c = (case c of (c0, c1, c2) \<Rightarrow>
     if n < 8 then (c0 XOR push_bit n 1, c1, c2)
     else if n < 16 then (c0, c1 XOR push_bit (n - 8) 1, c2)
     else (c0, c1, c2 XOR push_bit (n - 16) 1))"

lemma correct_code_bit:
  assumes "n < 8"
  shows "correct_by dat (push_bit n 1) 0 0 = (Corrected, dat)"
    and "correct_by dat 0 (push_bit n 1) 0 = (Corrected, dat)"
    and "correct_by dat 0 0 (push_bit n 1) = (Corrected, dat)"
proof -
  have "list_all (\<lambda>n. (push_bit n 1 :: u8) \<noteq> 0 \<and> countbits (syndrome_word (push_bit n 1) 0 0) = 1
      \<and> countbits (syndrome_word 0 (push_bit n 1) 0) = 1 \<and> countbits (syndrome_word 0 0 (push_bit n 1)) = 1) [0..<8]"
    by code_simp
  with assms have "(push_bit n 1 :: u8) \<noteq> 0" "countbits (syndrome_word (push_bit n 1) 0 0) = 1"
    "countbits (syndrome_word 0 (push_bit n 1) 0) = 1" "countbits (syndrome_word 0 0 (push_bit n 1)) = 1"
    by (auto simp: list_all_iff)
  then show "correct_by dat (push_bit n 1) 0 0 = (Corrected, dat)"
    and "correct_by dat 0 (push_bit n 1) 0 = (Corrected, dat)"
    and "correct_by dat 0 0 (push_bit n 1) = (Corrected, dat)"
    by (simp_all add: correct_by_def single_bit_def del: push_bit_of_1)
qed

text \<open>
  C31. For every block of 256 bytes and both byte orders of the code: a block without errors is
  left alone, a single flipped bit anywhere in the block is corrected, and a single flipped bit of
  the stored code is recognised with the block left alone.
\<close>

theorem nand_corrects_single:
  assumes "length dat = 256" and "i < 256" and "b < 8" and "n < 24"
  shows "nand_correct_data smc dat (nand_calculate_ecc smc dat) (nand_calculate_ecc smc dat) = (No_error, dat)
     \<and> nand_correct_data smc (flip_bit i b dat) (nand_calculate_ecc smc dat) (nand_calculate_ecc smc (flip_bit i b dat))
         = (Corrected, dat)
     \<and> nand_correct_data smc dat (flip_code n (nand_calculate_ecc smc dat)) (nand_calculate_ecc smc dat) = (Corrected, dat)"
proof (intro conjI)
  obtain c0 c1 c2 where c: "nand_calculate_ecc smc dat = (c0, c1, c2)" by (metis prod_cases3)
  show "nand_correct_data smc dat (nand_calculate_ecc smc dat) (nand_calculate_ecc smc dat) = (No_error, dat)"
    by (simp add: c nand_correct_data_def correct_by_def)
  have "ecc_loop 0 (flip_bit i b dat) (0, 0, 0) = add_regs (ecc_loop 0 dat (0, 0, 0)) (flip_regs i b)"
    using ecc_loop_flip [OF assms(3), of i dat 0] assms by simp
  then show "nand_correct_data smc (flip_bit i b dat) (nand_calculate_ecc smc dat)
      (nand_calculate_ecc smc (flip_bit i b dat)) = (Corrected, dat)"
    using correct_regs_add correct_flip [OF assms(1-3)] by simp
  have x: "x XOR (x XOR y) = (y :: u8)" for x y by (simp add: xor.assoc [symmetric])
  show "nand_correct_data smc dat (flip_code n (nand_calculate_ecc smc dat)) (nand_calculate_ecc smc dat) = (Corrected, dat)"
    using assms(4) correct_code_bit [of n] correct_code_bit [of "n - 8"] correct_code_bit [of "n - 16"]
    by (auto simp: c nand_correct_data_def flip_code_def x simp del: push_bit_of_1)
qed

theorem nand_corrects_single_witness:
  "nand_correct_data False (flip_bit 77 5 (replicate 256 0x5a))
     (nand_calculate_ecc False (replicate 256 0x5a)) (nand_calculate_ecc False (flip_bit 77 5 (replicate 256 0x5a)))
   = (Corrected, replicate 256 0x5a)"
  using nand_corrects_single [of "replicate 256 0x5a" 77 5 0 False] by simp

text \<open>
  C32. Two flipped bits in a block of 256 bytes are always reported as an error that cannot be
  corrected, and the block is not changed any further.
\<close>

theorem nand_detects_double:
  assumes "length dat = 256" and "i < 256" and "j < 256" and "b < 8" and "c < 8" and "(i, b) \<noteq> (j, c)"
  shows "nand_correct_data smc (flip_bit i b (flip_bit j c dat)) (nand_calculate_ecc smc dat)
       (nand_calculate_ecc smc (flip_bit i b (flip_bit j c dat))) = (Bad_message, flip_bit i b (flip_bit j c dat))"
proof -
  let ?d = "flip_bit i b (flip_bit j c dat)"
  have "ecc_loop 0 ?d (0, 0, 0) = add_regs (add_regs (ecc_loop 0 dat (0, 0, 0)) (flip_regs j c)) (flip_regs i b)"
    using ecc_loop_flip [OF assms(4), of i "flip_bit j c dat" 0] ecc_loop_flip [OF assms(5), of j dat 0] assms by simp
  also have "\<dots> = add_regs (ecc_loop 0 dat (0, 0, 0)) (add_regs (flip_regs j c) (flip_regs i b))"
    by (simp add: add_regs_def xor.assoc)
  finally show ?thesis using correct_regs_add correct_two [OF assms(2-6)] by simp
qed

theorem nand_detects_double_witness:
  "fst (nand_correct_data True (flip_bit 0 0 (flip_bit 255 7 (replicate 256 0)))
     (nand_calculate_ecc True (replicate 256 0))
     (nand_calculate_ecc True (flip_bit 0 0 (flip_bit 255 7 (replicate 256 0))))) = Bad_message"
  using nand_detects_double [of "replicate 256 0" 0 255 0 7 True] by simp

end
