(* ===== verification/Ub_Qsort.thy ===== *)
theory Ub_Qsort
  imports Br_Clib "HOL-Library.Multiset"
begin

text \<open>
  Sorting in U-Boot: the shell sort \<^verbatim>\<open>lib/qsort.c\<close> and the comparison of strings of
  \<^verbatim>\<open>lib/string.c\<close>. Offsets are in bytes as in the code, the array is the list of its
  elements, and swapping the bytes of two elements swaps them. The loops may run forever for a gap
  of zero, so they are partial; the sorted result is shown to exist.
\<close>

section \<open>The sort\<close>

text \<open>\<open>do wgap = 3 * wgap + 1; while (wgap < (nel-1)/3);\<close>\<close>

function first_gap :: "nat \<Rightarrow> nat \<Rightarrow> nat" where
  "first_gap nel wgap = (let g = 3 * wgap + 1 in if g < (nel - 1) div 3 then first_gap nel g else g)"
  by auto
termination first_gap
  by (relation "measure (\<lambda>(nel, g). nel - g)") auto

declare first_gap.simps [simp del]

definition swap_at :: "nat \<Rightarrow> nat \<Rightarrow> 'a list \<Rightarrow> 'a list" where
  "swap_at a b xs = xs[a := xs ! b, b := xs ! a]"

partial_function (option) sift :: "('a \<Rightarrow> 'a \<Rightarrow> int) \<Rightarrow> nat \<Rightarrow> nat \<Rightarrow> nat \<Rightarrow> 'a list \<Rightarrow> 'a list option" where
  "sift cmp width wgap j xs =
     (let a = (j - wgap) div width; b = (j - wgap + wgap) div width in
      if cmp (xs ! a) (xs ! b) \<le> 0 then Some xs
      else if j - wgap \<ge> wgap then sift cmp width wgap (j - wgap) (swap_at a b xs)
      else Some (swap_at a b xs))"

partial_function (option) pass :: "('a \<Rightarrow> 'a \<Rightarrow> int) \<Rightarrow> nat \<Rightarrow> nat \<Rightarrow> nat \<Rightarrow> nat \<Rightarrow> 'a list \<Rightarrow> 'a list option" where
  "pass cmp width wnel wgap i xs =
     Option.bind (sift cmp width wgap i xs) (\<lambda>ys.
       if i + width < wnel then pass cmp width wnel wgap (i + width) ys else Some ys)"

partial_function (option) passes :: "('a \<Rightarrow> 'a \<Rightarrow> int) \<Rightarrow> nat \<Rightarrow> nat \<Rightarrow> nat \<Rightarrow> 'a list \<Rightarrow> 'a list option" where
  "passes cmp width wnel wgap xs =
     Option.bind (pass cmp width wnel wgap wgap xs) (\<lambda>ys.
       if (wgap - width) div 3 \<noteq> 0 then passes cmp width wnel ((wgap - width) div 3) ys else Some ys)"

declare sift.simps [code] pass.simps [code] passes.simps [code]

definition qsort :: "('a \<Rightarrow> 'a \<Rightarrow> int) \<Rightarrow> nat \<Rightarrow> 'a list \<Rightarrow> 'a list option" where
  "qsort cmp width xs =
     (let nel = length xs in
      if nel > 1 \<and> width > 0 then passes cmp width (nel * width) (first_gap nel 0 * width) xs else Some xs)"

section \<open>Comparing strings\<close>

text \<open>The difference of two characters is kept in a \<^verbatim>\<open>signed char\<close>.\<close>

definition char_diff :: "nat \<Rightarrow> nat \<Rightarrow> int" where
  "char_diff a b = sint (word_of_int (int a - int b) :: u8)"

fun strcmp :: "string \<Rightarrow> string \<Rightarrow> int" where
  "strcmp [] [] = 0"
| "strcmp [] (d # ds) = char_diff 0 (ascii d)"
| "strcmp (c # cs) [] = char_diff (ascii c) 0"
| "strcmp (c # cs) (d # ds) =
     (if char_diff (ascii c) (ascii d) \<noteq> 0 then char_diff (ascii c) (ascii d) else strcmp cs ds)"

section \<open>What sorting needs of a comparison\<close>

locale comparison =
  fixes cmp :: "'a \<Rightarrow> 'a \<Rightarrow> int"
    and dom_ok :: "'a \<Rightarrow> bool"
  assumes cmp_total: "dom_ok a \<Longrightarrow> dom_ok b \<Longrightarrow> cmp a b > 0 \<Longrightarrow> cmp b a \<le> 0"
    and cmp_trans: "dom_ok a \<Longrightarrow> dom_ok b \<Longrightarrow> dom_ok c \<Longrightarrow> cmp a b \<le> 0 \<Longrightarrow> cmp b c \<le> 0 \<Longrightarrow> cmp a c \<le> 0"

text \<open>The elements up to \<open>m\<close> are in order, those at \<open>n\<close> excepted, which is at most what follows it.\<close>

definition in_order :: "('a \<Rightarrow> 'a \<Rightarrow> int) \<Rightarrow> 'a list \<Rightarrow> nat \<Rightarrow> bool" where
  "in_order cmp xs m \<longleftrightarrow> (\<forall>i j. i < j \<and> j < m \<longrightarrow> cmp (xs ! i) (xs ! j) \<le> 0)"

definition hole_order :: "('a \<Rightarrow> 'a \<Rightarrow> int) \<Rightarrow> 'a list \<Rightarrow> nat \<Rightarrow> nat \<Rightarrow> bool" where
  "hole_order cmp xs n m \<longleftrightarrow>
     (\<forall>i j. i < j \<and> j < m \<and> i \<noteq> n \<and> j \<noteq> n \<longrightarrow> cmp (xs ! i) (xs ! j) \<le> 0)
     \<and> (\<forall>j. n < j \<and> j < m \<longrightarrow> cmp (xs ! n) (xs ! j) \<le> 0)"

lemma length_swap [simp]: "length (swap_at a b xs) = length xs"
  by (simp add: swap_at_def)

lemma nth_swap: "a < length xs \<Longrightarrow> b < length xs \<Longrightarrow> i < length xs \<Longrightarrow>
    swap_at a b xs ! i = (if i = b then xs ! a else if i = a then xs ! b else xs ! i)"
  by (auto simp: swap_at_def nth_list_update)

lemma mset_swap_at: "a < length xs \<Longrightarrow> b < length xs \<Longrightarrow> mset (swap_at a b xs) = mset xs"
  unfolding swap_at_def by (rule mset_swap)

lemma sift_step:
  assumes "0 < width" and "0 < g" and "g \<le> n"
  shows "sift cmp width (g * width) (n * width) xs =
    (if cmp (xs ! (n - g)) (xs ! n) \<le> 0 then Some xs
     else if n - g \<ge> g then sift cmp width (g * width) ((n - g) * width) (swap_at (n - g) n xs)
     else Some (swap_at (n - g) n xs))"
proof -
  have "n * width - g * width = (n - g) * width" by (simp add: diff_mult_distrib)
  moreover have "(n - g) * width + g * width = n * width" using assms(3) by (simp add: add_mult_distrib [symmetric])
  moreover have "(n - g) * width \<ge> g * width \<longleftrightarrow> n - g \<ge> g" using assms(1) by simp
  ultimately show ?thesis using assms(1) by (subst sift.simps) (simp add: Let_def)
qed

lemma sift_total:
  assumes "0 < width" and "0 < g"
  shows "g \<le> n \<Longrightarrow> n < length xs \<Longrightarrow> \<exists>ys. sift cmp width (g * width) (n * width) xs = Some ys \<and> mset ys = mset xs"
proof (induction n arbitrary: xs rule: less_induct)
  case (less n)
  have "mset (swap_at (n - g) n xs) = mset xs" using less.prems by (intro mset_swap_at) auto
  moreover have "n - g < n" using assms(2) less.prems by simp
  ultimately show ?case
    using less.IH [of "n - g" "swap_at (n - g) n xs"] less.prems
    by (auto simp: sift_step [OF assms less.prems(1)])
qed

lemma pass_total:
  assumes "0 < width" and "0 < g"
  shows "g \<le> n \<Longrightarrow> n < length xs \<Longrightarrow>
    \<exists>ys. pass cmp width (length xs * width) (g * width) (n * width) xs = Some ys \<and> mset ys = mset xs"
proof (induction "length xs - n" arbitrary: n xs rule: less_induct)
  case less
  obtain ys where ys: "sift cmp width (g * width) (n * width) xs = Some ys" "mset ys = mset xs"
    using sift_total [OF assms less.prems] by blast
  have len: "length ys = length xs" using ys(2) by (rule mset_eq_length)
  have next_i: "n * width + width = Suc n * width" by simp
  show ?case
  proof (cases "Suc n < length xs")
    case True
    then have "length ys - Suc n < length xs - n" using len by simp
    from less.hyps [OF this] True obtain zs where
      "pass cmp width (length ys * width) (g * width) (Suc n * width) ys = Some zs" "mset zs = mset ys"
      using less.prems len by auto
    with True ys len show ?thesis
      using assms(1) by (subst pass.simps) (auto simp: next_i simp del: mult_Suc)
  next
    case False
    then have "\<not> Suc n * width < length xs * width" by (auto simp only: mult_less_cancel2)
    with ys show ?thesis by (subst pass.simps) (auto simp: next_i simp del: mult_Suc)
  qed
qed

context comparison begin

lemma hole_done:
  assumes h: "hole_order cmp xs n m" and ok: "\<forall>x \<in> set xs. dom_ok x" and m: "m \<le> length xs"
    and n: "n < m" "n = 0 \<or> cmp (xs ! (n - 1)) (xs ! n) \<le> 0"
  shows "in_order cmp xs m"
  unfolding in_order_def
proof (intro allI impI)
  fix i j assume ij: "i < j \<and> j < m"
  have d: "\<And>k. k < m \<Longrightarrow> dom_ok (xs ! k)" using ok m by auto
  show "cmp (xs ! i) (xs ! j) \<le> 0"
  proof (cases "j = n")
    case True
    then have "cmp (xs ! (n - 1)) (xs ! n) \<le> 0" "i \<le> n - 1" using ij n by auto
    moreover have "i < n - 1 \<Longrightarrow> cmp (xs ! i) (xs ! (n - 1)) \<le> 0"
      using h [unfolded hole_order_def, THEN conjunct1, rule_format, of i "n - 1"] n(1) by linarith
    ultimately show ?thesis
      using True cmp_trans [of "xs ! i" "xs ! (n - 1)" "xs ! n"] d ij n(1)
      by (cases "i = n - 1") auto
  next
    case False
    then show ?thesis using h ij by (cases "i = n") (auto simp: hole_order_def)
  qed
qed

lemma hole_swap:
  assumes h: "hole_order cmp xs (Suc n) m" and ok: "\<forall>x \<in> set xs. dom_ok x" and m: "m \<le> length xs" "Suc n < m"
    and gt: "cmp (xs ! n) (xs ! Suc n) > 0"
  shows "hole_order cmp (swap_at n (Suc n) xs) n m"
proof -
  let ?y = "swap_at n (Suc n) xs"
  have y: "?y ! i = (if i = Suc n then xs ! n else if i = n then xs ! Suc n else xs ! i)" if "i < m" for i
    using that m by (intro nth_swap) auto
  have le: "cmp (xs ! Suc n) (xs ! n) \<le> 0" using cmp_total [OF _ _ gt] ok m by simp
  have h1: "\<And>i j. i < j \<Longrightarrow> j < m \<Longrightarrow> i \<noteq> Suc n \<Longrightarrow> j \<noteq> Suc n \<Longrightarrow> cmp (xs ! i) (xs ! j) \<le> 0"
    and h2: "\<And>j. Suc n < j \<Longrightarrow> j < m \<Longrightarrow> cmp (xs ! Suc n) (xs ! j) \<le> 0"
    using h by (auto simp: hole_order_def)
  show ?thesis
    unfolding hole_order_def
  proof (intro conjI allI impI)
    fix i j assume a: "i < j \<and> j < m \<and> i \<noteq> n \<and> j \<noteq> n"
    then show "cmp (?y ! i) (?y ! j) \<le> 0"
      using h1 [of i j] h1 [of i n] h1 [of n j] by (auto simp: y)
  next
    fix j assume "n < j \<and> j < m"
    then show "cmp (?y ! n) (?y ! j) \<le> 0" using le h2 [of j] m by (auto simp: y)
  qed
qed

lemma sift_orders:
  assumes "0 < width"
  shows "hole_order cmp xs n m \<Longrightarrow> \<forall>x \<in> set xs. dom_ok x \<Longrightarrow> m \<le> length xs \<Longrightarrow> n < m \<Longrightarrow> 0 < n \<Longrightarrow>
    \<exists>ys. sift cmp width width (n * width) xs = Some ys \<and> mset ys = mset xs \<and> in_order cmp ys m"
proof (induction n arbitrary: xs)
  case (Suc n)
  note step = sift_step [OF assms, of 1 "Suc n" cmp xs, simplified]
  let ?y = "swap_at n (Suc n) xs"
  show ?case
  proof (cases "cmp (xs ! n) (xs ! Suc n) \<le> 0")
    case True
    then show ?thesis using hole_done [OF Suc.prems(1-4)] step by simp
  next
    case False
    then have h: "hole_order cmp ?y n m" using hole_swap Suc.prems by simp
    have ms: "mset ?y = mset xs" using Suc.prems by (intro mset_swap_at) auto
    then have ok: "\<forall>x \<in> set ?y. dom_ok x" using Suc.prems(2) by (metis set_mset_mset)
    show ?thesis
    proof (cases "n = 0")
      case True
      then show ?thesis using False step ms hole_done [OF h ok] Suc.prems by simp
    next
      case n: False
      then obtain ys where "sift cmp width width (n * width) ?y = Some ys" "mset ys = mset ?y" "in_order cmp ys m"
        using Suc.IH [OF h ok] Suc.prems by auto
      with False n ms step show ?thesis by auto
    qed
  qed
qed simp

lemma pass_orders:
  assumes w: "0 < width"
  shows "in_order cmp xs n \<Longrightarrow> \<forall>x \<in> set xs. dom_ok x \<Longrightarrow> n < length xs \<Longrightarrow> 0 < n \<Longrightarrow>
    \<exists>ys. pass cmp width (length xs * width) width (n * width) xs = Some ys \<and> mset ys = mset xs
      \<and> in_order cmp ys (length xs)"
proof (induction "length xs - n" arbitrary: n xs rule: less_induct)
  case less
  have "hole_order cmp xs n (Suc n)" using less.prems(1) by (auto simp: hole_order_def in_order_def)
  then obtain ys where ys: "sift cmp width width (n * width) xs = Some ys" "mset ys = mset xs" "in_order cmp ys (Suc n)"
    using sift_orders [OF w] less.prems by fastforce
  have len: "length ys = length xs" using ys(2) by (rule mset_eq_length)
  have ok: "\<forall>x \<in> set ys. dom_ok x" using less.prems(2) ys(2) by (metis set_mset_mset)
  have next_i: "n * width + width = Suc n * width" by simp
  show ?case
  proof (cases "Suc n < length xs")
    case True
    then have "length ys - Suc n < length xs - n" using len by simp
    from less.hyps [OF this ys(3) ok] True obtain zs where
      "pass cmp width (length ys * width) width (Suc n * width) ys = Some zs" "mset zs = mset ys"
      "in_order cmp zs (length ys)"
      using len by auto
    with True ys len show ?thesis
      using w by (subst pass.simps) (auto simp: next_i simp del: mult_Suc)
  next
    case False
    then have "\<not> Suc n * width < length xs * width" "length xs = Suc n"
      using less.prems(3) by (auto simp only: mult_less_cancel2)
    with ys show ?thesis by (subst pass.simps) (auto simp: next_i simp del: mult_Suc)
  qed
qed

end

section \<open>The gaps\<close>

inductive is_gap :: "nat \<Rightarrow> bool" where
  "is_gap 1"
| "is_gap h \<Longrightarrow> is_gap (3 * h + 1)"

lemma is_gap_pos: "is_gap g \<Longrightarrow> 0 < g"
  by (induction rule: is_gap.induct) auto

lemma first_gap_ok:
  "g = 0 \<or> is_gap g \<Longrightarrow> 3 * g + 1 < nel \<Longrightarrow> is_gap (first_gap nel g) \<and> first_gap nel g < nel"
proof (induction nel g rule: first_gap.induct)
  case (1 nel g)
  have gap: "is_gap (3 * g + 1)" using "1.prems"(1) is_gap.intros by auto
  show ?case
  proof (cases "3 * g + 1 < (nel - 1) div 3")
    case True
    then show ?thesis using "1.IH" [OF refl True] gap by (simp add: first_gap.simps [of nel g])
  next
    case False
    then show ?thesis using gap "1.prems" by (simp add: first_gap.simps [of nel g])
  qed
qed

lemma next_gap: "(3 * h + 1) * width - width = 3 * (h * width)" for h width :: nat
  by (simp add: algebra_simps)

context comparison begin

lemma passes_orders:
  assumes w: "0 < width"
  shows "is_gap g \<Longrightarrow> g < length xs \<Longrightarrow> \<forall>x \<in> set xs. dom_ok x \<Longrightarrow>
    \<exists>ys. passes cmp width (length xs * width) (g * width) xs = Some ys \<and> mset ys = mset xs
      \<and> in_order cmp ys (length ys)"
proof (induction g arbitrary: xs rule: is_gap.induct)
  case 1
  have "in_order cmp xs 1" by (simp add: in_order_def)
  then obtain ys where "pass cmp width (length xs * width) width (1 * width) xs = Some ys" "mset ys = mset xs"
    "in_order cmp ys (length xs)" using pass_orders [OF w, of xs 1] 1 by auto
  then show ?case by (subst passes.simps) (auto dest: mset_eq_length)
next
  case (2 h)
  let ?g = "3 * h + 1"
  obtain ys where ys: "pass cmp width (length xs * width) (?g * width) (?g * width) xs = Some ys" "mset ys = mset xs"
    using pass_total [OF w, of ?g ?g xs] "2.prems" by auto
  have len: "length ys = length xs" using ys(2) by (rule mset_eq_length)
  have ok: "\<forall>x \<in> set ys. dom_ok x" using "2.prems"(2) ys(2) by (metis set_mset_mset)
  have "h < length ys" using "2.prems"(1) len by simp
  from "2.IH" [OF this ok] obtain zs where
    "passes cmp width (length ys * width) (h * width) ys = Some zs" "mset zs = mset ys" "in_order cmp zs (length zs)"
    by blast
  moreover have "(?g * width - width) div 3 = h * width" by (simp only: next_gap)
  moreover have "h * width \<noteq> 0" using w is_gap_pos [OF "2.hyps"] by simp
  ultimately show ?case using ys len by (subst passes.simps) (simp del: mult_Suc add_2_eq_Suc')
qed

lemma qsort_orders:
  assumes "\<forall>x \<in> set xs. dom_ok x" and "0 < width"
  shows "\<exists>ys. qsort cmp width xs = Some ys \<and> mset ys = mset xs \<and> in_order cmp ys (length ys)"
proof (cases "length xs > 1")
  case True
  then have "is_gap (first_gap (length xs) 0)" "first_gap (length xs) 0 < length xs"
    using first_gap_ok [of 0 "length xs"] by auto
  from passes_orders [OF assms(2) this assms(1)] True assms(2) show ?thesis by (simp add: qsort_def Let_def)
next
  case False
  then show ?thesis by (auto simp: qsort_def in_order_def)
qed

end

section \<open>Strings are such elements\<close>

definition plain_string :: "string \<Rightarrow> bool" where
  "plain_string s \<longleftrightarrow> (\<forall>c \<in> set s. 0 < ascii c \<and> ascii c < 128)"

lemma char_diff_plain: "a < 128 \<Longrightarrow> b < 128 \<Longrightarrow> char_diff a b = int a - int b"
  unfolding char_diff_def int_word_sint by (simp add: mod_pos_pos_trivial)

lemma strcmp_sym: "plain_string a \<Longrightarrow> plain_string b \<Longrightarrow> strcmp b a = - strcmp a b"
  by (induction a b rule: strcmp.induct) (auto simp: plain_string_def char_diff_plain)

lemma strcmp_le:
  "ascii c < 128 \<Longrightarrow> ascii d < 128 \<Longrightarrow>
     strcmp (c # s) (d # t) \<le> 0 \<longleftrightarrow> ascii c < ascii d \<or> ascii c = ascii d \<and> strcmp s t \<le> 0"
  by (auto simp: char_diff_plain)

lemma strcmp_trans:
  "plain_string a \<Longrightarrow> plain_string b \<Longrightarrow> plain_string c \<Longrightarrow> strcmp a b \<le> 0 \<Longrightarrow> strcmp b c \<le> 0 \<Longrightarrow> strcmp a c \<le> 0"
proof (induction a arbitrary: b c)
  case Nil
  then show ?case by (cases c) (auto simp: plain_string_def char_diff_plain)
next
  case (Cons x a)
  obtain y b' where b: "b = y # b'"
    using Cons.prems(1,4) by (cases b) (auto simp: plain_string_def char_diff_plain)
  obtain z c' where c: "c = z # c'"
    using Cons.prems(2,5) b by (cases c) (auto simp: plain_string_def char_diff_plain)
  have asc: "ascii x < 128" "ascii y < 128" "ascii z < 128" and p: "plain_string a" "plain_string b'" "plain_string c'"
    using Cons.prems(1-3) b c by (auto simp: plain_string_def)
  show ?case
    using Cons.prems(4,5) Cons.IH [OF p] unfolding b c strcmp_le [OF asc(1,2)] strcmp_le [OF asc(2,3)]
      strcmp_le [OF asc(1,3)] by linarith
qed

interpretation strings: comparison strcmp plain_string
proof unfold_locales
  fix a b :: string
  assume "plain_string a" "plain_string b" "strcmp a b > 0"
  then show "strcmp b a \<le> 0" using strcmp_sym [of a b] by linarith
qed (rule strcmp_trans)

section \<open>Properties\<close>

text \<open>
  C34. On strings of 7-bit characters \<^verbatim>\<open>qsort\<close> with \<^verbatim>\<open>strcmp\<close> ends, its result has the
  same strings as the array it was given, and each is at most all that follow it.
\<close>

theorem qsort_strings:
  assumes "\<forall>s \<in> set xs. plain_string s" and "0 < width"
  shows "\<exists>ys. qsort strcmp width xs = Some ys \<and> mset ys = mset xs
     \<and> (\<forall>i j. i < j \<and> j < length ys \<longrightarrow> strcmp (ys ! i) (ys ! j) \<le> 0)"
  using strings.qsort_orders [OF assms] by (auto simp: in_order_def)

theorem qsort_strings_witness:
  "\<exists>ys. qsort strcmp 4 [''help'', ''boot'', ''env''] = Some ys \<and> mset ys = {#''boot'', ''env'', ''help''#}"
proof -
  have "\<forall>s \<in> set [''help'', ''boot'', ''env'']. plain_string s" by (simp add: plain_string_def ascii_def)
  from qsort_strings [OF this, of 4] show ?thesis by auto
qed

text \<open>The order of bytes that differ by 128 or more is not transitive.\<close>

lemma strcmp_cycle:
  "strcmp [CHR 0x10] [CHR 0x70] \<le> 0 \<and> strcmp [CHR 0x70] [CHR 0xF0] \<le> 0 \<and> strcmp [CHR 0x10] [CHR 0xF0] > 0"
  by code_simp

end
