(* ===== verification/Spec2Isabelle.thy ===== *)
theory Spec2Isabelle
  imports Kconfig_Print Kconfig_Write Kconfig_Cycles Kconfig_Finalize Ub_Circbuf Ub_Crc32 Ub_LmbSets Ub_NandEcc Ub_Qsort
begin

text \<open>
  A verification of the algorithmic parts of this Buildroot tree: the configuration engine that
  decides what is built (\<^verbatim>\<open>support/kconfig\<close>) and library routines of the boot loader it
  ships (\<^verbatim>\<open>sunmi/x2600/u-boot\<close>).

  \<^bold>\<open>The program.\<close> The configuration files are parsed into symbols, their properties and a
  tree of menus. A symbol has a type, a value given by the user, and expressions over other symbols:
  its dependencies, its defaults, and the symbols that select it. The engine simplifies these
  expressions, calculates the value of each symbol on demand, reads and writes
  \<^verbatim>\<open>.config\<close> files, and writes the generated headers. The boot loader uses its library
  for buffers between drivers, sorting, checksums and error correction, and for the memory that an
  image is loaded to.

  \<^bold>\<open>Theories and sources.\<close>

  \<^item> \<open>Br_Prelude\<close>, \<open>Br_Monad\<close>, \<open>Br_Clib\<close>: machine integers, programs over a state that
    may crash or run out of fuel, and the functions of the C library that the sources call.
  \<^item> \<open>Kconfig_Data\<close> (\<^verbatim>\<open>expr.h\<close>): tristate values, expressions, properties, symbols and the
    static variables of the engine, one record or datatype for each struct or enum.
  \<^item> \<open>Kconfig_Expr\<close>, \<open>Kconfig_Simplify\<close>, \<open>Kconfig_Dups\<close>, \<open>Kconfig_Query\<close>
    (\<^verbatim>\<open>expr.c\<close>): evaluation, comparison up to rearrangement, negation normal form, removal
    of duplicates, and questions about expressions. The lemmas show that rewriting ends and
    preserves values, and for which values it does not.
  \<^item> \<open>Kconfig_Print\<close> (\<^verbatim>\<open>expr.c\<close>, \<^verbatim>\<open>util.c\<close>, \<^verbatim>\<open>zconf.y\<close>): printing, the
    growable strings it prints to, and the grammar of expressions, which reads back what was printed.
  \<^item> \<open>Kconfig_Symbol\<close>, \<open>Kconfig_Calc\<close> (\<^verbatim>\<open>symbol.c\<close>): the memoised calculation of values.
    The second theory follows relations between states through all of its functions: the recursion
    ends, calculated values are kept, and values respect selections and ranges.
  \<^item> \<open>Kconfig_Set\<close>, \<open>Kconfig_Table\<close>, \<open>Kconfig_Text\<close> (\<^verbatim>\<open>symbol.c\<close>,
    \<^verbatim>\<open>confdata.c\<close>): accepted values and setting them, the hash table of symbols, and quoting
    and expansion with the sizes of the buffers.
  \<^item> \<open>Kconfig_Conf\<close>, \<open>Kconfig_Write\<close> (\<^verbatim>\<open>confdata.c\<close>): reading a file line by line, and
    the text of every file that is written.
  \<^item> \<open>Kconfig_Menu\<close> (\<^verbatim>\<open>menu.c\<close>): the tree of menus as the parser links it and the writers
    walk it, dependencies, and visibility.
  \<^item> \<open>Kconfig_Deps\<close>, \<open>Kconfig_Cycles\<close> (\<^verbatim>\<open>symbol.c\<close>, \<^verbatim>\<open>zconf.y\<close>): the search for
    recursive dependencies after parsing. It ends when there is no cycle, and where only the members
    of a choice depend on it, it is silent exactly then; otherwise the order of the symbols matters.
  \<^item> \<open>Ub_Circbuf\<close>, \<open>Ub_NandEcc\<close>, \<open>Ub_Qsort\<close> (\<^verbatim>\<open>lib/circbuf.c\<close>,
    \<^verbatim>\<open>drivers/mtd/nand/nand_ecc.c\<close>, \<^verbatim>\<open>lib/qsort.c\<close>, \<^verbatim>\<open>lib/string.c\<close>): the ring
    buffer as a bounded queue, the code that corrects one bit and detects two, and the sort.
  \<^item> \<open>Ub_Crc32\<close> (\<^verbatim>\<open>lib/crc32.c\<close>): the checksum by tables and words is the remainder
    calculated bit by bit, and every short burst error changes it.
  \<^item> \<open>Ub_Lmb\<close>, \<open>Ub_LmbSets\<close> (\<^verbatim>\<open>lib/lmb.c\<close>): the tables of memory regions. The reserved
    ones refine a set of addresses, stated as the locale \<open>address_set\<close>, and an allocation finds a
    free block whenever there is one.

  \<^bold>\<open>State and errors.\<close> The state of the engine is the record \<open>kconf\<close>. A function of the
  source that changes it is a program of \<open>Br_Monad\<close>; reading through a null or stray pointer is
  \<open>Crash\<close>. A loop or recursion that might not end is a partial function, with the proof that it
  has a value. Flag words are sets of flags.

  \<^bold>\<open>Bounds and fuel.\<close> \<open>sym_calc_value\<close> and \<open>sym_check_deps\<close> take fuel, the depth of
  their recursion. \<open>Kconfig_Calc\<close> shows that a bound given by the symbols still to be calculated is
  enough for the first, \<open>Kconfig_Cycles\<close> that more than twice the number of symbols, plus one, is
  enough for the second. Machine integers are words where overflow matters (the hash function,
  \<^verbatim>\<open>strtoll\<close>, checksums and error correction, \<^verbatim>\<open>strcmp\<close>, memory addresses); buffers of
  fixed size are modelled with their size.

  \<^bold>\<open>Not modelled.\<close> The scanner and the statement rules of the grammar are input of flex and
  bison. The user interfaces only call the modelled functions. Opening, renaming and touching files
  are system calls: what opening a file gives is an argument. Drivers, board and architecture code of
  the boot loader are sequences of register accesses. Make rules and packages run other programs.
\<close>

end
